(* ===== verification/Prelude.thy ===== *)
theory Prelude
  imports Complex_Main "HOL-Library.AList" "HOL-Library.Multiset"
begin

section \<open>Shared vocabulary of the development\<close>

text \<open>
  What the components share: Python exceptions as values of a sum type, sequencing of
  fallible code, the integer helpers of the Python language and standard library that the
  sources call (\<^verbatim>\<open>range\<close>, integer square root and logarithm, \<^verbatim>\<open>itertools\<close>), Python list
  indexing, insertion-ordered dictionaries (the association lists of \<^verbatim>\<open>HOL-Library.AList\<close>,
  whose \<^verbatim>\<open>AList.update\<close> overwrites in place or appends, as Python's does) and the simplification
  collections of the library.
\<close>

named_theorems py_simps \<open>sequencing of fallible code and the Python helpers\<close>

subsection \<open>Exceptions as values\<close>

datatype py_error =
    IndexError
  | KeyError
  | ValueError
  | TypeError
  | AttributeError
  | ZeroDivisionError
  | AssertionError
  | RuntimeError
  | NameError
  | NotImplementedError
  | OSError
  | StructError

type_synonym 'a res = "py_error + 'a"

text \<open>A dictionary keeps its insertion order, as Python's \<^verbatim>\<open>dict\<close> and \<^verbatim>\<open>OrderedDict\<close> do.\<close>

type_synonym ('k, 'v) dict = "('k \<times> 'v) list"

definition bindE :: "'a res \<Rightarrow> ('a \<Rightarrow> 'b res) \<Rightarrow> 'b res" where
  "bindE m f = (case m of Inl e \<Rightarrow> Inl e | Inr x \<Rightarrow> f x)"

definition assertE :: "bool \<Rightarrow> 'a res \<Rightarrow> 'a res" where
  "assertE b m = (if b then m else Inl AssertionError)"

fun mapE :: "('a \<Rightarrow> 'b res) \<Rightarrow> 'a list \<Rightarrow> 'b list res" where
  "mapE f [] = Inr []"
| "mapE f (x # xs) = bindE (f x) (\<lambda>y. bindE (mapE f xs) (\<lambda>ys. Inr (y # ys)))"

fun foldE :: "('s \<Rightarrow> 'a \<Rightarrow> 's res) \<Rightarrow> 's \<Rightarrow> 'a list \<Rightarrow> 's res" where
  "foldE f s [] = Inr s"
| "foldE f s (x # xs) = bindE (f s x) (\<lambda>s'. foldE f s' xs)"

text \<open>
  The outcome of stateful code: its result or exception, and the state it leaves in either case.
\<close>

type_synonym ('s, 'a) outcome = "'a res \<times> 's"

fun bindO :: "('s, 'a) outcome \<Rightarrow> ('a \<Rightarrow> 's \<Rightarrow> ('s, 'b) outcome) \<Rightarrow> ('s, 'b) outcome" where
  "bindO (Inl e, s) f = (Inl e, s)"
| "bindO (Inr x, s) f = f x s"

fun foldO :: "('a \<Rightarrow> 's \<Rightarrow> ('s, unit) outcome) \<Rightarrow> 'a list \<Rightarrow> 's \<Rightarrow> ('s, unit) outcome" where
  "foldO f [] s = (Inr (), s)"
| "foldO f (x # xs) s = bindO (f x s) (\<lambda>_ s'. foldO f xs s')"

fun mapO :: "('a \<Rightarrow> 's \<Rightarrow> ('s, 'b) outcome) \<Rightarrow> 'a list \<Rightarrow> 's \<Rightarrow> ('s, 'b list) outcome" where
  "mapO f [] s = (Inr [], s)"
| "mapO f (x # xs) s = bindO (f x s) (\<lambda>y s'. bindO (mapO f xs s') (\<lambda>ys s''. (Inr (y # ys), s'')))"

lemma bindE_Inr [simp, py_simps]: "bindE (Inr x) f = f x"
  by (simp add: bindE_def)

lemma bindE_Inl [simp, py_simps]: "bindE (Inl e) f = Inl e"
  by (simp add: bindE_def)

lemma bindE_eq_Inr: "bindE m f = Inr y \<longleftrightarrow> (\<exists>x. m = Inr x \<and> f x = Inr y)"
  by (cases m) auto

lemma bindE_eq_Inl: "bindE m f = Inl e \<longleftrightarrow> m = Inl e \<or> (\<exists>x. m = Inr x \<and> f x = Inl e)"
  by (cases m) auto

lemma assertE_True [simp, py_simps]: "assertE True m = m"
  by (simp add: assertE_def)

lemma assertE_False [simp, py_simps]: "assertE False m = Inl AssertionError"
  by (simp add: assertE_def)

lemma assertE_eq_Inr: "assertE b m = Inr y \<longleftrightarrow> b \<and> m = Inr y"
  by (cases b) auto

lemma bindO_eq_Inr:
  "bindO m f = (Inr y, t) \<longleftrightarrow> (\<exists>x s. m = (Inr x, s) \<and> f x s = (Inr y, t))"
  by (cases m rule: prod.exhaust; cases "fst m") auto

lemma mapE_cong [fundef_cong]:
  "xs = ys \<Longrightarrow> (\<And>x. x \<in> set ys \<Longrightarrow> f x = g x) \<Longrightarrow> mapE f xs = mapE g ys"
  by (induction ys arbitrary: xs) auto

lemma bindE_cong [fundef_cong]:
  "m = m' \<Longrightarrow> (\<And>x. m' = Inr x \<Longrightarrow> f x = g x) \<Longrightarrow> bindE m f = bindE m' g"
  by (cases m') auto

lemma mapE_Inr_iff:
  "mapE f xs = Inr ys \<longleftrightarrow> length ys = length xs \<and> (\<forall>i < length xs. f (xs ! i) = Inr (ys ! i))"
proof (induction xs arbitrary: ys)
  case Nil
  then show ?case by auto
next
  case (Cons x xs)
  show ?case
  proof (cases ys)
    case Nil
    then show ?thesis by (auto simp: bindE_eq_Inr)
  next
    case (Cons y zs)
    then show ?thesis
      using Cons.IH [of zs] by (cases "f x") (auto simp: bindE_eq_Inr nth_Cons split: nat.splits)
  qed
qed

lemma mapE_map_Inr: "(\<And>x. x \<in> set xs \<Longrightarrow> f x = Inr (g x)) \<Longrightarrow> mapE f xs = Inr (map g xs)"
  by (induction xs) auto

lemma mapE_length: "mapE f xs = Inr ys \<Longrightarrow> length ys = length xs"
  by (simp add: mapE_Inr_iff)

lemma foldE_append: "foldE f s (xs @ ys) = bindE (foldE f s xs) (\<lambda>s'. foldE f s' ys)"
proof (induction xs arbitrary: s)
  case (Cons x xs)
  then show ?case by (cases "f s x") simp_all
qed simp

lemma foldE_invariant:
  assumes "foldE f s xs = Inr s'" and "P s"
    and "\<And>s x t. P s \<Longrightarrow> x \<in> set xs \<Longrightarrow> f s x = Inr t \<Longrightarrow> P t"
  shows "P s'"
  using assms
proof (induction xs arbitrary: s)
  case (Cons x xs)
  from Cons.prems(1) obtain t where t: "f s x = Inr t" "foldE f t xs = Inr s'"
    by (auto simp: bindE_eq_Inr)
  have "P t" using Cons.prems(2,3) t(1) by (meson list.set_intros(1))
  with t(2) show ?case
    by (rule Cons.IH) (meson Cons.prems(3) list.set_intros(2))
qed simp

subsection \<open>Integer helpers of the language and its library\<close>

definition py_range :: "int \<Rightarrow> int \<Rightarrow> int \<Rightarrow> int list" where
  "py_range lo hi step = map (\<lambda>k. lo + int k * step) [0..<nat ((hi - lo + step - 1) div step)]"

text \<open>\<^verbatim>\<open>int(math.sqrt(n))\<close> and \<^verbatim>\<open>math.floor(math.log2(n))\<close> on exact integers.\<close>

definition isqrt :: "nat \<Rightarrow> nat" where
  "isqrt n = length (takeWhile (\<lambda>k. k * k \<le> n) [1..<Suc n])"

definition ilog2 :: "nat \<Rightarrow> nat" where
  "ilog2 n = length (takeWhile (\<lambda>k. 2 ^ k \<le> n) [1..<Suc n])"

text \<open>Python list indexing: a negative index counts from the end.\<close>

definition py_get :: "'a list \<Rightarrow> int \<Rightarrow> 'a res" where
  "py_get xs pos =
     (if pos < - int (length xs) \<or> int (length xs) \<le> pos then Inl IndexError
      else Inr (xs ! nat (pos mod int (length xs))))"

definition dict_get :: "('k, 'v) dict \<Rightarrow> 'k \<Rightarrow> 'v res" where
  "dict_get d key = (if key \<in> fst ` set d then Inr (the (map_of d key)) else Inl KeyError)"

text \<open>\<^verbatim>\<open>list.index\<close>: the first position of a value.\<close>

fun py_index :: "'a list \<Rightarrow> 'a \<Rightarrow> nat res" where
  "py_index [] x = Inl ValueError"
| "py_index (y # ys) x = (if y = x then Inr 0 else bindE (py_index ys x) (\<lambda>i. Inr (Suc i)))"

text \<open>\<^verbatim>\<open>np.argmax\<close>: the first position of the largest element.\<close>

fun argmax_from :: "nat \<Rightarrow> nat \<Rightarrow> 'a::linorder \<Rightarrow> 'a list \<Rightarrow> nat" where
  "argmax_from i best v [] = best"
| "argmax_from i best v (x # xs) =
     (if v < x then argmax_from (Suc i) i x xs else argmax_from (Suc i) best v xs)"

definition np_argmax :: "'a::linorder list \<Rightarrow> nat" where
  "np_argmax xs = (case xs of [] \<Rightarrow> 0 | x # xs' \<Rightarrow> argmax_from 1 0 x xs')"

text \<open>\<^verbatim>\<open>itertools.permutations\<close> and \<^verbatim>\<open>itertools.combinations\<close> of a list, in their
  lexicographic order of positions.\<close>

fun selections :: "'a list \<Rightarrow> ('a \<times> 'a list) list" where
  "selections [] = []"
| "selections (x # xs) = (x, xs) # map (\<lambda>(y, ys). (y, x # ys)) (selections xs)"

fun perms_n :: "nat \<Rightarrow> 'a list \<Rightarrow> 'a list list" where
  "perms_n 0 xs = [[]]"
| "perms_n (Suc n) xs =
     concat (map (\<lambda>(y, ys). map (\<lambda>p. y # p) (perms_n n ys)) (selections xs))"

definition py_permutations :: "'a list \<Rightarrow> 'a list list" where
  "py_permutations xs = perms_n (length xs) xs"

fun py_combinations :: "'a list \<Rightarrow> nat \<Rightarrow> 'a list list" where
  "py_combinations xs 0 = [[]]"
| "py_combinations [] (Suc k) = []"
| "py_combinations (x # xs) (Suc k) =
     map (\<lambda>c. x # c) (py_combinations xs k) @ py_combinations xs (Suc k)"

text \<open>All sequences of length \<open>n\<close> over a list, in the order of nested \<^verbatim>\<open>for\<close> loops.\<close>

fun tuples :: "'a list \<Rightarrow> nat \<Rightarrow> 'a list list" where
  "tuples xs 0 = [[]]"
| "tuples xs (Suc n) = concat (map (\<lambda>x. map (\<lambda>t. x # t) (tuples xs n)) xs)"

text \<open>
  The value of a 64-bit signed integer after wrap-around: \<^verbatim>\<open>np.prod\<close> of Python integers computes in
  \<^verbatim>\<open>int64\<close>.
\<close>

definition wrap64 :: "int \<Rightarrow> int" where
  "wrap64 x = (x + 2 ^ 63) mod 2 ^ 64 - 2 ^ 63"

definition np_prod :: "int list \<Rightarrow> int" where
  "np_prod xs = wrap64 (prod_list xs)"

text \<open>
  Python values as far as configurations and workload keys hold them; floats are exact rationals.
  \<^verbatim>\<open>json.loads(json.dumps(v))\<close> turns tuples into lists and refuses a \<^verbatim>\<open>range\<close> object.
\<close>

datatype pyval =
    PNone
  | PBool bool
  | PInt int
  | PFloat rat
  | PStr string
  | PList "pyval list"
  | PTuple "pyval list"
  | PRange int int

fun json_round :: "pyval \<Rightarrow> pyval res" where
  "json_round (PList xs) = bindE (mapE json_round xs) (\<lambda>ys. Inr (PList ys))"
| "json_round (PTuple xs) = bindE (mapE json_round xs) (\<lambda>ys. Inr (PList ys))"
| "json_round (PRange lo hi) = Inl TypeError"
| "json_round v = Inr v"

text \<open>The elements a \<^verbatim>\<open>for\<close> loop visits.\<close>

fun py_elems :: "pyval \<Rightarrow> pyval list res" where
  "py_elems (PList xs) = Inr xs"
| "py_elems (PTuple xs) = Inr xs"
| "py_elems (PRange lo hi) = Inr (map PInt [lo..hi - 1])"
| "py_elems (PStr s) = Inr (map (\<lambda>c. PStr [c]) s)"
| "py_elems v = Inl TypeError"

text \<open>
  Floats that may leave the rationals: division by a zero mean gives an infinity or NaN, and NaN
  compares false with everything.  Rounding is not modelled.
\<close>

datatype fl = Fin rat | PInf | NInf | NaN

fun fl_less :: "fl \<Rightarrow> fl \<Rightarrow> bool" where
  "fl_less (Fin a) (Fin b) = (a < b)"
| "fl_less NInf (Fin b) = True"
| "fl_less NInf PInf = True"
| "fl_less (Fin a) PInf = True"
| "fl_less a b = False"

fun fl_neg :: "fl \<Rightarrow> fl" where
  "fl_neg (Fin a) = Fin (- a)"
| "fl_neg PInf = NInf"
| "fl_neg NInf = PInf"
| "fl_neg NaN = NaN"

fun fl_add :: "fl \<Rightarrow> fl \<Rightarrow> fl" where
  "fl_add (Fin a) (Fin b) = Fin (a + b)"
| "fl_add PInf NInf = NaN"
| "fl_add NInf PInf = NaN"
| "fl_add NaN b = NaN"
| "fl_add a NaN = NaN"
| "fl_add PInf b = PInf"
| "fl_add a PInf = PInf"
| "fl_add NInf b = NInf"
| "fl_add a NInf = NInf"

fun fl_div :: "fl \<Rightarrow> fl \<Rightarrow> fl" where
  "fl_div (Fin a) (Fin b) =
     (if b \<noteq> 0 then Fin (a / b) else if a > 0 then PInf else if a < 0 then NInf else NaN)"
| "fl_div (Fin a) PInf = Fin 0"
| "fl_div (Fin a) NInf = Fin 0"
| "fl_div PInf (Fin b) = (if b \<ge> 0 then PInf else NInf)"
| "fl_div NInf (Fin b) = (if b \<ge> 0 then NInf else PInf)"
| "fl_div a b = NaN"

text \<open>\<^verbatim>\<open>np.max\<close> and \<^verbatim>\<open>np.sum\<close> of an array; NaN spreads.\<close>

fun np_max_from :: "fl \<Rightarrow> fl list \<Rightarrow> fl" where
  "np_max_from m [] = m"
| "np_max_from m (x # xs) = np_max_from (if m = NaN \<or> x = NaN then NaN else if fl_less m x then x else m) xs"

definition np_sum :: "fl list \<Rightarrow> fl" where
  "np_sum xs = foldl fl_add (Fin 0) xs"

definition np_mean :: "rat list \<Rightarrow> fl" where
  "np_mean xs = (if xs = [] then NaN else Fin (sum_list xs / of_nat (length xs)))"

text \<open>
  Randomness: a stream of raw draws and the position reached in it; \<^verbatim>\<open>np.random.randint(n)\<close> reduces a
  draw to the range, and every sequence of results arises from some stream.
\<close>

type_synonym rng = "nat \<Rightarrow> nat"

definition randint :: "rng \<Rightarrow> nat \<Rightarrow> int \<Rightarrow> int" where
  "randint rnd pos n = int (rnd pos) mod n"

text \<open>\<^verbatim>\<open>while x in seen: x = randint(n)\<close>, from the first draw on: the value and the position after it.
  The loop does not end when every draw has been seen.\<close>

partial_function (option) draw_fresh :: "rng \<Rightarrow> int \<Rightarrow> int list \<Rightarrow> nat \<Rightarrow> (int \<times> nat) option" where
  "draw_fresh rnd n seen pos =
     (if randint rnd pos n \<in> set seen then draw_fresh rnd n seen (Suc pos)
      else Some (randint rnd pos n, Suc pos))"

declare draw_fresh.simps [code]

text \<open>The decimal form \<^verbatim>\<open>%d\<close> of a natural number.\<close>

fun nat_str :: "nat \<Rightarrow> string" where
  "nat_str n = (if n < 10 then [char_of (48 + n)] else nat_str (n div 10) @ [char_of (48 + n mod 10)])"

declare nat_str.simps [simp del]

text \<open>\<^verbatim>\<open>str.split\<close> with a one-character separator.\<close>

fun py_split :: "char \<Rightarrow> string \<Rightarrow> string list" where
  "py_split sep [] = [[]]"
| "py_split sep (c # cs) =
     (if c = sep then [] # py_split sep cs
      else (case py_split sep cs of [] \<Rightarrow> [[c]] | w # ws \<Rightarrow> (c # w) # ws))"

text \<open>Mixed-radix digits, least significant first.\<close>

fun digits :: "nat list \<Rightarrow> nat \<Rightarrow> nat list" where
  "digits [] t = []"
| "digits (d # ds) t = t mod d # digits ds (t div d)"

fun undigits :: "nat list \<Rightarrow> nat list \<Rightarrow> nat" where
  "undigits (d # ds) (k # ks) = k + d * undigits ds ks"
| "undigits ds ks = 0"

subsection \<open>Their laws\<close>

lemma fl_less_irrefl [simp]: "\<not> fl_less a a"
  by (cases a) auto

lemma fl_less_trans: "fl_less a b \<Longrightarrow> fl_less b c \<Longrightarrow> fl_less a c"
  by (cases a; cases b; cases c) auto

lemma fl_less_total: "a \<noteq> NaN \<Longrightarrow> b \<noteq> NaN \<Longrightarrow> fl_less a b \<or> a = b \<or> fl_less b a"
  by (cases a; cases b) auto

lemma fl_not_less_trans:
  "a \<noteq> NaN \<Longrightarrow> b \<noteq> NaN \<Longrightarrow> \<not> fl_less a b \<Longrightarrow> fl_less a c \<Longrightarrow> fl_less b c"
  using fl_less_total [of a b] fl_less_trans [of b a c] by blast

lemma py_split_not_Nil [simp]: "py_split c s \<noteq> []"
  by (cases s) (auto split: list.splits)

lemma py_split_join: "concat (map (\<lambda>p. c # p) (py_split c s)) = c # s"
proof (induction s)
  case (Cons x s)
  obtain p ps where ps: "py_split c s = p # ps" by (cases "py_split c s") auto
  with Cons show ?case by auto
qed simp

lemma wrap64_id: "- (2 ^ 63) \<le> x \<Longrightarrow> x < 2 ^ 63 \<Longrightarrow> wrap64 x = x"
  by (simp add: wrap64_def)

lemma wrap64_bounds: "- (2 ^ 63) \<le> wrap64 x \<and> wrap64 x < 2 ^ 63"
proof -
  have "0 \<le> (x + 2 ^ 63) mod 2 ^ 64 \<and> (x + 2 ^ 63) mod 2 ^ 64 < (2 ^ 64 :: int)" by simp
  then show ?thesis unfolding wrap64_def by simp
qed

lemma randint_bounds: "0 < n \<Longrightarrow> 0 \<le> randint rnd pos n \<and> randint rnd pos n < n"
  by (simp add: randint_def)

lemma draw_fresh_returns:
  assumes "randint rnd (pos + k) n \<notin> set seen"
  shows "\<exists>x pos'. draw_fresh rnd n seen pos = Some (x, pos') \<and> x \<notin> set seen \<and> pos < pos' \<and>
                  pos' \<le> Suc (pos + k) \<and> x = randint rnd (pos' - 1) n"
  using assms
proof (induction k arbitrary: pos)
  case 0
  then show ?case by (subst draw_fresh.simps) simp
next
  case (Suc k)
  show ?case
  proof (cases "randint rnd pos n \<in> set seen")
    case True
    from Suc.prems have "randint rnd (Suc pos + k) n \<notin> set seen" by simp
    from Suc.IH [OF this] True show ?thesis by (subst draw_fresh.simps) auto
  next
    case False
    then show ?thesis by (subst draw_fresh.simps) simp
  qed
qed

lemma draw_fresh_result:
  assumes "draw_fresh rnd n seen pos = Some (x, pos')"
  shows "x \<notin> set seen \<and> (\<exists>k. x = randint rnd k n) \<and> pos < pos'"
proof -
  have "fst r \<notin> set seen \<and> (\<exists>k. fst r = randint rnd k n) \<and> pos < snd r"
    if "draw_fresh rnd n seen pos = Some r" for r
    by (rule draw_fresh.raw_induct [OF _ that, where P = "\<lambda>rnd n seen pos r.
          fst r \<notin> set seen \<and> (\<exists>k. fst r = randint rnd k n) \<and> pos < snd r"])
      (fastforce split: if_splits)
  from this [OF assms] show ?thesis by simp
qed

lemma length_digits [simp]: "length (digits ds t) = length ds"
  by (induction ds arbitrary: t) auto

lemma digits_bound: "\<forall>d \<in> set ds. 0 < d \<Longrightarrow> i < length ds \<Longrightarrow> digits ds t ! i < ds ! i"
proof (induction ds arbitrary: t i)
  case (Cons d ds)
  then show ?case by (cases i) auto
qed simp

lemma undigits_digits: "t < prod_list ds \<Longrightarrow> undigits ds (digits ds t) = t"
proof (induction ds arbitrary: t)
  case (Cons d ds)
  have "t div d < prod_list ds"
    using Cons.prems by (simp add: less_mult_imp_div_less mult.commute)
  then show ?case using Cons.IH by simp
qed simp

lemma digits_undigits: "list_all2 (<) ks ds \<Longrightarrow> digits ds (undigits ds ks) = ks"
  by (induction rule: list_all2_induct) auto

lemma undigits_bound: "list_all2 (<) ks ds \<Longrightarrow> undigits ds ks < prod_list ds"
proof (induction rule: list_all2_induct)
  case (Cons k ks d ds)
  have "k + d * undigits ds ks < d * Suc (undigits ds ks)" using Cons.hyps by simp
  also have "\<dots> \<le> d * prod_list ds" using Cons.IH by (intro mult_le_mono2) simp
  finally show ?case by simp
qed simp

lemma set_tuples: "set (tuples xs n) = {t. length t = n \<and> set t \<subseteq> set xs}"
proof (induction n)
  case (Suc n)
  show ?case
  proof (intro set_eqI iffI)
    fix t
    assume "t \<in> {t. length t = Suc n \<and> set t \<subseteq> set xs}"
    then obtain x t' where "t = x # t'" "length t' = n" "x \<in> set xs" "set t' \<subseteq> set xs"
      by (cases t) auto
    with Suc.IH show "t \<in> set (tuples xs (Suc n))" by auto
  qed (use Suc.IH in auto)
qed auto

lemma distinct_concat_Cons:
  "distinct xs \<Longrightarrow> distinct ts \<Longrightarrow> distinct (concat (map (\<lambda>x. map (\<lambda>t. x # t) ts) xs))"
  by (induction xs) (auto simp: distinct_map)

lemma distinct_tuples: "distinct xs \<Longrightarrow> distinct (tuples xs n)"
  by (induction n) (auto intro: distinct_concat_Cons)

lemma takeWhile_upt_iff:
  assumes "\<And>i j. i \<le> j \<Longrightarrow> p j \<Longrightarrow> p i" and "1 \<le> k"
  shows "k \<le> length (takeWhile p [1..<Suc n]) \<longleftrightarrow> k \<le> n \<and> p k"
proof
  assume le: "k \<le> length (takeWhile p [1..<Suc n])"
  have n: "length (takeWhile p [1..<Suc n]) \<le> n"
    using length_takeWhile_le [of p "[1..<Suc n]"] by (simp del: upt_Suc)
  have "takeWhile p [1..<Suc n] ! (k - 1) = [1..<Suc n] ! (k - 1)"
    using le assms(2) by (simp add: takeWhile_nth)
  also have "\<dots> = k"
    using le n assms(2) by (subst nth_upt) auto
  finally have "k \<in> set (takeWhile p [1..<Suc n])"
    using le assms(2) by (metis One_nat_def Suc_le_lessD diff_Suc_less leD linorder_not_le
        nth_mem order_less_le_trans zero_less_one)
  then show "k \<le> n \<and> p k"
    using le n by (auto dest: set_takeWhileD)
next
  assume k: "k \<le> n \<and> p k"
  show "k \<le> length (takeWhile p [1..<Suc n])"
  proof (rule ccontr)
    let ?t = "length (takeWhile p [1..<Suc n])"
    assume "\<not> k \<le> ?t"
    with k have lt: "?t < length [1..<Suc n]" and "Suc ?t \<le> k"
      by (auto simp del: upt_Suc)
    from nth_length_takeWhile [OF lt] have "\<not> p ([1..<Suc n] ! ?t)" .
    moreover have "[1..<Suc n] ! ?t = Suc ?t"
      using lt by (subst nth_upt) (auto simp del: upt_Suc)
    ultimately show False using assms(1) [of "Suc ?t" k] k \<open>Suc ?t \<le> k\<close>
      by (simp del: upt_Suc)
  qed
qed

lemma le_isqrt_iff: "k \<le> isqrt n \<longleftrightarrow> k * k \<le> n"
proof (cases "k = 0")
  case False
  have "k \<le> isqrt n \<longleftrightarrow> k \<le> n \<and> k * k \<le> n"
    unfolding isqrt_def
    by (rule takeWhile_upt_iff) (use False in \<open>auto intro: le_trans mult_le_mono\<close>)
  moreover have "k \<le> k * k" by simp
  ultimately show ?thesis using order_trans by blast
qed simp

lemma le_ilog2_iff: "0 < n \<Longrightarrow> k \<le> ilog2 n \<longleftrightarrow> 2 ^ k \<le> n"
proof (cases "k = 0")
  case False
  have "k \<le> ilog2 n \<longleftrightarrow> k \<le> n \<and> 2 ^ k \<le> n"
    unfolding ilog2_def
  proof (rule takeWhile_upt_iff)
    fix i j :: nat
    assume "i \<le> j" and "2 ^ j \<le> n"
    then show "2 ^ i \<le> n" by (meson le_trans one_le_numeral power_increasing)
  qed (use False in simp)
  moreover have "k < 2 ^ k" by (rule less_exp)
  ultimately show ?thesis by (meson le_trans less_imp_le)
qed simp

lemma set_py_range_1: "set (py_range lo hi 1) = {lo..<hi}"
proof -
  have "x \<in> (\<lambda>k. lo + int k) ` {0..<nat (hi - lo)}" if "lo \<le> x" "x < hi" for x
    using that by (intro image_eqI [where x = "nat (x - lo)"]) auto
  then show ?thesis by (auto simp: py_range_def)
qed

lemma set_py_range_2: "set (py_range 1 hi 2) = {i. 1 \<le> i \<and> i < hi \<and> odd i}"
proof -
  have "x \<in> (\<lambda>k. 1 + int k * 2) ` {0..<nat ((hi - 1 + 2 - 1) div 2)}"
    if "1 \<le> x" "x < hi" "odd x" for x
    using that by (intro image_eqI [where x = "nat ((x - 1) div 2)"]) auto
  then show ?thesis by (auto simp: py_range_def)
qed

lemma py_get_in: "0 \<le> i \<Longrightarrow> i < int (length xs) \<Longrightarrow> py_get xs i = Inr (xs ! nat i)"
  by (simp add: py_get_def)

lemma py_get_int [simp]: "k < length xs \<Longrightarrow> py_get xs (int k) = Inr (xs ! k)"
  by (simp add: py_get_def)

lemma dict_get_eq: "dict_get d key = (case map_of d key of None \<Rightarrow> Inl KeyError | Some x \<Rightarrow> Inr x)"
proof (cases "map_of d key")
  case None
  then have "key \<notin> fst ` set d" by (simp add: map_of_eq_None_iff)
  with None show ?thesis by (simp add: dict_get_def)
next
  case (Some x)
  then have "key \<in> fst ` set d" by (metis map_of_eq_None_iff option.distinct(1))
  with Some show ?thesis by (simp add: dict_get_def)
qed

lemma py_get_Nil [simp]: "py_get [] i = Inl IndexError"
  by (auto simp: py_get_def)

lemma py_index_nth: "py_index xs x = Inr i \<Longrightarrow> i < length xs \<and> xs ! i = x"
  by (induction xs arbitrary: i) (auto simp: bindE_eq_Inr split: if_splits)

lemma py_index_in: "x \<in> set xs \<Longrightarrow> \<exists>i. py_index xs x = Inr i"
  by (induction xs) auto

lemma py_index_distinct:
  "distinct xs \<Longrightarrow> i < length xs \<Longrightarrow> py_index xs (xs ! i) = Inr i"
proof (induction xs arbitrary: i)
  case (Cons y ys)
  then show ?case by (cases i) auto
qed simp

lemma selections_props:
  "(y, ys) \<in> set (selections xs) \<Longrightarrow> mset xs = add_mset y (mset ys) \<and> length xs = Suc (length ys)"
  by (induction xs arbitrary: y ys) fastforce+

lemma selections_mem: "y \<in> set xs \<Longrightarrow> \<exists>ys. (y, ys) \<in> set (selections xs)"
  by (induction xs) fastforce+

lemma perms_n_sound: "length xs = n \<Longrightarrow> p \<in> set (perms_n n xs) \<Longrightarrow> mset p = mset xs"
proof (induction n arbitrary: xs p)
  case (Suc n)
  from Suc.prems(2) obtain y ys q where
    sel: "(y, ys) \<in> set (selections xs)" and q: "q \<in> set (perms_n n ys)" and p: "p = y # q"
    by auto
  from selections_props [OF sel] Suc.prems(1) have "length ys = n" by simp
  with q have "mset q = mset ys" by (rule Suc.IH [rotated])
  with p selections_props [OF sel] show ?case by simp
qed simp

lemma selections_remove:
  "y \<in> set xs \<Longrightarrow> (y, remove1 y xs) \<in> set (selections xs)"
  by (induction xs) auto

lemma perms_n_complete: "length xs = n \<Longrightarrow> mset p = mset xs \<Longrightarrow> p \<in> set (perms_n n xs)"
proof (induction n arbitrary: xs p)
  case (Suc n)
  then obtain y q where p: "p = y # q" by (metis Suc_length_conv mset_eq_length)
  with Suc.prems(2) have y: "y \<in> set xs" by (metis list.set_intros(1) mset_eq_setD)
  have "q \<in> set (perms_n n (remove1 y xs))"
  proof (rule Suc.IH)
    show "length (remove1 y xs) = n" using Suc.prems(1) y by (simp add: length_remove1)
    show "mset q = mset (remove1 y xs)" using Suc.prems(2) p by (metis mset.simps(2) mset_remove1
        add_mset_remove_trivial)
  qed
  then show ?case using selections_remove [OF y] p by fastforce
qed simp

lemma set_py_permutations: "set (py_permutations xs) = {p. mset p = mset xs}"
  by (auto simp: py_permutations_def intro: perms_n_sound perms_n_complete)

lemma argmax_from_props:
  assumes "best < i" and "\<And>k. k < i \<Longrightarrow> ys ! k \<le> v" and "ys ! best = v"
    and "length ys = i"
  shows "let r = argmax_from i best v xs in
           r < i + length xs \<and> (\<forall>k < i + length xs. (ys @ xs) ! k \<le> (ys @ xs) ! r)"
  using assms
proof (induction xs arbitrary: i best v ys)
  case Nil
  then show ?case by simp
next
  case (Cons x xs)
  define b where "b = (if v < x then i else best)"
  define w where "w = (if v < x then x else v)"
  have "let r = argmax_from (Suc i) b w xs in
           r < Suc i + length xs \<and> (\<forall>k < Suc i + length xs. ((ys @ [x]) @ xs) ! k \<le> ((ys @ [x]) @ xs) ! r)"
  proof (rule Cons.IH)
    show "b < Suc i" using Cons.prems(1) by (simp add: b_def)
    show "(ys @ [x]) ! b = w"
      using Cons.prems by (auto simp: b_def w_def nth_append)
    show "(ys @ [x]) ! k \<le> w" if "k < Suc i" for k
      using that Cons.prems by (auto simp: w_def nth_append not_less less_Suc_eq
          intro: order_trans [OF _ less_imp_le])
    show "length (ys @ [x]) = Suc i" using Cons.prems by simp
  qed
  moreover have "argmax_from i best v (x # xs) = argmax_from (Suc i) b w xs"
    by (simp add: b_def w_def)
  ultimately show ?case by simp
qed

lemma np_argmax_props:
  assumes "xs \<noteq> []"
  shows "np_argmax xs < length xs" and "\<forall>y \<in> set xs. y \<le> xs ! np_argmax xs"
proof -
  obtain x xs' where xs: "xs = x # xs'" using assms by (cases xs) auto
  have "let r = argmax_from 1 0 x xs' in
           r < 1 + length xs' \<and> (\<forall>k < 1 + length xs'. ([x] @ xs') ! k \<le> ([x] @ xs') ! r)"
    by (rule argmax_from_props) auto
  then have r: "np_argmax xs < length xs" "\<forall>k < length xs. xs ! k \<le> xs ! np_argmax xs"
    using xs by (simp_all add: np_argmax_def Let_def)
  show "np_argmax xs < length xs" by (rule r(1))
  show "\<forall>y \<in> set xs. y \<le> xs ! np_argmax xs"
    using r(2) by (metis in_set_conv_nth)
qed

end
