(* ===== verification/Interfaces.thy ===== *)
theory Interfaces
  imports Prelude
begin

section \<open>Interfaces between the components\<close>

text \<open>
  What one component relies on in another, as locales; each is interpreted in the theory of the
  component that provides it.
\<close>

subsection \<open>A space addressed by an index\<close>

text \<open>
  The tuners of \<^verbatim>\<open>autotvm/tuner\<close> see a configuration space through \<^verbatim>\<open>len(space)\<close> and
  \<^verbatim>\<open>space.get(index)\<close> only.
\<close>

locale indexed_space =
  fixes space_ok :: "'s \<Rightarrow> bool" and space_size :: "'s \<Rightarrow> nat"
    and get :: "int \<Rightarrow> 's \<Rightarrow> ('s, 'c) outcome" and index_of :: "'c \<Rightarrow> int"
  assumes get_in: "space_ok s \<Longrightarrow> 0 \<le> i \<Longrightarrow> i < int (space_size s) \<Longrightarrow>
                     \<exists>c. fst (get i s) = Inr c \<and> index_of c = i"
    and get_out: "space_ok s \<Longrightarrow> \<not> (0 \<le> i \<and> i < int (space_size s)) \<Longrightarrow> fst (get i s) = Inl IndexError"
    and get_keeps: "space_ok s \<Longrightarrow>
                      space_ok (snd (get i s)) \<and> space_size (snd (get i s)) = space_size s"
begin

text \<open>Fetching a batch of indices, as every \<^verbatim>\<open>next_batch\<close> does.\<close>

lemma get_batch:
  assumes "space_ok s" and "list_all (\<lambda>i. 0 \<le> i \<and> i < int (space_size s)) idxs"
  shows "\<exists>cs s'. mapO get idxs s = (Inr cs, s') \<and> map index_of cs = idxs \<and>
                 space_ok s' \<and> space_size s' = space_size s"
  using assms
proof (induction idxs arbitrary: s)
  case Nil
  then show ?case by simp
next
  case (Cons i idxs)
  obtain c s1 where g: "get i s = (Inr c, s1)" "index_of c = i"
    using get_in [of s i] Cons.prems by (cases "get i s") auto
  have k: "space_ok s1" "space_size s1 = space_size s"
    using get_keeps [OF Cons.prems(1), of i] g(1) by simp_all
  have "list_all (\<lambda>i. 0 \<le> i \<and> i < int (space_size s1)) idxs" using Cons.prems(2) k(2) by simp
  from Cons.IH [OF k(1) this] obtain cs s' where
    "mapO get idxs s1 = (Inr cs, s')" "map index_of cs = idxs" "space_ok s'" "space_size s' = space_size s1"
    by blast
  with g k show ?case by auto
qed

lemma get_batch_out:
  assumes "space_ok s" and "list_all (\<lambda>i. 0 \<le> i \<and> i < int (space_size s)) idxs"
    and "\<not> (0 \<le> i \<and> i < int (space_size s))"
  shows "fst (mapO get (idxs @ i # rest) s) = Inl IndexError"
  using assms
proof (induction idxs arbitrary: s)
  case Nil
  have "fst (get i s) = Inl IndexError" using Nil.prems by (intro get_out)
  then obtain s1 where "get i s = (Inl IndexError, s1)" by (cases "get i s") auto
  then show ?case by simp
next
  case (Cons j idxs)
  obtain c s1 where g: "get j s = (Inr c, s1)"
    using get_in [of s j] Cons.prems by (cases "get j s") auto
  have k: "space_ok s1" "space_size s1 = space_size s"
    using get_keeps [OF Cons.prems(1), of j] g by simp_all
  have "fst (mapO get (idxs @ i # rest) s1) = Inl IndexError"
    using Cons.prems k by (intro Cons.IH) simp_all
  then obtain s2 where "mapO get (idxs @ i # rest) s1 = (Inl IndexError, s2)"
    by (cases "mapO get (idxs @ i # rest) s1") auto
  with g show ?case by simp
qed

end

subsection \<open>A tuner\<close>

text \<open>
  What the loop of \<^verbatim>\<open>Tuner.tune\<close> needs of the methods that subclasses override, for a tuner that has
  handed out the configurations \<open>h\<close> so far: as long as \<^verbatim>\<open>has_next\<close> holds, a positive batch size
  yields at least one and at most that many configurations, and neither \<^verbatim>\<open>next_batch\<close> nor \<^verbatim>\<open>update\<close>
  raises.
\<close>

locale tuner_methods =
  fixes served :: "'c list \<Rightarrow> 't \<Rightarrow> bool" and has_next :: "'t \<Rightarrow> bool"
    and next_batch :: "nat \<Rightarrow> 't \<Rightarrow> ('t, 'c list) outcome"
    and update :: "'c list \<Rightarrow> 'r list \<Rightarrow> 't \<Rightarrow> ('t, unit) outcome"
  assumes next_batch_progress:
      "served h t \<Longrightarrow> has_next t \<Longrightarrow> 0 < n \<Longrightarrow>
         \<exists>cs t'. next_batch n t = (Inr cs, t') \<and> served (h @ cs) t' \<and> cs \<noteq> [] \<and> length cs \<le> n"
    and update_ok: "served h t \<Longrightarrow> \<exists>t'. update cs rs t = (Inr (), t') \<and> served h t'"

subsection \<open>An optimizer of a cost model\<close>

text \<open>
  What the documentation of \<^verbatim>\<open>ModelOptimizer.find_maximums\<close> promises to the model based tuner: when it
  returns, the points are new and lie in the space of \<open>N\<close> points.  \<open>f\<close> is the score the model predicts.
\<close>

locale model_optimizer =
  fixes opt_ok :: "int \<Rightarrow> 'q \<Rightarrow> bool"
    and maximums :: "(int \<Rightarrow> rat) \<Rightarrow> pyval \<Rightarrow> int list \<Rightarrow> 'q \<Rightarrow> nat \<Rightarrow> ('q \<times> nat, int list) outcome option"
  assumes maximums_contract:
      "opt_ok N q \<Longrightarrow> list_all (\<lambda>x. 0 \<le> x) ex \<Longrightarrow> 0 < n \<Longrightarrow>
       maximums f (PInt (int n)) ex q pos = Some (r, (q', pos')) \<Longrightarrow>
         \<exists>pts. r = Inr pts \<and> distinct pts \<and> length pts \<le> n \<and> set pts \<inter> set ex = {} \<and>
               list_all (\<lambda>p. 0 \<le> p \<and> p < N) pts \<and> opt_ok N q'"
    and maximums_float: "maximums f (PFloat x) ex q pos = Some (r, (q', pos')) \<Longrightarrow> opt_ok N q \<Longrightarrow> isl r \<and> opt_ok N q'"

end
