(* ===== verification/Split_Space.thy ===== *)
theory Split_Space
  imports Prelude
begin

section \<open>Split knobs: factors of an axis and their enumeration\<close>

text \<open>
  The split part of \<^verbatim>\<open>src/python/tvm/autotvm/task/space.py\<close>: \<^verbatim>\<open>get_factors\<close>, \<^verbatim>\<open>get_pow2s\<close>,
  \<^verbatim>\<open>SplitSpace\<close> (its constructor with the four policies and the depth-first enumeration) and
  \<^verbatim>\<open>SplitEntity.apply\<close>.  A split entity is the list of tile sizes, whose first element is
  \<^verbatim>\<open>-1\<close> in generated entities.
\<close>

named_theorems split_simps \<open>definitions of the split space\<close>

subsection \<open>Candidate factors\<close>

definition get_factors :: "int \<Rightarrow> int list res" where
  "get_factors n =
     (let step = (if n mod 2 \<noteq> 0 then 2 else 1)
      in if n < 0 then Inl ValueError
         else let pairs = map (\<lambda>i. [i, n div i])
                            (filter (\<lambda>i. n mod i = 0) (py_range 1 (int (isqrt (nat n)) + 1) step))
              in if pairs = [] then Inl TypeError
                 else Inr (sort (remdups (concat pairs))))"

definition get_pow2s :: "int \<Rightarrow> int list res" where
  "get_pow2s n =
     (if n \<le> 0 then Inl ValueError else Inr (map (\<lambda>x. 2 ^ x) [0..<ilog2 (nat n) + 1]))"

subsection \<open>The space and its constructor\<close>

record split_kwargs =
  kw_max_factor :: "int option"
  kw_filter :: "(int list \<Rightarrow> bool) option"
  kw_num_outputs :: "int option"
  kw_candidate :: "int list list option"
  kw_no_tail :: "bool option"

record split_space =
  sp_policy :: string
  sp_product :: int
  sp_num_output :: int
  sp_entities :: "int list list"

definition kw_get :: "'a option \<Rightarrow> 'a \<Rightarrow> 'a" where
  "kw_get v d = (case v of None \<Rightarrow> d | Some x \<Rightarrow> x)"

text \<open>
  The leaf of the depth-first search: \<^verbatim>\<open>functools.reduce\<close> without an initial value raises on an
  empty stack, which happens when the split has one output only.
\<close>

definition split_leaf :: "int \<Rightarrow> bool \<Rightarrow> int list \<Rightarrow> int list list res" where
  "split_leaf product enforce_no_tail tmp_stack =
     (case tmp_stack of
        [] \<Rightarrow> Inl TypeError
      | x # xs \<Rightarrow>
          (let prod = foldl (*) x xs
           in if prod > product then Inr []
              else if prod = 0 then Inl ZeroDivisionError
              else if product mod prod = 0 \<or> (\<not> enforce_no_tail \<and> prod < product)
                   then Inr [(-1) # rev tmp_stack]
                   else Inr []))"

text \<open>
  \<^verbatim>\<open>_generate_space\<close>: \<open>k\<close> is the number of stack cells still to fill (\<^verbatim>\<open>num_output - 1 - now\<close>) and
  the list argument is the filled part \<^verbatim>\<open>tmp_stack[:now]\<close>; the cells above it are overwritten
  before they are read.
\<close>

primrec split_generate_space ::
    "int \<Rightarrow> int list \<Rightarrow> bool \<Rightarrow> nat \<Rightarrow> int list \<Rightarrow> int list list res" where
  "split_generate_space product factors enforce_no_tail 0 tmp_stack =
     split_leaf product enforce_no_tail tmp_stack"
| "split_generate_space product factors enforce_no_tail (Suc k) tmp_stack =
     bindE (mapE (\<lambda>factor. split_generate_space product factors enforce_no_tail k
                             (tmp_stack @ [factor])) factors)
       (\<lambda>rs. Inr (concat rs))"

text \<open>
  \<open>setiter\<close> is the order in which Python iterates over a set of integers; only the \<^verbatim>\<open>verbose\<close>
  policy depends on it.
\<close>

definition split_factors :: "(int list \<Rightarrow> int list) \<Rightarrow> int \<Rightarrow> string \<Rightarrow> int \<Rightarrow> int list res" where
  "split_factors setiter product policy max_factor =
     (if policy = ''verbose'' then
        bindE (get_factors product) (\<lambda>divisibles.
        bindE (get_pow2s product) (\<lambda>pow2s.
          Inr (filter (\<lambda>x. x \<le> max_factor) (setiter (remdups (divisibles @ pow2s))))))
      else if policy = ''factors'' then
        bindE (get_factors product) (\<lambda>fs. Inr (filter (\<lambda>x. x \<le> max_factor) fs))
      else if policy = ''power2'' then
        bindE (get_pow2s product) (\<lambda>fs. Inr (filter (\<lambda>x. x \<le> max_factor) fs))
      else Inl RuntimeError)"

definition mk_split_space ::
    "(int list \<Rightarrow> int list) \<Rightarrow> int \<Rightarrow> string \<Rightarrow> split_kwargs \<Rightarrow> split_space res" where
  "mk_split_space setiter axis_length policy kw =
     (let max_factor = kw_get (kw_max_factor kw) (2 ^ 31);
          fil = kw_get (kw_filter kw) (\<lambda>x. True);
          num_output = kw_get (kw_num_outputs kw) 0;
          mk = (\<lambda>ents. \<lparr>sp_policy = policy, sp_product = axis_length,
                        sp_num_output = num_output, sp_entities = filter fil ents\<rparr>)
      in assertE (num_output > 0)
           (if policy = ''candidate'' then
              (case kw_candidate kw of
                 None \<Rightarrow> Inl KeyError
               | Some sizes \<Rightarrow>
                   assertE (list_all (\<lambda>size. int (length size) = num_output) sizes)
                     (Inr (mk sizes)))
            else
              bindE (split_factors setiter axis_length policy max_factor) (\<lambda>factors.
              bindE (split_generate_space axis_length factors
                       (kw_get (kw_no_tail kw) (policy = ''factors''))
                       (nat (num_output - 1)) []) (\<lambda>ents.
                Inr (mk ents)))))"

definition split_get_num_output :: "split_kwargs \<Rightarrow> int res" where
  "split_get_num_output kw = (case kw_num_outputs kw of None \<Rightarrow> Inl KeyError | Some n \<Rightarrow> Inr n)"



subsection \<open>Factor lists\<close>

lemma factor_range_set:
  assumes "0 < n"
  shows "set (py_range 1 (int (isqrt (nat n)) + 1) (if n mod 2 \<noteq> 0 then 2 else 1)) =
           {i. 1 \<le> i \<and> i * i \<le> n \<and> (odd n \<longrightarrow> odd i)}"
proof -
  have sq: "i \<le> int (isqrt (nat n)) \<longleftrightarrow> i * i \<le> n" if "1 \<le> i" for i
  proof -
    have "i \<le> int (isqrt (nat n)) \<longleftrightarrow> nat i \<le> isqrt (nat n)"
      using that by linarith
    also have "\<dots> \<longleftrightarrow> i * i \<le> n"
      using that assms by (simp add: le_isqrt_iff nat_le_eq_zle flip: nat_mult_distrib)
    finally show ?thesis .
  qed
  show ?thesis
    by (cases "odd n") (auto simp: set_py_range_1 set_py_range_2 sq odd_iff_mod_2_eq_one)
qed

lemma cofactor_small:
  fixes n d :: int
  assumes "0 < n" "0 < d" "d dvd n" "\<not> d * d \<le> n"
  shows "(n div d) * (n div d) \<le> n"
proof -
  from assms(3) obtain e where e: "n = d * e" by blast
  with assms have "e < d" "0 < e" by (auto simp: not_le zero_less_mult_iff)
  then have "e * e \<le> d * e" by (simp add: mult_right_mono)
  with e assms(2) show ?thesis by simp
qed

lemma get_factors_props:
  assumes "0 < n"
  obtains fs where "get_factors n = Inr fs" "sorted fs" "distinct fs"
    "set fs = {d. 0 < d \<and> d dvd n}"
proof -
  define R where "R = py_range 1 (int (isqrt (nat n)) + 1) (if n mod 2 \<noteq> 0 then 2 else 1)"
  define ps where "ps = map (\<lambda>i. [i, n div i]) (filter (\<lambda>i. n mod i = 0) R)"
  have R: "set R = {i. 1 \<le> i \<and> i * i \<le> n \<and> (odd n \<longrightarrow> odd i)}"
    unfolding R_def by (rule factor_range_set [OF assms])
  have "1 \<in> set R" using assms R by simp
  then have ne: "ps \<noteq> []" by (auto simp: ps_def filter_empty_conv intro!: bexI [of _ 1])
  have eq: "get_factors n = Inr (sort (remdups (concat ps)))"
    using assms ne by (simp add: get_factors_def R_def ps_def Let_def)
  have mem: "set (concat ps) = (\<Union>i \<in> {i \<in> set R. i dvd n}. {i, n div i})"
    by (auto simp: ps_def dvd_eq_mod_eq_0)
  have odd: "odd n \<longrightarrow> odd d" if "d dvd n" for d using that dvd_trans by blast
  have cof: "0 < n div d \<and> n div d dvd n \<and> n div (n div d) = d" if "0 < d" "d dvd n" for d
  proof -
    from that(2) obtain e where e: "n = d * e" by blast
    with assms that(1) have "0 < e" by (simp add: zero_less_mult_iff)
    with e that(1) show ?thesis by simp
  qed
  have "d \<in> set (concat ps)" if d: "0 < d" "d dvd n" for d
  proof (cases "d * d \<le> n")
    case True
    with d R odd have "d \<in> set R" by simp
    with d show ?thesis unfolding mem by blast
  next
    case False
    have "n div d \<in> set R"
      using cofactor_small [OF assms d False] cof [OF d] odd [of "n div d"] R by simp
    with cof [OF d] show ?thesis unfolding mem by (metis (no_types, lifting) UN_iff insertI1
        insertI2 mem_Collect_eq)
  qed
  moreover have "0 < d \<and> d dvd n" if "d \<in> set (concat ps)" for d
  proof -
    from that obtain i where "i \<in> set R" "i dvd n" "d = i \<or> d = n div i" unfolding mem by blast
    with R cof [of i] show ?thesis by auto
  qed
  ultimately have "set (concat ps) = {d. 0 < d \<and> d dvd n}" by blast
  then show thesis using eq that by simp
qed

lemma get_pow2s_props:
  assumes "0 < n"
  obtains fs where "get_pow2s n = Inr fs" "sorted fs" "distinct fs"
    "set fs = {d. \<exists>k. d = 2 ^ k \<and> d \<le> n}"
proof -
  let ?fs = "map (\<lambda>x. (2::int) ^ x) [0..<ilog2 (nat n) + 1]"
  have iff: "(2::int) ^ k \<le> n \<longleftrightarrow> k \<le> ilog2 (nat n)" for k
    using assms by (simp add: le_ilog2_iff le_nat_iff)
  have "set ?fs = (\<lambda>k. 2 ^ k) ` {k. k \<le> ilog2 (nat n)}"
    by (simp add: lessThan_Suc_atMost atLeast0LessThan atMost_def del: upt_Suc)
  also have "\<dots> = {d. \<exists>k. d = 2 ^ k \<and> d \<le> n}" unfolding iff [symmetric] by blast
  finally have "set ?fs = {d. \<exists>k. d = 2 ^ k \<and> d \<le> n}" .
  moreover have "sorted ?fs" by (auto simp: sorted_iff_nth_mono power_increasing simp del: upt_Suc)
  moreover have "distinct ?fs" by (simp add: distinct_map inj_on_def del: upt_Suc)
  ultimately show thesis using that assms by (simp add: get_pow2s_def del: upt_Suc)
qed


subsection \<open>The enumeration\<close>

text \<open>The condition under which a full stack becomes an entity.\<close>

definition split_ok :: "int \<Rightarrow> bool \<Rightarrow> int list \<Rightarrow> bool" where
  "split_ok product enforce_no_tail s \<longleftrightarrow>
     prod_list s \<le> product \<and>
     (product mod prod_list s = 0 \<or> (\<not> enforce_no_tail \<and> prod_list s < product))"

lemma foldl_mult_int: "foldl (*) (x::int) xs = prod_list (x # xs)"
  by (induction xs arbitrary: x) (simp_all add: mult.assoc)

lemma prod_list_pos: "(\<And>x. x \<in> set xs \<Longrightarrow> 0 < x) \<Longrightarrow> 0 < prod_list (xs :: int list)"
  by (induction xs) simp_all

lemma prod_list_rev: "prod_list (rev xs) = prod_list (xs :: 'a::comm_monoid_mult list)"
  by (induction xs) (simp_all add: mult.commute)

lemma dvd_prod_list: "x \<in> set xs \<Longrightarrow> x dvd prod_list (xs :: int list)"
  by (induction xs) auto

lemma split_leaf_eq:
  assumes "tmp \<noteq> []" and "\<And>x. x \<in> set tmp \<Longrightarrow> 0 < x"
  shows "split_leaf product e tmp = Inr (if split_ok product e tmp then [(-1) # rev tmp] else [])"
proof -
  obtain x xs where tmp: "tmp = x # xs" using assms(1) by (cases tmp) auto
  have "0 < prod_list tmp" using assms(2) by (rule prod_list_pos)
  then show ?thesis
    unfolding tmp split_leaf_def split_ok_def list.case foldl_mult_int Let_def
    by (auto simp del: prod_list.Cons)
qed

lemma split_generate_space_eq:
  assumes "\<And>x. x \<in> set factors \<Longrightarrow> 0 < x" and "\<And>x. x \<in> set tmp \<Longrightarrow> 0 < x"
    and "tmp \<noteq> [] \<or> 0 < k"
  shows "split_generate_space product factors e k tmp =
           Inr (map (\<lambda>s. (-1) # rev (tmp @ s))
                  (filter (\<lambda>s. split_ok product e (tmp @ s)) (tuples factors k)))"
  using assms(2,3)
proof (induction k arbitrary: tmp)
  case 0
  then show ?case by (simp add: split_leaf_eq)
next
  case (Suc k)
  have "mapE (\<lambda>f. split_generate_space product factors e k (tmp @ [f])) factors =
          Inr (map (\<lambda>f. map (\<lambda>s. (-1) # rev ((tmp @ [f]) @ s))
                  (filter (\<lambda>s. split_ok product e ((tmp @ [f]) @ s)) (tuples factors k))) factors)"
    using Suc.prems(1) assms(1) by (intro mapE_map_Inr Suc.IH) auto
  then show ?case by (simp add: filter_concat map_concat filter_map comp_def)
qed

lemma split_entities_rev:
  assumes "\<And>s. P (rev s) \<longleftrightarrow> P s"
  shows "(\<lambda>s. (-1) # rev s) ` {s. P s} = {(-1) # s | s. P s}"
proof -
  have "\<exists>t. s = rev t \<and> P t" if "P s" for s using that assms by (intro exI [of _ "rev s"]) simp
  then show ?thesis by (auto simp: assms image_iff)
qed

lemma mk_split_space_generated:
  assumes "policy \<noteq> ''candidate''" and "kw_num_outputs kw = Some (int m)" and "2 \<le> m"
    and "split_factors it L policy (kw_get (kw_max_factor kw) (2 ^ 31)) = Inr fs"
    and "\<And>x. x \<in> set fs \<Longrightarrow> 0 < x" and "distinct fs"
    and "kw_get (kw_no_tail kw) (policy = ''factors'') = e"
    and Q: "\<And>s. set s \<subseteq> set fs \<and> split_ok L e s \<longleftrightarrow> Q s"
  shows "\<exists>sp. mk_split_space it L policy kw = Inr sp \<and> distinct (sp_entities sp) \<and>
           set (sp_entities sp) =
             {(-1) # s | s. length s = m - 1 \<and> Q s \<and>
                kw_get (kw_filter kw) (\<lambda>x. True) ((-1) # s)}"
proof -
  let ?fil = "kw_get (kw_filter kw) (\<lambda>x. True)"
  let ?ents = "map (\<lambda>s. (-1) # rev s) (filter (split_ok L e) (tuples fs (m - 1)))"
  have gen: "split_generate_space L fs e (m - 1) [] = Inr ?ents"
    using split_generate_space_eq [of fs "[]" "m - 1" L e] assms(3,5) by simp
  let ?sp = "\<lparr>sp_policy = policy, sp_product = L, sp_num_output = int m,
               sp_entities = filter ?fil ?ents\<rparr>"
  have "nat (int m - 1) = m - 1" by simp
  then have sp: "mk_split_space it L policy kw = Inr ?sp"
    using assms(1-4,7) gen by (simp add: mk_split_space_def Let_def kw_get_def [of "Some _"])
  have dist: "distinct (sp_entities ?sp)"
    using assms(6) by (simp add: distinct_map distinct_tuples inj_on_def)
  have "set ?ents = (\<lambda>s. (-1) # rev s) `
          {s. length s = m - 1 \<and> set s \<subseteq> set fs \<and> split_ok L e s}"
    by (auto simp: set_tuples)
  also have "\<dots> = {(-1) # s | s. length s = m - 1 \<and> set s \<subseteq> set fs \<and> split_ok L e s}"
    by (rule split_entities_rev) (simp add: split_ok_def prod_list_rev)
  also have "\<dots> = {(-1) # s | s. length s = m - 1 \<and> Q s}" using Q by blast
  finally have "set (sp_entities ?sp) =
             {(-1) # s | s. length s = m - 1 \<and> Q s \<and> ?fil ((-1) # s)}"
    by auto
  with sp dist show ?thesis by auto
qed




subsection \<open>Properties\<close>

text \<open>
  \<^verbatim>\<open>get_factors\<close> returns, for every positive integer, exactly its positive divisors, in
  increasing order and without repetition, although it only tries candidates up to the square root
  and skips the even ones when the number is odd.
\<close>

theorem get_factors_correct:
  assumes "0 < n"
  shows "\<exists>fs. get_factors n = Inr fs \<and> sorted fs \<and> distinct fs \<and> set fs = {d. 0 < d \<and> d dvd n}"
  by (rule get_factors_props [OF assms]) blast

theorem get_factors_correct_witness:
  "\<exists>fs. get_factors 12 = Inr fs \<and> sorted fs \<and> distinct fs \<and> set fs = {d. 0 < d \<and> d dvd 12}"
  using get_factors_correct [of 12] by simp

text \<open>
  [C13] With the \<^verbatim>\<open>factors\<close> policy and at least two outputs the split space of a positive axis length
  contains, once each, exactly the tilings \<open>[-1, s\<^sub>1, \<dots>]\<close> whose positive inner tiles are bounded by
  \<^verbatim>\<open>max_factor\<close>, whose product divides the axis length (no tail) and that the filter accepts.
\<close>

theorem split_space_factors_exact:
  assumes "0 < L" and "kw_num_outputs kw = Some (int m)" and "2 \<le> m" and "kw_no_tail kw = None"
  shows "\<exists>sp. mk_split_space it L ''factors'' kw = Inr sp \<and> distinct (sp_entities sp) \<and>
           set (sp_entities sp) =
             {(-1) # s | s. length s = m - 1 \<and>
                (\<forall>x \<in> set s. 0 < x \<and> x \<le> kw_get (kw_max_factor kw) (2 ^ 31)) \<and>
                prod_list s dvd L \<and> kw_get (kw_filter kw) (\<lambda>x. True) ((-1) # s)}"
proof -
  obtain fs where fs: "get_factors L = Inr fs" "distinct fs" "set fs = {d. 0 < d \<and> d dvd L}"
    by (rule get_factors_props [OF assms(1)])
  let ?mf = "kw_get (kw_max_factor kw) (2 ^ 31)"
  let ?fs = "filter (\<lambda>x. x \<le> ?mf) fs"
  have sf: "split_factors it L ''factors'' ?mf = Inr ?fs"
    using fs(1) by (simp add: split_factors_def)
  have in_fs: "set s \<subseteq> set ?fs \<and> split_ok L True s \<longleftrightarrow>
      (\<forall>x \<in> set s. 0 < x \<and> x \<le> ?mf) \<and> prod_list s dvd L" for s
  proof -
    have "x dvd L" if "x \<in> set s" "prod_list s dvd L" for x
      using that by (meson dvd_prod_list dvd_trans)
    moreover have "prod_list s \<le> L" if "prod_list s dvd L"
      using that assms(1) by (rule zdvd_imp_le)
    ultimately show ?thesis
      using fs(3) by (auto simp: split_ok_def dvd_eq_mod_eq_0)
  qed
  note sp = mk_split_space_generated [of "''factors''" kw m it L ?fs True, OF _ assms(2,3) sf _ _ _ in_fs]
  show ?thesis
    by (rule sp [simplified conj_assoc]) (use assms fs in \<open>auto simp: kw_get_def [of None]\<close>)
qed


theorem split_space_factors_exact_witness:
  "\<exists>sp. mk_split_space (\<lambda>xs. xs) 12 ''factors''
          \<lparr>kw_max_factor = None, kw_filter = None, kw_num_outputs = Some (int 3),
           kw_candidate = None, kw_no_tail = None\<rparr> = Inr sp \<and> [-1, 2, 3] \<in> set (sp_entities sp)"
  using split_space_factors_exact
      [of 12 "\<lparr>kw_max_factor = None, kw_filter = None, kw_num_outputs = Some (int 3),
           kw_candidate = None, kw_no_tail = None\<rparr>" 3 "\<lambda>xs. xs"]
  by (auto simp: kw_get_def)


text \<open>
  With the \<^verbatim>\<open>power2\<close> policy (tails allowed) the space contains, once each, exactly the tilings
  whose inner tiles are powers of two bounded by \<^verbatim>\<open>max_factor\<close> and whose product does not exceed the
  axis length; no power of two above the axis length is ever a tile.
\<close>

theorem split_space_power2_exact:
  assumes "0 < L" and "kw_num_outputs kw = Some (int m)" and "2 \<le> m" and "kw_no_tail kw = None"
  shows "\<exists>sp. mk_split_space it L ''power2'' kw = Inr sp \<and> distinct (sp_entities sp) \<and>
           set (sp_entities sp) =
             {(-1) # s | s. length s = m - 1 \<and>
                (\<forall>x \<in> set s. (\<exists>k. x = 2 ^ k) \<and> x \<le> kw_get (kw_max_factor kw) (2 ^ 31)) \<and>
                prod_list s \<le> L \<and> kw_get (kw_filter kw) (\<lambda>x. True) ((-1) # s)}"
proof -
  obtain fs where fs: "get_pow2s L = Inr fs" "distinct fs" "set fs = {d. \<exists>k. d = 2 ^ k \<and> d \<le> L}"
    by (rule get_pow2s_props [OF assms(1)])
  let ?mf = "kw_get (kw_max_factor kw) (2 ^ 31)"
  let ?fs = "filter (\<lambda>x. x \<le> ?mf) fs"
  have sf: "split_factors it L ''power2'' ?mf = Inr ?fs"
    using fs(1) by (simp add: split_factors_def)
  have in_fs: "set s \<subseteq> set ?fs \<and> split_ok L False s \<longleftrightarrow>
      (\<forall>x \<in> set s. (\<exists>k. x = 2 ^ k) \<and> x \<le> ?mf) \<and> prod_list s \<le> L" for s
  proof -
    have "x \<le> L" if "x \<in> set s" "prod_list s \<le> L" "\<forall>x \<in> set s. \<exists>k. x = 2 ^ k" for x
    proof -
      have "0 < prod_list s" using that(3) by (intro prod_list_pos) auto
      with dvd_prod_list [OF that(1)] have "x \<le> prod_list s" by (intro zdvd_imp_le)
      with that(2) show ?thesis by simp
    qed
    then show ?thesis using fs(3) by (auto simp: split_ok_def)
  qed
  note sp = mk_split_space_generated [of "''power2''" kw m it L ?fs False, OF _ assms(2,3) sf _ _ _ in_fs]
  show ?thesis
    by (rule sp [simplified conj_assoc]) (use assms fs in \<open>auto simp: kw_get_def [of None]\<close>)
qed

theorem split_space_power2_exact_witness:
  "\<exists>sp. mk_split_space (\<lambda>xs. xs) 12 ''power2''
          \<lparr>kw_max_factor = None, kw_filter = None, kw_num_outputs = Some (int 2),
           kw_candidate = None, kw_no_tail = None\<rparr> = Inr sp \<and>
        [-1, 8] \<in> set (sp_entities sp) \<and> [-1, 16] \<notin> set (sp_entities sp)"
proof -
  have "\<exists>k. (8::int) = 2 ^ k" by (rule exI [of _ 3]) simp
  then show ?thesis
    using split_space_power2_exact
      [of 12 "\<lparr>kw_max_factor = None, kw_filter = None, kw_num_outputs = Some (int 2),
           kw_candidate = None, kw_no_tail = None\<rparr>" 2 "\<lambda>xs. xs"]
    by (auto simp: kw_get_def)
qed

text \<open>
  The error paths of the split constructor: a missing or non-positive \<^verbatim>\<open>num_outputs\<close> fails the
  assertion whatever the policy, an unknown policy raises \<^verbatim>\<open>RuntimeError\<close>, and a single output
  raises \<^verbatim>\<open>TypeError\<close> under the \<^verbatim>\<open>factors\<close> policy (\<^verbatim>\<open>reduce\<close> of an empty stack) for every positive axis.
\<close>

theorem split_space_errors:
  "(kw_get (kw_num_outputs kw) 0 \<le> 0 \<longrightarrow> mk_split_space it L policy kw = Inl AssertionError) \<and>
   (kw_get (kw_num_outputs kw) 0 > 0 \<and>
      policy \<notin> {''candidate'', ''verbose'', ''factors'', ''power2''} \<longrightarrow>
      mk_split_space it L policy kw = Inl RuntimeError) \<and>
   (kw_num_outputs kw = Some 1 \<and> 0 < L \<longrightarrow>
      mk_split_space it L ''factors'' kw = Inl TypeError)"
proof (intro conjI)
  show "kw_get (kw_num_outputs kw) 0 \<le> 0 \<longrightarrow> mk_split_space it L policy kw = Inl AssertionError"
    by (simp add: mk_split_space_def Let_def)
  show "kw_get (kw_num_outputs kw) 0 > 0 \<and>
         policy \<notin> {''candidate'', ''verbose'', ''factors'', ''power2''} \<longrightarrow>
         mk_split_space it L policy kw = Inl RuntimeError"
    by (simp add: mk_split_space_def Let_def split_factors_def)
  show "kw_num_outputs kw = Some 1 \<and> 0 < L \<longrightarrow> mk_split_space it L ''factors'' kw = Inl TypeError"
  proof
    assume a: "kw_num_outputs kw = Some 1 \<and> 0 < L"
    then obtain fs where "get_factors L = Inr fs" by (metis get_factors_props)
    with a show "mk_split_space it L ''factors'' kw = Inl TypeError"
      by (simp add: mk_split_space_def Let_def split_factors_def kw_get_def [of "Some _"] split_leaf_def)
  qed
qed

theorem split_space_errors_witness:
  "mk_split_space (\<lambda>xs. xs) 8 ''factors''
     \<lparr>kw_max_factor = None, kw_filter = None, kw_num_outputs = Some 1,
      kw_candidate = None, kw_no_tail = None\<rparr> = Inl TypeError"
  using split_space_errors [of "\<lparr>kw_max_factor = None, kw_filter = None, kw_num_outputs = Some 1,
      kw_candidate = None, kw_no_tail = None\<rparr>" "\<lambda>xs. xs" 8 "''factors''"]
  by simp



end
