(* ===== verification/Reorder_Space.thy ===== *)
theory Reorder_Space
  imports Prelude "HOL-Library.Sublist"
begin

section \<open>Reorder knobs: permutations and interleavings of axes\<close>

text \<open>
  The reorder part of \<^verbatim>\<open>src/python/tvm/autotvm/task/space.py\<close>: \<^verbatim>\<open>ReorderSpace\<close> with its six
  policies, the chain merging search \<^verbatim>\<open>_merge_chain\<close>/\<^verbatim>\<open>_merge_dfs\<close>, and \<^verbatim>\<open>ReorderEntity.apply\<close>.
  An entity keeps the kind of Python sequence it holds, because a \<^verbatim>\<open>range\<close> object is not
  JSON serializable while tuples and lists are.
\<close>

datatype seq_kind = KRange | KTuple | KList

type_synonym reorder_entity = "seq_kind \<times> nat list"

record 'a reorder_kwargs =
  rk_interval :: "(nat \<times> nat) option"
  rk_candidate :: "'a list list option"
  rk_spatial :: "'a list list option"
  rk_reduce :: "'a list list option"

definition kw_need :: "'a option \<Rightarrow> 'a res" where
  "kw_need v = (case v of None \<Rightarrow> Inl KeyError | Some x \<Rightarrow> Inr x)"

text \<open>
  \<^verbatim>\<open>_merge_dfs\<close>: \<^verbatim>\<open>tmp_pt\<close> has one position per chain, so its length is the range of the loop.
\<close>

function merge_dfs :: "'a list list \<Rightarrow> nat list \<Rightarrow> 'a list \<Rightarrow> 'a list list" where
  "merge_dfs chs tmp_pt tmp_stack =
     (if sum_list tmp_pt = sum_list (map length chs) then [tmp_stack]
      else concat (map (\<lambda>i.
             if tmp_pt ! i < length (chs ! i) \<and>
                i = np_argmax (map (\<lambda>x. length (chs ! x) - tmp_pt ! x) [0..<length chs])
             then merge_dfs chs (tmp_pt[i := Suc (tmp_pt ! i)])
                    (tmp_stack @ [chs ! i ! (tmp_pt ! i)])
             else []) [0..<length tmp_pt]))"
  by pat_completeness auto
termination
proof (relation "measure (\<lambda>(chs, pt, st). \<Sum>i < length pt. length (chs ! i) - pt ! i)",
    goal_cases)
  case 1
  show ?case by simp
next
  case (2 chs pt st j)
  have "(\<Sum>i < length pt. length (chs ! i) - pt[j := Suc (pt ! j)] ! i)
          < (\<Sum>i < length pt. length (chs ! i) - pt ! i)"
    by (rule sum_strict_mono_ex1) (use 2 in \<open>auto simp: nth_list_update intro!: bexI [of _ j]\<close>)
  then show ?case by simp
qed

declare merge_dfs.simps [simp del]

definition merge_chain :: "'a list list \<Rightarrow> 'a list list" where
  "merge_chain chs = merge_dfs chs (replicate (length chs) 0) []"

definition reorder_positions :: "'a list \<Rightarrow> 'a list list \<Rightarrow> nat list list res" where
  "reorder_positions axes chs = mapE (\<lambda>ch. mapE (py_index axes) ch) chs"

definition mk_reorder_space ::
    "'a list \<Rightarrow> string \<Rightarrow> 'a reorder_kwargs \<Rightarrow> reorder_entity list res" where
  "mk_reorder_space axes policy kw =
     (if policy = ''identity'' then Inr [(KRange, [0..<length axes])]
      else if policy = ''all'' then
        Inr (map (\<lambda>x. (KTuple, x)) (py_permutations [0..<length axes]))
      else if policy = ''interval_all'' then
        bindE (kw_need (rk_interval kw)) (\<lambda>(begin, end).
          Inr (map (\<lambda>x. (KTuple, [0..<begin] @ x @ [end..<length axes]))
                 (py_permutations [begin..<end])))
      else if policy = ''candidate'' then
        bindE (kw_need (rk_candidate kw)) (\<lambda>candidate.
        bindE (reorder_positions axes candidate) (\<lambda>perms.
          Inr (map (\<lambda>p. (KList, p)) perms)))
      else if policy = ''interleave'' then
        bindE (kw_need (rk_spatial kw)) (\<lambda>sp0.
        bindE (kw_need (rk_reduce kw)) (\<lambda>re0.
        bindE (reorder_positions axes sp0) (\<lambda>spatial.
        bindE (reorder_positions axes re0) (\<lambda>reduce.
          let outer_merged = merge_chain (map butlast spatial);
              inner_merged = merge_chain (map (\<lambda>x. drop (length x - 1) x) spatial @ reduce)
          in Inr (concat (map (\<lambda>p. map (\<lambda>i. (KList, p @ i)) inner_merged) outer_merged))))))
      else if policy = ''interleave_cuda'' then
        bindE (kw_need (rk_spatial kw)) (\<lambda>sp0.
        bindE (kw_need (rk_reduce kw)) (\<lambda>re0.
        bindE (reorder_positions axes sp0) (\<lambda>spatial.
        bindE (reorder_positions axes re0) (\<lambda>reduce.
          let outer_merged = merge_chain (map butlast spatial);
              reduce_merged = merge_chain reduce
          in bindE (mapE (\<lambda>x. py_get x (-1)) spatial) (\<lambda>inner_merged.
               Inr (concat (map (\<lambda>p. map (\<lambda>r. (KList, p @ r @ inner_merged)) reduce_merged)
                              outer_merged)))))))
      else Inl RuntimeError)"

text \<open>
  \<^verbatim>\<open>ReorderEntity.apply\<close>; the schedule's \<^verbatim>\<open>reorder\<close> primitive is the parameter.
\<close>

definition reorder_apply ::
    "('s \<Rightarrow> 'ax list \<Rightarrow> 's) \<Rightarrow> reorder_entity \<Rightarrow> 's \<Rightarrow> 'ax list \<Rightarrow> ('s \<times> 'ax list) res" where
  "reorder_apply reorder e sch axes =
     bindE (if length axes = length (snd e) then mapE (\<lambda>i. py_get axes (int i)) (snd e)
            else mapE (\<lambda>i. py_get axes (int i)) (filter (\<lambda>i. i < length axes) (snd e)))
       (\<lambda>new_order. Inr (reorder sch new_order, new_order))"

subsection \<open>Merging chains\<close>

lemma concat_map_single:
  "r < n \<Longrightarrow> (\<And>i. i < n \<Longrightarrow> i \<noteq> r \<Longrightarrow> f i = []) \<Longrightarrow> concat (map f [0..<n]) = f r"
proof (induction n)
  case (Suc n)
  show ?case
  proof (cases "r = n")
    case True
    have "concat (map f [0..<n]) = []" using Suc.prems(2) True by auto
    then show ?thesis using True by simp
  next
    case False
    then show ?thesis using Suc by simp
  qed
qed simp

text \<open>The positions of the search stay within the chains.\<close>

definition pt_ok :: "'a list list \<Rightarrow> nat list \<Rightarrow> bool" where
  "pt_ok chs pt \<longleftrightarrow> length pt = length chs \<and> (\<forall>i < length chs. pt ! i \<le> length (chs ! i))"

lemma sum_list_eq_pointwise:
  assumes "length xs = length ys" and "\<And>i. i < length ys \<Longrightarrow> xs ! i \<le> (ys ! i :: nat)"
    and "sum_list xs = sum_list ys"
  shows "xs = ys"
  using assms
proof (induction xs ys rule: list_induct2)
  case (Cons x xs y ys)
  have xy: "x \<le> y" using Cons.prems(1) [of 0] by simp
  have le: "xs ! i \<le> ys ! i" if "i < length ys" for i using Cons.prems(1) [of "Suc i"] that by simp
  have "sum_list xs \<le> sum_list ys"
    using Cons.hyps le by (auto simp: sum_list_sum_nth intro!: sum_mono)
  with xy Cons.prems(2) have "x = y" "sum_list xs = sum_list ys" by auto
  with Cons.IH le show ?case by blast
qed simp

lemma merge_dfs_step:
  assumes ok: "pt_ok chs pt" and ne: "sum_list pt \<noteq> sum_list (map length chs)"
  shows "\<exists>r < length chs. pt ! r < length (chs ! r) \<and>
           merge_dfs chs pt st =
             merge_dfs chs (pt[r := Suc (pt ! r)]) (st @ [chs ! r ! (pt ! r)])"
proof -
  define rem where "rem = map (\<lambda>x. length (chs ! x) - pt ! x) [0..<length chs]"
  define r where "r = np_argmax rem"
  have "\<exists>i < length chs. pt ! i < length (chs ! i)"
  proof (rule ccontr)
    assume "\<not> ?thesis"
    with ok have "\<forall>i < length chs. pt ! i = length (chs ! i)"
      unfolding pt_ok_def by (meson le_antisym not_less)
    with ok have "pt = map length chs" by (intro nth_equalityI) (auto simp: pt_ok_def)
    with ne show False by simp
  qed
  then obtain i where i: "i < length chs" "pt ! i < length (chs ! i)" by blast
  have rem_ne: "rem \<noteq> []" using i(1) by (auto simp: rem_def)
  have r: "r < length chs" using np_argmax_props(1) [OF rem_ne] by (simp add: r_def rem_def)
  have "rem ! i \<in> set rem" using i(1) by (simp add: rem_def)
  then have "rem ! i \<le> rem ! r" using np_argmax_props(2) [OF rem_ne] by (simp add: r_def)
  with i r have lt: "pt ! r < length (chs ! r)" by (simp add: rem_def)
  have "merge_dfs chs pt st = concat (map (\<lambda>i.
             if pt ! i < length (chs ! i) \<and> i = r
             then merge_dfs chs (pt[i := Suc (pt ! i)]) (st @ [chs ! i ! (pt ! i)])
             else []) [0..<length pt])"
    using ne by (subst merge_dfs.simps) (simp add: r_def rem_def)
  also have "\<dots> = merge_dfs chs (pt[r := Suc (pt ! r)]) (st @ [chs ! r ! (pt ! r)])"
    by (subst concat_map_single [where r = r]) (use r lt ok in \<open>auto simp: pt_ok_def\<close>)
  finally show ?thesis using r lt by blast
qed

lemma pt_ok_step: "pt_ok chs pt \<Longrightarrow> pt ! r < length (chs ! r) \<Longrightarrow>
    pt_ok chs (pt[r := Suc (pt ! r)])"
  by (cases "r < length pt") (auto simp: pt_ok_def nth_list_update list_update_beyond)


lemma sum_replace_one:
  fixes f g :: "nat \<Rightarrow> 'b::comm_monoid_add"
  assumes "r < n" and "f r = c + g r" and "\<And>i. i < n \<Longrightarrow> i \<noteq> r \<Longrightarrow> f i = g i"
  shows "(\<Sum>i < n. f i) = c + (\<Sum>i < n. g i)"
proof -
  have "(\<Sum>i < n. f i) = f r + (\<Sum>i \<in> {..<n} - {r}. f i)" using assms(1) by (simp add: sum.remove)
  also have "(\<Sum>i \<in> {..<n} - {r}. f i) = (\<Sum>i \<in> {..<n} - {r}. g i)"
    using assms(3) by (intro sum.cong) auto
  also have "f r + \<dots> = c + (g r + (\<Sum>i \<in> {..<n} - {r}. g i))" by (simp add: assms(2) add.assoc)
  also have "\<dots> = c + (\<Sum>i < n. g i)" using assms(1) by (simp add: sum.remove)
  finally show ?thesis .
qed

lemma merge_dfs_result:
  assumes "pt_ok chs pt"
  shows "\<exists>m. merge_dfs chs pt st = [st @ m] \<and>
           mset m = (\<Sum>i < length chs. mset (drop (pt ! i) (chs ! i))) \<and>
           (\<forall>i < length chs. subseq (drop (pt ! i) (chs ! i)) m)"
  using assms
proof (induction "sum_list (map length chs) - sum_list pt" arbitrary: pt st rule: less_induct)
  case less
  show ?case
  proof (cases "sum_list pt = sum_list (map length chs)")
    case True
    have "pt = map length chs"
      using less.prems True by (intro sum_list_eq_pointwise) (auto simp: pt_ok_def)
    then show ?thesis by (subst merge_dfs.simps) simp
  next
    case False
    from merge_dfs_step [OF less.prems False, of st] obtain r where
      r: "r < length chs" "pt ! r < length (chs ! r)" and
      eq: "merge_dfs chs pt st = merge_dfs chs (pt[r := Suc (pt ! r)]) (st @ [chs ! r ! (pt ! r)])"
      by blast
    let ?pt = "pt[r := Suc (pt ! r)]" and ?x = "chs ! r ! (pt ! r)"
    have len: "length pt = length chs" using less.prems by (simp add: pt_ok_def)
    have "sum_list pt \<le> sum_list (map length chs)"
      using less.prems by (auto simp: pt_ok_def sum_list_sum_nth intro!: sum_mono)
    moreover have "sum_list ?pt = Suc (sum_list pt)"
      using r(1) len by (simp add: sum_list_update member_le_sum_list)
    ultimately have "sum_list (map length chs) - sum_list ?pt < sum_list (map length chs) - sum_list pt"
      using False by simp
    from less.hyps [OF this pt_ok_step [OF less.prems r(2)], of "st @ [?x]"] obtain m where
      m: "merge_dfs chs ?pt (st @ [?x]) = [(st @ [?x]) @ m]"
         "mset m = (\<Sum>i < length chs. mset (drop (?pt ! i) (chs ! i)))"
         "\<forall>i < length chs. subseq (drop (?pt ! i) (chs ! i)) m" by blast
    have dr: "drop (pt ! r) (chs ! r) = ?x # drop (?pt ! r) (chs ! r)"
      using r len by (simp add: Cons_nth_drop_Suc)
    have other: "?pt ! i = pt ! i" if "i \<noteq> r" for i using that by simp
    have "(\<Sum>i < length chs. mset (drop (pt ! i) (chs ! i))) = {#?x#} + mset m"
      unfolding m(2) by (rule sum_replace_one [where r = r]) (use r(1) dr other in auto)
    moreover have "subseq (drop (pt ! i) (chs ! i)) (?x # m)" if "i < length chs" for i
    proof (cases "i = r")
      case True
      then show ?thesis using m(3) that dr by simp
    next
      case False
      with m(3) that other [of i] have "subseq (drop (pt ! i) (chs ! i)) m" by metis
      then show ?thesis by (rule list_emb_Cons)
    qed
    ultimately show ?thesis using eq m(1) by (intro exI [of _ "?x # m"]) simp
  qed
qed

lemma merge_chain_result:
  "\<exists>m. merge_chain chs = [m] \<and> mset m = mset (concat chs) \<and> (\<forall>c \<in> set chs. subseq c m)"
proof -
  have "pt_ok chs (replicate (length chs) 0)" by (simp add: pt_ok_def)
  from merge_dfs_result [OF this, of "[]"] obtain m where
    m: "merge_chain chs = [m]" "mset m = (\<Sum>i < length chs. mset (drop (replicate (length chs) 0 ! i) (chs ! i)))"
    "\<forall>i < length chs. subseq (drop (replicate (length chs) 0 ! i) (chs ! i)) m"
    by (auto simp: merge_chain_def)
  have "mset m = (\<Sum>i < length chs. mset (chs ! i))" unfolding m(2) by (intro sum.cong) auto
  also have "\<dots> = sum_list (map mset chs)"
    by (simp add: sum_list_sum_nth atLeast0LessThan)
  also have "\<dots> = mset (concat chs)" by (simp add: mset_concat)
  finally show ?thesis using m(1,3) by (auto simp: in_set_conv_nth)
qed


subsection \<open>Applying a permutation\<close>

lemma mapE_py_get: "set p \<subseteq> {..<length xs} \<Longrightarrow> mapE (\<lambda>i. py_get xs (int i)) p = Inr (map ((!) xs) p)"
  by (rule mapE_map_Inr) auto

lemma reorder_apply_perm:
  assumes "mset (snd e) = mset [0..<length axes]"
  shows "reorder_apply ro e sch axes = Inr (ro sch (map ((!) axes) (snd e)), map ((!) axes) (snd e))
         \<and> mset (map ((!) axes) (snd e)) = mset axes"
proof -
  have len: "length (snd e) = length axes" using mset_eq_length [OF assms] by simp
  have set: "set (snd e) = {..<length axes}"
    using mset_eq_setD [OF assms] by (simp add: atLeast0LessThan)
  have "mset (map ((!) axes) (snd e)) = image_mset ((!) axes) (mset [0..<length axes])"
    unfolding mset_map assms ..
  also have "\<dots> = mset axes" by (metis map_nth mset_map)
  finally show ?thesis
    using len set by (simp add: reorder_apply_def mapE_py_get)
qed

lemma mset_upt_split:
  "b \<le> e \<Longrightarrow> e \<le> n \<Longrightarrow> mset [0..<n] = mset [0..<b] + mset [b..<e] + mset [e..<n]"
  using upt_add_eq_append [of 0 b "e - b"] upt_add_eq_append [of 0 e "n - e"]
  by (simp del: mset_upt flip: mset_append)

text \<open>The policies whose entities are permutations of all the axes.\<close>

lemma reorder_entities_perm:
  assumes "mk_reorder_space axes policy kw = Inr ents" and "e \<in> set ents"
    and "policy = ''identity'' \<or> policy = ''all'' \<or>
         policy = ''interval_all'' \<and> (\<exists>b en. rk_interval kw = Some (b, en) \<and> b \<le> en \<and> en \<le> length axes)"
  shows "mset (snd e) = mset [0..<length axes]"
proof -
  consider "policy = ''identity''" | "policy = ''all''"
    | b en where "policy = ''interval_all''" "rk_interval kw = Some (b, en)" "b \<le> en" "en \<le> length axes"
    using assms(3) by blast
  then show ?thesis
  proof cases
    case 1
    with assms(1,2) have "e = (KRange, [0..<length axes])" by (auto simp: mk_reorder_space_def)
    then show ?thesis by simp
  next
    case 2
    with assms(1,2) show ?thesis
      by (auto simp: mk_reorder_space_def set_py_permutations simp del: mset_upt)
  next
    case 3
    with assms(1,2) obtain x where "mset x = mset [b..<en]" "snd e = [0..<b] @ x @ [en..<length axes]"
      by (auto simp: mk_reorder_space_def kw_need_def set_py_permutations simp del: mset_upt)
    then show ?thesis using mset_upt_split [OF 3(3,4)] by (simp del: mset_upt add: ac_simps)
  qed
qed

subsection \<open>Properties\<close>

text \<open>
  Every entity of the \<^verbatim>\<open>identity\<close>, \<^verbatim>\<open>all\<close> and (for an interval inside the axes) \<^verbatim>\<open>interval_all\<close>
  policies applies without an index error to any list of as many axes, reorders the stage by
  exactly the returned list, and that list is a rearrangement of the given axes.
\<close>

theorem reorder_apply_rearranges:
  assumes "mk_reorder_space axes policy kw = Inr ents" and "e \<in> set ents"
    and "policy = ''identity'' \<or> policy = ''all'' \<or>
         policy = ''interval_all'' \<and> (\<exists>b en. rk_interval kw = Some (b, en) \<and> b \<le> en \<and> en \<le> length axes)"
    and "length axs = length axes"
  shows "\<exists>new. reorder_apply ro e sch axs = Inr (ro sch new, new) \<and> mset new = mset axs"
  using reorder_apply_perm [of e axs ro sch] reorder_entities_perm [OF assms(1-3)]
  unfolding assms(4) [symmetric] by blast

theorem reorder_apply_rearranges_witness:
  "\<exists>new. reorder_apply (\<lambda>s l. l) (KRange, [0, 1, 2]) [] ''abc'' = Inr (new, new) \<and> mset new = mset ''abc''"
  by (rule reorder_apply_rearranges [of "''xyz''" "''identity''"
        "\<lparr>rk_interval = None, rk_candidate = None, rk_spatial = None, rk_reduce = None\<rparr>"
        "[(KRange, [0, 1, 2])]"])
    (simp_all add: mk_reorder_space_def numeral_2_eq_2)

text \<open>
  The \<^verbatim>\<open>candidate\<close> policy is a round trip: for distinct axes, a candidate that lists some of
  them is stored as positions, and when it lists all of them, applying the entity to the axes
  gives back the candidate order.
\<close>

theorem reorder_candidate_roundtrip:
  assumes "distinct axes" and "mset can = mset axes" and "rk_candidate kw = Some [can]"
  shows "\<exists>e. mk_reorder_space axes ''candidate'' kw = Inr [e] \<and>
             reorder_apply ro e sch axes = Inr (ro sch can, can)"
proof -
  have "\<forall>x \<in> set can. \<exists>i. py_index axes x = Inr i"
    using assms(2) by (metis mset_eq_setD py_index_in)
  then obtain f where f: "\<forall>x \<in> set can. py_index axes x = Inr (f x)" by metis
  then have idx: "mapE (py_index axes) can = Inr (map f can)" by (simp add: mapE_map_Inr)
  have fx: "f x < length axes \<and> axes ! f x = x" if "x \<in> set can" for x
    using f that py_index_nth by metis
  have "length can = length axes" using assms(2) by (rule mset_eq_length)
  moreover have "mapE (\<lambda>i. py_get axes (int i)) (map f can) = Inr (map ((!) axes) (map f can))"
    by (rule mapE_py_get) (use fx in auto)
  moreover have "map ((!) axes) (map f can) = can" using fx by (simp add: map_idI)
  ultimately show ?thesis
    using idx assms(3)
    by (simp add: mk_reorder_space_def kw_need_def reorder_positions_def reorder_apply_def)
qed

theorem reorder_candidate_roundtrip_witness:
  "\<exists>e. mk_reorder_space ''xyz'' ''candidate''
          \<lparr>rk_interval = None, rk_candidate = Some [''zxy''], rk_spatial = None, rk_reduce = None\<rparr> = Inr [e] \<and>
        reorder_apply (\<lambda>s l. l) e [] ''xyz'' = Inr (''zxy'', ''zxy'')"
  by (rule reorder_candidate_roundtrip) simp_all

text \<open>
  \<^verbatim>\<open>_merge_chain\<close> always returns exactly one merged list, which contains every chain as a
  subsequence and nothing else.  The search visits only the position that \<^verbatim>\<open>np.argmax\<close> selects, so
  it does not enumerate the interleavings its documentation announces.
\<close>

theorem merge_chain_single:
  "\<exists>m. merge_chain chs = [m] \<and> mset m = mset (concat chs) \<and> list_all (\<lambda>c. subseq c m) chs"
  using merge_chain_result [of chs] by (simp add: list_all_iff)

text \<open>
  Hence the \<^verbatim>\<open>interleave\<close> policy yields a space of exactly one entity whenever its chains consist
  of axes of the space, and that entity uses every position of the chains exactly once.
\<close>

theorem reorder_interleave_single:
  assumes "rk_spatial kw = Some sp0" and "rk_reduce kw = Some re0"
    and "reorder_positions axes sp0 = Inr sps" and "reorder_positions axes re0 = Inr res"
  shows "\<exists>p. mk_reorder_space axes ''interleave'' kw = Inr [(KList, p)] \<and>
             mset p = mset (concat sps) + mset (concat res)"
proof -
  obtain m where m: "merge_chain (map butlast sps) = [m]" "mset m = mset (concat (map butlast sps))"
    using merge_chain_result by blast
  let ?inner = "map (\<lambda>x. drop (length x - 1) x) sps @ res"
  obtain i where i: "merge_chain ?inner = [i]" "mset i = mset (concat ?inner)"
    using merge_chain_result by blast
  have "mset (butlast x) + mset (drop (length x - 1) x) = mset x" for x :: "nat list"
    by (metis append_take_drop_id butlast_conv_take mset_append)
  then have split: "mset (concat (map butlast xs)) + mset (concat (map (\<lambda>x. drop (length x - 1) x) xs))
      = mset (concat xs)" for xs :: "nat list list"
  proof (induction xs)
    case (Cons x xs)
    have "mset (concat (map butlast (x # xs))) + mset (concat (map (\<lambda>x. drop (length x - 1) x) (x # xs)))
        = (mset (butlast x) + mset (drop (length x - 1) x)) +
          (mset (concat (map butlast xs)) + mset (concat (map (\<lambda>x. drop (length x - 1) x) xs)))"
      by (simp only: list.map concat.simps mset_append ac_simps)
    also have "\<dots> = mset (concat (x # xs))"
      unfolding Cons.IH [OF Cons.prems] Cons.prems by simp
    finally show ?case .
  qed simp
  have "mset (m @ i) = (mset (concat (map butlast sps)) +
      mset (concat (map (\<lambda>x. drop (length x - 1) x) sps))) + mset (concat res)"
    by (simp only: mset_append m(2) i(2) concat_append add.assoc)
  then have "mset (m @ i) = mset (concat sps) + mset (concat res)" unfolding split .
  then show ?thesis
    using assms m(1) i(1) by (simp add: mk_reorder_space_def kw_need_def)
qed

theorem reorder_interleave_single_witness:
  "\<exists>p. mk_reorder_space ''abcde'' ''interleave''
          \<lparr>rk_interval = None, rk_candidate = None, rk_spatial = Some [''ab'', ''cd''], rk_reduce = Some [''e'']\<rparr>
          = Inr [(KList, p)] \<and> mset p = {#4, 0, 1, 2, 3#}"
  using reorder_interleave_single [of "\<lparr>rk_interval = None, rk_candidate = None,
      rk_spatial = Some [''ab'', ''cd''], rk_reduce = Some [''e'']\<rparr>" "[''ab'', ''cd'']" "[''e'']"
      "''abcde''" "[[0, 1], [2, 3]]" "[[4]]"]
  by (simp add: reorder_positions_def)

end
