(* ===== verification/Annotate_Space.thy ===== *)
theory Annotate_Space
  imports Prelude
begin

section \<open>Annotation knobs: unrolling, vectorisation and thread binding\<close>

text \<open>
  The annotation part of \<^verbatim>\<open>src/python/tvm/autotvm/task/space.py\<close>: \<^verbatim>\<open>AnnotateSpace\<close> (thread binding,
  cache location, and the search over \<^verbatim>\<open>none\<close>/\<^verbatim>\<open>unroll\<close>/\<^verbatim>\<open>vec\<close> words) and \<^verbatim>\<open>AnnotateEntity.apply\<close>.
  The annotations of the cache location policy are axis positions, all the others are words.
\<close>

datatype ann = AnnStr string | AnnInt nat

subsection \<open>Strings\<close>

text \<open>\<^verbatim>\<open>str.replace\<close>.\<close>

function py_replace :: "string \<Rightarrow> string \<Rightarrow> string \<Rightarrow> string" where
  "py_replace old new cs =
     (case cs of
        [] \<Rightarrow> []
      | c # cs' \<Rightarrow>
          if old \<noteq> [] \<and> take (length old) cs = old
          then new @ py_replace old new (drop (length old) cs)
          else c # py_replace old new cs')"
  by pat_completeness auto
termination
  by (relation "measure (\<lambda>(old, new, cs). length cs)") (auto simp: length_greater_0_conv)

declare py_replace.simps [simp del]

subsection \<open>The space\<close>

primrec annotate_generate_space :: "string list \<Rightarrow> nat \<Rightarrow> string list \<Rightarrow> string list list" where
  "annotate_generate_space anns 0 tmp_stack =
     (if count_list tmp_stack ''vec'' = 0 \<or> count_list tmp_stack ''vec'' = 1 then [tmp_stack] else [])"
| "annotate_generate_space anns (Suc k) tmp_stack =
     concat (map (\<lambda>ann. annotate_generate_space anns k (tmp_stack @ [ann])) anns)"

definition bind_gpu_anns :: "nat \<Rightarrow> string list res" where
  "bind_gpu_anns num_axis =
     (if 6 \<le> num_axis then
        Inr (replicate (num_axis - 6) ''fuse'' @
             [''blockIdx.z'', ''blockIdx.y'', ''blockIdx.x'',
              ''threadIdx.z'', ''threadIdx.y'', ''threadIdx.x''])
      else if 4 \<le> num_axis then
        Inr (replicate (num_axis - 4) ''fuse'' @
             [''blockIdx.y'', ''blockIdx.x'', ''threadIdx.y'', ''threadIdx.x''])
      else if 2 \<le> num_axis then
        Inr (replicate (num_axis - 2) ''fuse'' @ [''blockIdx.x'', ''threadIdx.x''])
      else Inl RuntimeError)"

definition bind_gpu_virtual_anns :: "nat \<Rightarrow> string list res" where
  "bind_gpu_virtual_anns num_axis =
     (if 9 \<le> num_axis then
        Inr (replicate (num_axis - 9) ''fuse'' @
             [''blockIdx.z'', ''blockIdx.y'', ''blockIdx.x'', ''vthread'', ''vthread'', ''vthread'',
              ''threadIdx.z'', ''threadIdx.y'', ''threadIdx.x''])
      else if 6 \<le> num_axis then
        Inr (replicate (num_axis - 6) ''fuse'' @
             [''blockIdx.y'', ''blockIdx.x'', ''vthread'', ''vthread'', ''threadIdx.y'', ''threadIdx.x''])
      else if 3 \<le> num_axis then
        Inr (replicate (num_axis - 3) ''fuse'' @ [''blockIdx.x'', ''vthread'', ''threadIdx.x''])
      else Inl RuntimeError)"

definition mk_annotate_space :: "nat \<Rightarrow> string \<Rightarrow> nat option \<Rightarrow> ann list list res" where
  "mk_annotate_space num_axis policy num_anchor =
     (if policy = ''bind_gpu'' then
        bindE (bind_gpu_anns num_axis) (\<lambda>anns. Inr [map AnnStr anns])
      else if policy = ''bind_gpu_virtual'' then
        bindE (bind_gpu_virtual_anns num_axis) (\<lambda>anns. Inr [map AnnStr anns])
      else if policy = ''locate_cache'' then
        (case num_anchor of
           None \<Rightarrow> Inl KeyError
         | Some n \<Rightarrow> Inr (map (map AnnInt) (py_combinations [0..<num_axis] n)))
      else
        (let anns = py_split CHR ''_'' (py_replace ''try'' ''none'' policy)
         in if list_all (\<lambda>a. a \<in> {''none'', ''unroll'', ''vec''}) anns
            then Inr (map (map AnnStr) (annotate_generate_space anns num_axis []))
            else Inl RuntimeError))"

subsection \<open>Applying an annotation\<close>

text \<open>
  The schedule operations an annotation issues, in order; \<open>fuse\<close> is the schedule's primitive that
  makes one axis of two.  \<open>errors\<close> are the messages recorded with \<^verbatim>\<open>cfg.raise_error\<close>.
\<close>

datatype ('t, 'ax) sched_op =
    ComputeAt 't 'ax
  | Unroll 'ax
  | Vectorize 'ax
  | Bind 'ax string
  | Fuse 'ax 'ax

record ('t, 'ax) ann_state =
  an_ops :: "('t, 'ax) sched_op list"
  an_errors :: "string list"
  an_axes :: "'ax list"

record ann_args =
  aa_axis_lens :: "int list option"
  aa_max_unroll :: "int option"
  aa_vec_size :: "int list option"
  aa_has_cfg :: bool

definition ann_issue :: "('t, 'ax) sched_op \<Rightarrow> ('t, 'ax) ann_state \<Rightarrow> ('t, 'ax) ann_state" where
  "ann_issue x st = st\<lparr>an_ops := an_ops st @ [x]\<rparr>"

definition axis_len_at :: "ann_args \<Rightarrow> nat \<Rightarrow> int res" where
  "axis_len_at args i =
     (case aa_axis_lens args of None \<Rightarrow> Inl TypeError | Some lens \<Rightarrow> py_get lens (int i))"

definition cfg_raise :: "ann_args \<Rightarrow> string \<Rightarrow> ('t, 'ax) ann_state \<Rightarrow> ('t, 'ax) ann_state res" where
  "cfg_raise args msg st =
     (if aa_has_cfg args then Inr (st\<lparr>an_errors := an_errors st @ [msg]\<rparr>) else Inl AttributeError)"

definition thread_tags :: "string list" where
  "thread_tags = [''blockIdx.x'', ''blockIdx.y'', ''blockIdx.z'',
                  ''threadIdx.x'', ''threadIdx.y'', ''threadIdx.z'', ''vthread'']"

definition annotate_one ::
    "('ax \<Rightarrow> 'ax \<Rightarrow> 'ax) \<Rightarrow> ann_args \<Rightarrow> nat \<Rightarrow> ann \<Rightarrow> ('t, 'ax) ann_state \<Rightarrow> ('t, 'ax) ann_state res" where
  "annotate_one fuse args i a st =
     (case a of
        AnnInt n \<Rightarrow> Inl TypeError
      | AnnStr w \<Rightarrow>
          if w = ''none'' then Inr st
          else if w = ''unroll'' then
            bindE (case aa_max_unroll args of
                     None \<Rightarrow> Inr st
                   | Some mu \<Rightarrow>
                       if mu = 0 then Inr st
                       else bindE (axis_len_at args i) (\<lambda>l.
                              if l > mu then cfg_raise args ''Too large factor for unrolling'' st
                              else Inr st))
              (\<lambda>st'. bindE (py_get (an_axes st') (int i)) (\<lambda>ax. Inr (ann_issue (Unroll ax) st')))
          else if w = ''vec'' then
            bindE (case aa_vec_size args of
                     None \<Rightarrow> Inr st
                   | Some vs \<Rightarrow>
                       if vs = [] then Inr st
                       else bindE (axis_len_at args i) (\<lambda>l.
                              if l \<notin> set vs then cfg_raise args ''Wrong size of lanes in vectorization'' st
                              else Inr st))
              (\<lambda>st'. bindE (py_get (an_axes st') (int i)) (\<lambda>ax. Inr (ann_issue (Vectorize ax) st')))
          else if w \<in> set thread_tags then
            bindE (py_get (an_axes st) (int i)) (\<lambda>ax. Inr (ann_issue (Bind ax w) st))
          else if w = ''fuse'' then
            assertE (int i < int (length (an_axes st)) - 1)
              (let a0 = an_axes st ! i; a1 = an_axes st ! Suc i
               in Inr (ann_issue (Fuse a0 a1) (st\<lparr>an_axes := (an_axes st)[Suc i := fuse a0 a1]\<rparr>)))
          else Inl RuntimeError)"

fun annotate_loop ::
    "('ax \<Rightarrow> 'ax \<Rightarrow> 'ax) \<Rightarrow> ann_args \<Rightarrow> nat \<Rightarrow> ann list \<Rightarrow> ('t, 'ax) ann_state \<Rightarrow> ('t, 'ax) ann_state res" where
  "annotate_loop fuse args i [] st = Inr st"
| "annotate_loop fuse args i (a # anns) st =
     bindE (annotate_one fuse args i a st) (\<lambda>st'. annotate_loop fuse args (Suc i) anns st')"

fun annotate_attach ::
    "'t list \<Rightarrow> ann \<Rightarrow> ('t, 'ax) ann_state \<Rightarrow> ('t, 'ax) ann_state res" where
  "annotate_attach [] to st = Inr st"
| "annotate_attach (t # src) to st =
     (case to of
        AnnStr w \<Rightarrow> Inl TypeError
      | AnnInt n \<Rightarrow> bindE (py_get (an_axes st) (int n)) (\<lambda>ax.
                      annotate_attach src to (ann_issue (ComputeAt t ax) st)))"

definition annotate_apply ::
    "('ax \<Rightarrow> 'ax \<Rightarrow> 'ax) \<Rightarrow> ann_args \<Rightarrow> 't list list option \<Rightarrow> ann list \<Rightarrow> 'ax list
       \<Rightarrow> ('t, 'ax) ann_state res" where
  "annotate_apply fuse args srcs anns axes =
     (let st = \<lparr>an_ops = [], an_errors = [], an_axes = axes\<rparr>
      in case srcs of
           Some ss \<Rightarrow> foldE (\<lambda>st (src, to). annotate_attach src to st) st (zip ss anns)
         | None \<Rightarrow> annotate_loop fuse args 0 anns st)"


subsection \<open>The word search\<close>

lemma annotate_generate_space_eq:
  "annotate_generate_space anns k tmp =
     map (\<lambda>s. tmp @ s) (filter (\<lambda>s. count_list (tmp @ s) ''vec'' \<le> 1) (tuples anns k))"
proof (induction k arbitrary: tmp)
  case 0
  have "(n = 0 \<or> n = 1) \<longleftrightarrow> n \<le> 1" for n :: nat by auto
  then show ?case by simp
next
  case (Suc k)
  have "(if P then a + 1 else a) + b \<le> Suc 0 \<longleftrightarrow> (P \<longrightarrow> a = 0 \<and> b = 0) \<and> (\<not> P \<longrightarrow> a + b \<le> Suc 0)"
    for P and a b :: nat by auto
  moreover have "c + (if P then a + 1 else a) + b = (if P then (c + a) + 1 else c + a) + b"
    for P and a b c :: nat by simp
  ultimately show ?case using Suc by (simp add: filter_concat map_concat filter_map comp_def)
qed

subsection \<open>Thread binding\<close>

definition is_bind :: "('t, 'ax) sched_op \<Rightarrow> bool" where
  "is_bind x \<longleftrightarrow> (case x of Bind a w \<Rightarrow> True | _ \<Rightarrow> False)"

lemma is_bind_simps [simp]:
  "is_bind (Bind a w)" "\<not> is_bind (Fuse a b)" "\<not> is_bind (Unroll a)" "\<not> is_bind (Vectorize a)"
  by (simp_all add: is_bind_def)

lemma tags_not_words: "w \<in> set thread_tags \<Longrightarrow> w \<noteq> ''none'' \<and> w \<noteq> ''unroll'' \<and> w \<noteq> ''vec'' \<and> w \<noteq> ''fuse''"
  by (auto simp: thread_tags_def)

text \<open>A run of \<^verbatim>\<open>fuse\<close> words folds the axes from position \<open>i\<close> on into one.\<close>

lemma annotate_loop_fuse:
  assumes "i + m < length (an_axes st)"
  shows "\<exists>st'. annotate_loop fuse args i (replicate m (AnnStr ''fuse'') @ rest) st =
                 annotate_loop fuse args (i + m) rest st' \<and>
               an_errors st' = an_errors st \<and>
               filter is_bind (an_ops st') = filter is_bind (an_ops st) \<and>
               length (an_axes st') = length (an_axes st) \<and>
               drop (i + m) (an_axes st') =
                 foldl fuse (an_axes st ! i) (take m (drop (Suc i) (an_axes st))) #
                 drop (Suc (i + m)) (an_axes st)"
  using assms
proof (induction m arbitrary: i st)
  case 0
  then show ?case by (intro exI [of _ st]) (simp add: Cons_nth_drop_Suc)
next
  case (Suc m)
  let ?ax = "an_axes st"
  let ?st = "ann_issue (Fuse (?ax ! i) (?ax ! Suc i)) (st\<lparr>an_axes := ?ax[Suc i := fuse (?ax ! i) (?ax ! Suc i)]\<rparr>)"
  have one: "annotate_one fuse args i (AnnStr ''fuse'') st = Inr ?st"
    using Suc.prems by (simp add: annotate_one_def thread_tags_def Let_def)
  have "Suc i + m < length (an_axes ?st)" using Suc.prems by (simp add: ann_issue_def)
  from Suc.IH [OF this] obtain st' where st':
    "annotate_loop fuse args (Suc i) (replicate m (AnnStr ''fuse'') @ rest) ?st =
       annotate_loop fuse args (Suc i + m) rest st'"
    "an_errors st' = an_errors ?st" "filter is_bind (an_ops st') = filter is_bind (an_ops ?st)"
    "length (an_axes st') = length (an_axes ?st)"
    "drop (Suc i + m) (an_axes st') = foldl fuse (an_axes ?st ! Suc i) (take m (drop (Suc (Suc i)) (an_axes ?st))) #
       drop (Suc (Suc i + m)) (an_axes ?st)" by blast
  have "drop (Suc i) ?ax = ?ax ! Suc i # drop (Suc (Suc i)) ?ax"
    using Suc.prems by (simp add: Cons_nth_drop_Suc)
  then have tk: "take (Suc m) (drop (Suc i) ?ax) = ?ax ! Suc i # take m (drop (Suc (Suc i)) ?ax)" by simp
  have ax: "an_axes ?st = ?ax[Suc i := fuse (?ax ! i) (?ax ! Suc i)]" by (simp add: ann_issue_def)
  show ?case
  proof (intro exI [of _ st'] conjI)
    show "annotate_loop fuse args i (replicate (Suc m) (AnnStr ''fuse'') @ rest) st =
            annotate_loop fuse args (i + Suc m) rest st'"
      using one st'(1) by simp
    show "drop (i + Suc m) (an_axes st') =
            foldl fuse (?ax ! i) (take (Suc m) (drop (Suc i) ?ax)) # drop (Suc (i + Suc m)) ?ax"
      using st'(5) Suc.prems unfolding ax tk by simp
  qed (use st'(2-4) in \<open>simp_all add: ann_issue_def\<close>)
qed

text \<open>A run of thread tags binds the remaining axes one by one.\<close>

lemma annotate_loop_bind:
  assumes "set tags \<subseteq> set thread_tags" and "i + length tags \<le> length (an_axes st)"
  shows "annotate_loop fuse args i (map AnnStr tags) st =
           Inr (st\<lparr>an_ops := an_ops st @ map2 Bind (drop i (an_axes st)) tags\<rparr>)"
  using assms
proof (induction tags arbitrary: i st)
  case Nil
  then show ?case by simp
next
  case (Cons w tags)
  have one: "annotate_one fuse args i (AnnStr w) st = Inr (ann_issue (Bind (an_axes st ! i) w) st)"
    using Cons.prems tags_not_words [of w] by (simp add: annotate_one_def)
  have "drop i (an_axes st) = an_axes st ! i # drop (Suc i) (an_axes st)"
    using Cons.prems by (simp add: Cons_nth_drop_Suc)
  with Cons.IH [of "Suc i" "ann_issue (Bind (an_axes st ! i) w) st"] Cons.prems one
  show ?case by (simp add: ann_issue_def)
qed

lemma filter_is_bind_map2: "filter is_bind (map2 Bind xs tags) = map2 Bind xs tags"
  by (rule filter_True) auto

lemma annotate_apply_fuse_bind:
  assumes "set tags \<subseteq> set thread_tags" and "tags \<noteq> []" and "length axes = m + length tags"
  shows "\<exists>st. annotate_apply fuse args None (map AnnStr (replicate m ''fuse'' @ tags)) axes =
                Inr (st :: ('t, 'ax) ann_state) \<and>
              an_errors st = [] \<and>
              filter is_bind (an_ops st) =
                map2 Bind (foldl fuse (hd axes) (take m (tl axes)) # drop (Suc m) axes) tags"
proof -
  let ?st = "\<lparr>an_ops = [], an_errors = [], an_axes = axes\<rparr> :: ('t, 'ax) ann_state"
  have "0 < length tags" using assms(2) by simp
  with assms(3) have "0 + m < length (an_axes ?st)" by simp
  from annotate_loop_fuse [OF this, of fuse args "map AnnStr tags"] obtain st' where st':
    "annotate_loop fuse args 0 (replicate m (AnnStr ''fuse'') @ map AnnStr tags) ?st =
       annotate_loop fuse args m (map AnnStr tags) st'"
    "an_errors st' = []" "filter is_bind (an_ops st') = []" "length (an_axes st') = length axes"
    "drop m (an_axes st') = foldl fuse (axes ! 0) (take m (drop (Suc 0) axes)) # drop (Suc m) axes"
    by auto
  have "annotate_loop fuse args m (map AnnStr tags) st' =
          Inr (st'\<lparr>an_ops := an_ops st' @ map2 Bind (drop m (an_axes st')) tags\<rparr>)"
    using assms st'(4) by (intro annotate_loop_bind) auto
  moreover have "axes \<noteq> []" using assms(2,3) by auto
  then have "axes ! 0 = hd axes" "drop (Suc 0) axes = tl axes"
    by (simp_all add: hd_conv_nth drop_Suc)
  ultimately show ?thesis
    using st'
    by (intro exI [of _ "st'\<lparr>an_ops := an_ops st' @ map2 Bind (drop m (an_axes st')) tags\<rparr>"])
      (simp add: annotate_apply_def filter_is_bind_map2 del: zip_Cons zip_Cons1)
qed

subsection \<open>Properties\<close>

text \<open>
  A word policy (\<^verbatim>\<open>none\<close>, \<^verbatim>\<open>try_unroll\<close>, \<^verbatim>\<open>try_unroll_vec\<close>, ...) whose words are all known
  enumerates exactly the assignments of its words to the axes that vectorise at most one axis, in
  the order of the nested loops; a policy with an unknown word is refused.
\<close>

theorem annotate_words_exact:
  assumes "policy \<notin> {''bind_gpu'', ''bind_gpu_virtual'', ''locate_cache''}"
  defines "anns \<equiv> py_split CHR ''_'' (py_replace ''try'' ''none'' policy)"
  shows "mk_annotate_space n policy na =
           (if set anns \<subseteq> {''none'', ''unroll'', ''vec''}
            then Inr (map (map AnnStr) (filter (\<lambda>s. count_list s ''vec'' \<le> 1) (tuples anns n)))
            else Inl RuntimeError)"
proof -
  have "list_all (\<lambda>a. a \<in> {''none'', ''unroll'', ''vec''}) anns \<longleftrightarrow> set anns \<subseteq> {''none'', ''unroll'', ''vec''}"
    unfolding list_all_iff by blast
  then show ?thesis
    using assms(1) by (simp add: mk_annotate_space_def anns_def Let_def annotate_generate_space_eq)
qed

theorem annotate_words_exact_witness:
  "mk_annotate_space 2 ''try_vec'' None =
     Inr [[AnnStr ''none'', AnnStr ''none''], [AnnStr ''none'', AnnStr ''vec''],
          [AnnStr ''vec'', AnnStr ''none'']]"
  by (subst annotate_words_exact) (simp_all add: py_replace.simps numeral_2_eq_2)

text \<open>
  [C31] Thread binding of two or more axes: the \<^verbatim>\<open>bind_gpu\<close> space has one entity, applying it to
  that many axes raises nothing and records no error, the leading axes in excess are fused into one
  in order, every resulting axis is bound, and no thread tag is bound twice.
\<close>

theorem bind_gpu_binds_all:
  assumes "2 \<le> length axes"
  shows "\<exists>e st tags. mk_annotate_space (length axes) ''bind_gpu'' na = Inr [e] \<and>
           annotate_apply fuse args None e axes = Inr (st :: ('t, 'ax) ann_state) \<and> an_errors st = [] \<and>
           distinct tags \<and> length tags = (if 6 \<le> length axes then 6 else if 4 \<le> length axes then 4 else 2) \<and>
           filter is_bind (an_ops st) =
             map2 Bind (foldl fuse (hd axes) (take (length axes - length tags) (tl axes)) #
                        drop (Suc (length axes - length tags)) axes) tags"
proof -
  let ?n = "length axes"
  define tags where "tags = (if 6 \<le> ?n then
      [''blockIdx.z'', ''blockIdx.y'', ''blockIdx.x'', ''threadIdx.z'', ''threadIdx.y'', ''threadIdx.x'']
    else if 4 \<le> ?n then [''blockIdx.y'', ''blockIdx.x'', ''threadIdx.y'', ''threadIdx.x'']
    else [''blockIdx.x'', ''threadIdx.x''])"
  have tags: "set tags \<subseteq> set thread_tags" "tags \<noteq> []" "distinct tags" "length tags \<le> ?n"
    "length tags = (if 6 \<le> ?n then 6 else if 4 \<le> ?n then 4 else 2)"
    using assms by (simp_all add: tags_def thread_tags_def)
  have sp: "mk_annotate_space ?n ''bind_gpu'' na =
              Inr [map AnnStr (replicate (?n - length tags) ''fuse'' @ tags)]"
    using assms by (simp add: mk_annotate_space_def bind_gpu_anns_def tags_def eval_nat_numeral)
  have "?n = (?n - length tags) + length tags" using tags(4) by simp
  from annotate_apply_fuse_bind [OF tags(1,2) this, of fuse args] sp tags(3,5)
  show ?thesis by blast
qed

theorem bind_gpu_binds_all_witness:
  "\<exists>e st tags. mk_annotate_space (length [2, 3, 5 :: int]) ''bind_gpu'' None = Inr [e] \<and>
     annotate_apply (*) \<lparr>aa_axis_lens = None, aa_max_unroll = None, aa_vec_size = None, aa_has_cfg = False\<rparr>
       None e [2, 3, 5 :: int] = Inr (st :: (nat, int) ann_state) \<and> length tags = 2 \<and>
     filter is_bind (an_ops st) = map2 Bind [6, 5] tags"
proof -
  have "2 \<le> length [2, 3, 5 :: int]" by simp
  from bind_gpu_binds_all [OF this, where ?'t = nat and fuse = "(*)" and na = None and
      args = "\<lparr>aa_axis_lens = None, aa_max_unroll = None, aa_vec_size = None, aa_has_cfg = False\<rparr>"]
  obtain e and st :: "(nat, int) ann_state" and tags where w:
    "mk_annotate_space (length [2, 3, 5 :: int]) ''bind_gpu'' None = Inr [e]"
    "annotate_apply (*) \<lparr>aa_axis_lens = None, aa_max_unroll = None, aa_vec_size = None, aa_has_cfg = False\<rparr>
       None e [2, 3, 5 :: int] = Inr st"
    "length tags = 2"
    "filter is_bind (an_ops st) =
       map2 Bind (foldl (*) (hd [2, 3, 5]) (take (length [2, 3, 5 :: int] - length tags) (tl [2, 3, 5 :: int])) #
                  drop (Suc (length [2, 3, 5 :: int] - length tags)) [2, 3, 5]) tags"
    by auto
  then have "filter is_bind (an_ops st) = map2 Bind [6, 5] tags" by simp
  with w(1-3) show ?thesis by blast
qed

end
