(* ===== verification/Config_Space.thy ===== *)
theory Config_Space
  imports Interfaces Split_Space Reorder_Space Annotate_Space
begin

section \<open>Configuration spaces and their entities\<close>

text \<open>
  Virtual axes, \<^verbatim>\<open>OtherOptionSpace\<close> and the \<^verbatim>\<open>ConfigSpace\<close> of
  \<^verbatim>\<open>src/python/tvm/autotvm/task/space.py\<close>, which a template fills with knobs and a tuner indexes;
  the entities it returns are treated in the theories that follow.  Operations return the outcome together
  with the state they leave, because Python keeps the effects of a call that raises.
\<close>

named_theorems cs_simps \<open>definitions of the configuration space\<close>

subsection \<open>Axes\<close>

text \<open>
  Virtual axes are compared by identity, the first argument; the axes a knob returns name the
  knob's space by its identity and the position.
\<close>

datatype axis_ref =
    VAxis nat string int
  | SpaceAxis "nat option" nat

text \<open>What a template passes: an integer, an iteration variable with its name and the extent of its
  domain (\<^verbatim>\<open>None\<close> without a domain, \<open>Some None\<close> when it is not a constant), an axis made before, or
  anything else.\<close>

datatype axis_arg =
    AInt int
  | AIter string "int option option"
  | ARef axis_ref
  | AOther

definition virtual_axis :: "nat \<Rightarrow> nat \<Rightarrow> axis_arg \<Rightarrow> axis_ref res" where
  "virtual_axis ident name_ct var =
     (case var of
        AInt n \<Rightarrow> Inr (VAxis ident (''axis_'' @ nat_str name_ct) n)
      | AIter name d \<Rightarrow>
          (case d of
             None \<Rightarrow> Inr (VAxis ident name (-1))
           | Some None \<Rightarrow> Inl ValueError
           | Some (Some n) \<Rightarrow> Inr (VAxis ident name n))
      | ARef (VAxis _ _ n) \<Rightarrow> Inr (VAxis ident (''axis_'' @ nat_str name_ct) n)
      | ARef (SpaceAxis _ _) \<Rightarrow> Inl RuntimeError
      | AOther \<Rightarrow> Inl RuntimeError)"

definition axis_length :: "axis_ref \<Rightarrow> int res" where
  "axis_length a = (case a of VAxis _ _ n \<Rightarrow> Inr n | SpaceAxis _ _ \<Rightarrow> Inl AttributeError)"

subsection \<open>Knobs\<close>

text \<open>A chosen entity, with the Python value it holds.\<close>

datatype entity =
    ESplit pyval
  | EReorder pyval
  | EAnnotate pyval
  | EOther pyval

datatype transform_space =
    SplitSp split_space
  | ReorderSp nat "reorder_entity list"
  | AnnotateSp nat seq_kind "ann list list"
  | OtherSp "pyval list"

definition split_entity :: "int list \<Rightarrow> entity" where
  "split_entity tiles = ESplit (PList (map PInt tiles))"

definition reorder_value :: "reorder_entity \<Rightarrow> pyval" where
  "reorder_value e =
     (case e of
        (KRange, perm) \<Rightarrow> PRange 0 (int (length perm))
      | (KTuple, perm) \<Rightarrow> PTuple (map (\<lambda>i. PInt (int i)) perm)
      | (KList, perm) \<Rightarrow> PList (map (\<lambda>i. PInt (int i)) perm))"

definition ann_value :: "ann \<Rightarrow> pyval" where
  "ann_value a = (case a of AnnStr w \<Rightarrow> PStr w | AnnInt n \<Rightarrow> PInt (int n))"

definition annotate_value :: "seq_kind \<Rightarrow> ann list \<Rightarrow> pyval" where
  "annotate_value kind anns =
     (if kind = KTuple then PTuple (map ann_value anns) else PList (map ann_value anns))"

definition space_entities :: "transform_space \<Rightarrow> entity list" where
  "space_entities sp =
     (case sp of
        SplitSp s \<Rightarrow> map split_entity (sp_entities s)
      | ReorderSp n es \<Rightarrow> map (\<lambda>e. EReorder (reorder_value e)) es
      | AnnotateSp n kind es \<Rightarrow> map (\<lambda>e. EAnnotate (annotate_value kind e)) es
      | OtherSp vs \<Rightarrow> map EOther vs)"

definition space_len :: "transform_space \<Rightarrow> nat" where
  "space_len sp = length (space_entities sp)"

definition space_getitem :: "transform_space \<Rightarrow> int \<Rightarrow> entity res" where
  "space_getitem sp index = py_get (space_entities sp) index"

definition space_num_output :: "transform_space \<Rightarrow> int" where
  "space_num_output sp =
     (case sp of
        SplitSp s \<Rightarrow> sp_num_output s
      | ReorderSp n es \<Rightarrow> int n
      | AnnotateSp n kind es \<Rightarrow> int n
      | OtherSp vs \<Rightarrow> 0)"

text \<open>
  The class of a knob with the keyword arguments of its constructor.  The cache location policy
  stores the tuples of \<^verbatim>\<open>itertools\<close>, the other annotation policies store lists.
\<close>

datatype space_args =
    ArgSplit split_kwargs
  | ArgReorder "axis_ref reorder_kwargs"
  | ArgAnnotate "nat option"
  | ArgOther "pyval list"

definition mk_space ::
    "(int list \<Rightarrow> int list) \<Rightarrow> space_args \<Rightarrow> axis_ref list \<Rightarrow> string \<Rightarrow> transform_space res" where
  "mk_space setiter sargs axes policy =
     (case sargs of
        ArgSplit kw \<Rightarrow>
          bindE (py_get axes 0) (\<lambda>axis.
          bindE (axis_length axis) (\<lambda>n.
          bindE (mk_split_space setiter n policy kw) (\<lambda>s. Inr (SplitSp s))))
      | ArgReorder kw \<Rightarrow>
          bindE (mk_reorder_space axes policy kw) (\<lambda>es. Inr (ReorderSp (length axes) es))
      | ArgAnnotate num_anchor \<Rightarrow>
          bindE (mk_annotate_space (length axes) policy num_anchor) (\<lambda>es.
            Inr (AnnotateSp (length axes) (if policy = ''locate_cache'' then KTuple else KList) es))
      | ArgOther candidate \<Rightarrow> Inr (OtherSp candidate))"

definition get_num_output :: "space_args \<Rightarrow> axis_arg list \<Rightarrow> int res" where
  "get_num_output sargs axes =
     (case sargs of
        ArgSplit kw \<Rightarrow> split_get_num_output kw
      | ArgReorder kw \<Rightarrow> Inr (int (length axes))
      | ArgAnnotate num_anchor \<Rightarrow> Inr (int (length axes))
      | ArgOther candidate \<Rightarrow> Inr 0)"

subsection \<open>The space\<close>

text \<open>
  \<open>cs_shared\<close> lists the knobs whose current entity is the first entity of their own space (the same
  Python object, which \<^verbatim>\<open>fallback_split\<close> mutates); \<open>cs_name_ct\<close> is the counter
  \<^verbatim>\<open>VirtualAxis.name_ct\<close> and \<open>cs_objs\<close> supplies object identities.
\<close>

record config_space =
  cs_space_map :: "(string, transform_space) dict"
  cs_collect :: bool
  cs_length :: "int option"
  cs_entity_map :: "(string, entity) dict"
  cs_constraints :: "string list"
  cs_errors :: "string list"
  cs_code_hash :: "string option"
  cs_flop :: rat
  cs_cost :: "rat option"
  cs_is_fallback :: bool
  cs_shared :: "string list"
  cs_name_ct :: nat
  cs_objs :: nat

definition mk_config_space :: config_space where
  "mk_config_space =
     \<lparr>cs_space_map = [], cs_collect = True, cs_length = None, cs_entity_map = [], cs_constraints = [],
      cs_errors = [], cs_code_hash = None, cs_flop = 0, cs_cost = None, cs_is_fallback = False,
      cs_shared = [], cs_name_ct = 0, cs_objs = 0\<rparr>"

text \<open>The axes of a new knob: those that are not yet axes of the space become virtual axes.  The
  name counter advances for every \<^verbatim>\<open>VirtualAxis\<close> constructed, whatever its final name.\<close>

fun to_axes :: "nat \<Rightarrow> nat \<Rightarrow> axis_arg list \<Rightarrow> axis_ref list res \<times> nat \<times> nat" where
  "to_axes ct ident [] = (Inr [], ct, ident)"
| "to_axes ct ident (ARef a # xs) =
     (case to_axes ct ident xs of (r, s) \<Rightarrow> (bindE r (\<lambda>axs. Inr (a # axs)), s))"
| "to_axes ct ident (x # xs) =
     (case virtual_axis ident ct x of
        Inl e \<Rightarrow> (Inl e, Suc ct, Suc ident)
      | Inr a \<Rightarrow>
          (case to_axes (Suc ct) (Suc ident) xs of (r, s) \<Rightarrow> (bindE r (\<lambda>axs. Inr (a # axs)), s)))"

definition add_new_transform ::
    "(int list \<Rightarrow> int list) \<Rightarrow> space_args \<Rightarrow> string \<Rightarrow> axis_arg list \<Rightarrow> string \<Rightarrow> 'z config_space_scheme
       \<Rightarrow> ('z config_space_scheme, axis_ref list) outcome" where
  "add_new_transform setiter sargs name axes policy cs =
     (if cs_collect cs then
        (case to_axes (cs_name_ct cs) (cs_objs cs) axes of
           (r, ct, ident) \<Rightarrow>
             let cs1 = cs\<lparr>cs_name_ct := ct, cs_objs := Suc ident\<rparr>
             in case bindE r (\<lambda>axs. mk_space setiter sargs axs policy) of
                  Inl e \<Rightarrow> (Inl e, cs1)
                | Inr space \<Rightarrow>
                    let cs2 = cs1\<lparr>cs_space_map := AList.update name space (cs_space_map cs1)\<rparr>
                    in case space_getitem space 0 of
                         Inl e \<Rightarrow> (Inl e, cs2\<lparr>cs_shared := removeAll name (cs_shared cs2)\<rparr>)
                       | Inr ent \<Rightarrow>
                           (Inr (map (\<lambda>i. SpaceAxis (Some ident) i) [0..<nat (space_num_output space)]),
                            cs2\<lparr>cs_entity_map := AList.update name ent (cs_entity_map cs2),
                                cs_shared := List.insert name (cs_shared cs2)\<rparr>))
      else
        (bindE (get_num_output sargs axes) (\<lambda>n. Inr (map (\<lambda>i. SpaceAxis None i) [0..<nat n])), cs))"

definition define_split where
  "define_split setiter name axis policy kw cs =
     add_new_transform setiter (ArgSplit kw) name [axis] policy cs"

definition define_reorder where
  "define_reorder setiter name axes policy kw cs =
     add_new_transform setiter (ArgReorder kw) name axes policy cs"

definition define_annotate where
  "define_annotate setiter name axes policy num_anchor cs =
     add_new_transform setiter (ArgAnnotate num_anchor) name axes policy cs"

definition define_knob where
  "define_knob setiter name candidate cs =
     add_new_transform setiter (ArgOther candidate) name [] [] cs"

definition add_flop :: "rat \<Rightarrow> 'z config_space_scheme \<Rightarrow> 'z config_space_scheme" where
  "add_flop flop cs = cs\<lparr>cs_flop := cs_flop cs + flop\<rparr>"

definition raise_error :: "string \<Rightarrow> 'z config_space_scheme \<Rightarrow> 'z config_space_scheme" where
  "raise_error msg cs = cs\<lparr>cs_errors := cs_errors cs @ [msg]\<rparr>"

definition cs_valid :: "'z config_space_scheme \<Rightarrow> bool" where
  "cs_valid cs \<longleftrightarrow> cs_errors cs = []"

text \<open>
  \<^verbatim>\<open>__len__\<close> computes the product in 64 bits, keeps it, and Python refuses a negative length.
\<close>

definition cs_len :: "'z config_space_scheme \<Rightarrow> ('z config_space_scheme, int) outcome" where
  "cs_len cs =
     (let n = (case cs_length cs of
                 Some n \<Rightarrow> n
               | None \<Rightarrow> np_prod (map (\<lambda>(name, space). int (space_len space)) (cs_space_map cs)))
      in (if n < 0 then Inl ValueError else Inr n, cs\<lparr>cs_length := Some n\<rparr>))"

fun get_entities :: "(string, transform_space) dict \<Rightarrow> int \<Rightarrow> (string, entity) dict res" where
  "get_entities [] t = Inr []"
| "get_entities ((name, space) # sps) t =
     (if space_len space = 0 then Inl ZeroDivisionError
      else bindE (space_getitem space (t mod int (space_len space))) (\<lambda>ent.
           bindE (get_entities sps (t div int (space_len space))) (\<lambda>ents.
             Inr ((name, ent) # ents))))"

record config_entity = config_space +
  ce_index :: int

definition mk_config_entity ::
    "int \<Rightarrow> string option \<Rightarrow> (string, entity) dict \<Rightarrow> string list \<Rightarrow> config_entity" where
  "mk_config_entity index code_hash entity_map constraints =
     config_space.extend
       (mk_config_space\<lparr>cs_collect := False, cs_entity_map := entity_map,
          cs_constraints := constraints, cs_code_hash := code_hash\<rparr>)
       (config_entity.fields index)"

definition cs_get :: "int \<Rightarrow> 'z config_space_scheme \<Rightarrow> ('z config_space_scheme, config_entity) outcome" where
  "cs_get index cs =
     (case cs_len cs of
        (Inl e, cs') \<Rightarrow> (Inl e, cs')
      | (Inr n, cs') \<Rightarrow>
          if index < 0 \<or> index \<ge> n then (Inl IndexError, cs')
          else (bindE (get_entities (cs_space_map cs') index) (\<lambda>entities.
                  Inr (mk_config_entity index (cs_code_hash cs') entities (cs_constraints cs'))), cs'))"

definition cs_getitem :: "'z config_space_scheme \<Rightarrow> string \<Rightarrow> entity res" where
  "cs_getitem cs name = dict_get (cs_entity_map cs) name"

subsection \<open>Spaces a template builds\<close>

text \<open>The states of a space while a template runs: knobs are added, operations counted, errors noted.\<close>

inductive cs_built :: "(int list \<Rightarrow> int list) \<Rightarrow> config_space \<Rightarrow> bool" for setiter where
  empty: "cs_built setiter mk_config_space"
| knob: "cs_built setiter cs \<Longrightarrow>
           add_new_transform setiter sargs name axes policy cs = (Inr outs, cs') \<Longrightarrow>
           cs_built setiter cs'"
| flop: "cs_built setiter cs \<Longrightarrow> cs_built setiter (add_flop flop cs)"
| error: "cs_built setiter cs \<Longrightarrow> cs_built setiter (raise_error msg cs)"

definition cs_wf :: "config_space \<Rightarrow> bool" where
  "cs_wf cs \<longleftrightarrow>
     cs_collect cs \<and> cs_length cs = None \<and> distinct (map fst (cs_space_map cs)) \<and>
     map fst (cs_entity_map cs) = map fst (cs_space_map cs) \<and>
     list_all (\<lambda>(name, sp). 0 < space_len sp) (cs_space_map cs)"

lemma set_update_subset: "set (AList.update k v al) \<subseteq> insert (k, v) (set al)"
  by (induction al) auto

lemma space_getitem_0: "space_getitem sp 0 = Inr ent \<Longrightarrow> 0 < space_len sp \<and> ent = space_entities sp ! 0"
  by (cases "space_entities sp") (auto simp: space_getitem_def space_len_def py_get_def)

lemma add_new_transform_InrD:
  assumes "add_new_transform setiter sargs name axes policy cs = (Inr outs, cs')" and "cs_collect cs"
  shows "\<exists>axs space ent. mk_space setiter sargs axs policy = Inr space \<and> space_getitem space 0 = Inr ent \<and>
           cs_space_map cs' = AList.update name space (cs_space_map cs) \<and>
           cs_entity_map cs' = AList.update name ent (cs_entity_map cs) \<and>
           cs_collect cs' = cs_collect cs \<and> cs_length cs' = cs_length cs"
proof -
  obtain r ct ident where ax: "to_axes (cs_name_ct cs) (cs_objs cs) axes = (r, ct, ident)"
    by (metis prod_cases3)
  from assms ax show ?thesis
    by (auto simp: add_new_transform_def Let_def bindE_eq_Inr split: sum.splits) blast
qed

lemma cs_built_wf: "cs_built setiter cs \<Longrightarrow> cs_wf cs"
proof (induction rule: cs_built.induct)
  case empty
  then show ?case by (simp add: cs_wf_def mk_config_space_def)
next
  case (knob cs sargs name axes policy outs cs')
  have "cs_collect cs" using knob.IH by (simp add: cs_wf_def)
  from add_new_transform_InrD [OF knob.hyps(2) this] obtain space ent where
    new: "space_getitem space 0 = Inr ent" "cs_space_map cs' = AList.update name space (cs_space_map cs)"
      "cs_entity_map cs' = AList.update name ent (cs_entity_map cs)"
      "cs_collect cs' = cs_collect cs" "cs_length cs' = cs_length cs" by blast
  have "list_all (\<lambda>(name, sp). 0 < space_len sp) (AList.update name space (cs_space_map cs))"
    using knob.IH space_getitem_0 [OF new(1)] set_update_subset [of name space "cs_space_map cs"]
    by (auto simp: cs_wf_def list_all_iff)
  with knob.IH new(2-) show ?case by (simp add: cs_wf_def distinct_update update_keys)
qed (simp_all add: cs_wf_def add_flop_def raise_error_def)

subsection \<open>Enumeration\<close>

definition space_dims :: "'z config_space_scheme \<Rightarrow> nat list" where
  "space_dims cs = map (\<lambda>(name, sp). space_len sp) (cs_space_map cs)"

definition pick_entities :: "(string, transform_space) dict \<Rightarrow> nat list \<Rightarrow> (string, entity) dict" where
  "pick_entities sps ks = map2 (\<lambda>(name, sp) k. (name, space_entities sp ! k)) sps ks"

lemma get_entities_digits:
  "list_all (\<lambda>(name, sp). 0 < space_len sp) sps \<Longrightarrow>
     get_entities sps (int t) = Inr (pick_entities sps (digits (map (\<lambda>(name, sp). space_len sp) sps) t))"
proof (induction sps arbitrary: t)
  case Nil
  then show ?case by (simp add: pick_entities_def)
next
  case (Cons x sps)
  obtain name sp where x: "x = (name, sp)" by (cases x)
  have pos: "0 < space_len sp" using Cons.prems x by simp
  have "space_getitem sp (int t mod int (space_len sp)) = Inr (space_entities sp ! (t mod space_len sp))"
    using pos unfolding space_getitem_def zmod_int [symmetric]
    by (intro py_get_int) (simp add: space_len_def)
  moreover have "get_entities sps (int t div int (space_len sp)) =
      Inr (pick_entities sps (digits (map (\<lambda>(name, sp). space_len sp) sps) (t div space_len sp)))"
    unfolding zdiv_int [symmetric] using Cons by (intro Cons.IH) simp
  ultimately show ?case using pos x by (simp add: pick_entities_def)
qed

lemma prod_list_map_int: "prod_list (map int ns) = int (prod_list ns)"
  by (induction ns) auto

text \<open>A space ready for a tuner: its knobs are non-empty, its size fits in 64 bits, and a length kept
  from an earlier call is the present one.\<close>

definition cs_ready :: "config_space \<Rightarrow> bool" where
  "cs_ready cs \<longleftrightarrow>
     list_all (\<lambda>(name, sp). 0 < space_len sp) (cs_space_map cs) \<and>
     int (prod_list (space_dims cs)) < 2 ^ 63 \<and>
     cs_length cs \<in> {None, Some (int (prod_list (space_dims cs)))}"

lemma cs_wf_ready: "cs_wf cs \<Longrightarrow> int (prod_list (space_dims cs)) < 2 ^ 63 \<Longrightarrow> cs_ready cs"
  by (simp add: cs_wf_def cs_ready_def)

lemma cs_len_ready:
  assumes "cs_ready cs"
  shows "cs_len cs = (Inr (int (prod_list (space_dims cs))), cs\<lparr>cs_length := Some (int (prod_list (space_dims cs)))\<rparr>)"
proof -
  have "map (\<lambda>(name, sp). int (space_len sp)) (cs_space_map cs) = map int (space_dims cs)"
    by (auto simp: space_dims_def)
  then have "np_prod (map (\<lambda>(name, sp). int (space_len sp)) (cs_space_map cs)) = int (prod_list (space_dims cs))"
    using assms by (simp add: np_prod_def prod_list_map_int wrap64_id cs_ready_def)
  with assms show ?thesis by (auto simp: cs_len_def cs_ready_def Let_def)
qed

lemma digits_bij:
  assumes "\<forall>d \<in> set ds. 0 < d"
  shows "bij_betw (digits ds) {..<prod_list ds} {ks. list_all2 (<) ks ds}"
proof (rule bij_betw_byWitness [where f' = "undigits ds"])
  show "\<forall>t \<in> {..<prod_list ds}. undigits ds (digits ds t) = t" by (simp add: undigits_digits)
  show "\<forall>ks \<in> {ks. list_all2 (<) ks ds}. digits ds (undigits ds ks) = ks" by (simp add: digits_undigits)
  show "digits ds ` {..<prod_list ds} \<subseteq> {ks. list_all2 (<) ks ds}"
    using assms by (auto simp: list_all2_conv_all_nth digits_bound)
  show "undigits ds ` {ks. list_all2 (<) ks ds} \<subseteq> {..<prod_list ds}" by (auto simp: undigits_bound)
qed

lemma cs_get_digits:
  assumes "cs_ready cs"
  shows "cs_get i cs =
           (if 0 \<le> i \<and> i < int (prod_list (space_dims cs))
            then Inr (mk_config_entity i (cs_code_hash cs)
                        (pick_entities (cs_space_map cs) (digits (space_dims cs) (nat i))) (cs_constraints cs))
            else Inl IndexError, cs\<lparr>cs_length := Some (int (prod_list (space_dims cs)))\<rparr>)"
proof -
  have "get_entities (cs_space_map cs) (int (nat i)) =
          Inr (pick_entities (cs_space_map cs) (digits (space_dims cs) (nat i)))"
    unfolding space_dims_def using assms by (intro get_entities_digits) (simp add: cs_ready_def)
  then show ?thesis using assms by (auto simp: cs_get_def cs_len_ready)
qed

lemma ce_index_mk [simp]: "ce_index (mk_config_entity i h es c) = i"
  by (simp add: mk_config_entity_def mk_config_space_def config_space.defs config_entity.defs)

lemma ce_entity_map_mk [simp]: "cs_entity_map (mk_config_entity i h es c) = es"
  by (simp add: mk_config_entity_def mk_config_space_def config_space.defs config_entity.defs)

lemma ce_code_hash_mk [simp]: "cs_code_hash (mk_config_entity i h es c) = h"
  by (simp add: mk_config_entity_def mk_config_space_def config_space.defs config_entity.defs)

interpretation cs_index: indexed_space cs_ready "\<lambda>cs. prod_list (space_dims cs)" cs_get ce_index
proof unfold_locales
  fix s i
  assume "cs_ready s"
  then show "cs_ready (snd (cs_get i s)) \<and>
      prod_list (space_dims (snd (cs_get i s))) = prod_list (space_dims s)"
    by (simp add: cs_get_digits) (simp add: cs_ready_def space_dims_def)
qed (auto simp: cs_get_digits)

subsection \<open>Properties\<close>

text \<open>
  [C1] A space that a template built, of fewer than \<open>2\<^sup>6\<^sup>3\<close> points, has as many points as there are
  combinations of knob entities; \<^verbatim>\<open>get\<close> returns for every index in range the configuration with that
  index whose knobs are given by the mixed-radix digits of the index, these digits run through all
  the combinations of positions without repetition, and any other index raises \<^verbatim>\<open>IndexError\<close>.
\<close>

theorem config_space_get_exact:
  assumes "cs_built setiter cs" and "int (prod_list (space_dims cs)) < 2 ^ 63"
  shows "fst (cs_len cs) = Inr (int (prod_list (space_dims cs))) \<and>
         bij_betw (digits (space_dims cs)) {..<prod_list (space_dims cs)} {ks. list_all2 (<) ks (space_dims cs)} \<and>
         (\<forall>i. fst (cs_get i cs) =
            (if 0 \<le> i \<and> i < int (prod_list (space_dims cs))
             then Inr (mk_config_entity i (cs_code_hash cs)
                         (pick_entities (cs_space_map cs) (digits (space_dims cs) (nat i))) (cs_constraints cs))
             else Inl IndexError))"
proof -
  have wf: "cs_wf cs" by (rule cs_built_wf) (rule assms(1))
  have "\<forall>d \<in> set (space_dims cs). 0 < d" using wf by (auto simp: cs_wf_def space_dims_def list_all_iff)
  with cs_wf_ready [OF wf assms(2)] show ?thesis
    by (simp add: cs_len_ready cs_get_digits digits_bij)
qed

text \<open>The space of two knobs used in the concrete instances.\<close>

definition demo_space :: config_space where
  "demo_space = snd (define_knob id ''b'' [PInt 3, PInt 4, PInt 5]
                  (snd (define_knob id ''a'' [PInt 1, PInt 2] mk_config_space)))"

lemma demo_space_simps:
  "cs_space_map demo_space = [(''a'', OtherSp [PInt 1, PInt 2]), (''b'', OtherSp [PInt 3, PInt 4, PInt 5])]"
  "cs_length demo_space = None" "cs_collect demo_space" "cs_code_hash demo_space = None"
  "cs_constraints demo_space = []" "space_dims demo_space = [2, 3]"
  by (simp_all add: demo_space_def define_knob_def add_new_transform_def mk_config_space_def mk_space_def
      space_getitem_def space_entities_def py_get_def Let_def space_dims_def space_len_def)

lemma demo_space_built: "cs_built id demo_space"
proof -
  let ?s1 = "snd (define_knob id ''a'' [PInt 1, PInt 2] mk_config_space)"
  have "fst (define_knob id ''a'' [PInt 1, PInt 2] mk_config_space) = Inr []"
    by (simp add: define_knob_def add_new_transform_def mk_config_space_def mk_space_def
        space_getitem_def space_entities_def py_get_def Let_def space_num_output_def)
  then have "add_new_transform id (ArgOther [PInt 1, PInt 2]) ''a'' [] [] mk_config_space = (Inr [], ?s1)"
    by (metis define_knob_def prod.collapse)
  then have b1: "cs_built id ?s1" by (rule cs_built.knob [OF cs_built.empty])
  have "fst (define_knob id ''b'' [PInt 3, PInt 4, PInt 5] ?s1) = Inr []"
    by (simp add: define_knob_def add_new_transform_def mk_config_space_def mk_space_def
        space_getitem_def space_entities_def py_get_def Let_def space_num_output_def)
  then have "add_new_transform id (ArgOther [PInt 3, PInt 4, PInt 5]) ''b'' [] [] ?s1 = (Inr [], demo_space)"
    unfolding demo_space_def by (metis define_knob_def prod.collapse)
  then show ?thesis by (rule cs_built.knob [OF b1])
qed

theorem config_space_get_exact_witness:
  "fst (cs_len demo_space) = Inr 6 \<and>
   fst (cs_get 5 demo_space) = Inr (mk_config_entity 5 None [(''a'', EOther (PInt 2)), (''b'', EOther (PInt 5))] []) \<and>
   fst (cs_get 6 demo_space) = Inl IndexError"
proof -
  have "int (prod_list (space_dims demo_space)) < 2 ^ 63" by (simp add: demo_space_simps)
  note w = config_space_get_exact [OF demo_space_built this]
  have pick: "pick_entities (cs_space_map demo_space) (digits (space_dims demo_space) (nat 5)) =
      [(''a'', EOther (PInt 2)), (''b'', EOther (PInt 5))]"
    by (simp add: demo_space_simps pick_entities_def space_entities_def)
  from w have "fst (cs_len demo_space) = Inr 6" by (simp add: demo_space_simps)
  moreover from w have "fst (cs_get 5 demo_space) =
      Inr (mk_config_entity 5 None [(''a'', EOther (PInt 2)), (''b'', EOther (PInt 5))] [])"
    unfolding pick [symmetric] by (simp add: demo_space_simps)
  moreover from w have "fst (cs_get 6 demo_space) = Inl IndexError" by (simp add: demo_space_simps)
  ultimately show ?thesis by blast
qed

text \<open>
  The length is kept from the first call on: once it has been asked for, adding a knob changes
  neither the reported size nor the range of valid indices, so the configurations beyond the old
  size cannot be reached.
\<close>

theorem config_space_len_stale:
  assumes "cs_collect cs" and "fst (cs_len cs) = Inr n" and "candidate \<noteq> []"
  shows "let cs' = snd (define_knob setiter name candidate (snd (cs_len cs)))
         in fst (cs_len cs') = Inr n \<and> (\<forall>i \<ge> n. fst (cs_get i cs') = Inl IndexError)"
proof -
  define cs' where "cs' = snd (define_knob setiter name candidate (snd (cs_len cs)))"
  have n: "0 \<le> n" "cs_length (snd (cs_len cs)) = Some n"
    using assms(2) by (auto simp: cs_len_def Let_def split: if_splits)
  have "cs_length cs' = cs_length (snd (cs_len cs))"
    using assms(1) by (auto simp: cs'_def define_knob_def add_new_transform_def cs_len_def Let_def
        mk_space_def split: sum.splits)
  with n have l: "fst (cs_len cs') = Inr n" by (simp add: cs_len_def Let_def)
  then obtain s where "cs_len cs' = (Inr n, s)" by (cases "cs_len cs'") auto
  then have "\<forall>i \<ge> n. fst (cs_get i cs') = Inl IndexError" by (auto simp: cs_get_def)
  with l show ?thesis unfolding cs'_def Let_def by blast
qed

theorem config_space_len_stale_witness:
  "let cs' = snd (define_knob id ''c'' [PInt 0, PInt 1] (snd (cs_len demo_space)))
   in fst (cs_len cs') = Inr 6 \<and> (\<forall>i \<ge> 6. fst (cs_get i cs') = Inl IndexError)"
  by (rule config_space_len_stale)
    (simp_all add: demo_space_simps cs_len_def np_prod_def wrap64_def Let_def space_len_def space_entities_def)

end
