(* ===== verification/Index_Tuner.thy ===== *)
theory Index_Tuner
  imports Config_Space
begin

section \<open>Index based tuners\<close>

text \<open>
  \<^verbatim>\<open>src/python/tvm/autotvm/tuner/index_based_tuner.py\<close>: the grid search, and the random search that keeps
  a sparse permutation of the remaining indices in a dictionary.
\<close>

record index_tuner =
  it_space :: config_space
  it_range_length :: int
  it_index_offset :: int
  it_counter :: int

record random_tuner = index_tuner +
  rt_rand_state :: "(int, int) dict"
  rt_rand_max :: int
  rt_visited :: "int list"
  rt_pos :: nat

definition mk_index_tuner :: "config_space \<Rightarrow> (int \<times> int) option \<Rightarrow> index_tuner res" where
  "mk_index_tuner space range_idx =
     (case cs_len space of
        (Inl e, _) \<Rightarrow> Inl e
      | (Inr n, space') \<Rightarrow>
          (case range_idx of
             None \<Rightarrow> Inr \<lparr>it_space = space', it_range_length = n, it_index_offset = 0, it_counter = 0\<rparr>
           | Some (lo, hi) \<Rightarrow>
               assertE (hi > lo) (assertE (lo \<ge> 0)
                 (Inr \<lparr>it_space = space', it_range_length = hi - lo + 1, it_index_offset = lo,
                       it_counter = 0\<rparr>))))"

definition it_has_next :: "'z index_tuner_scheme \<Rightarrow> bool" where
  "it_has_next t \<longleftrightarrow> it_counter t < it_range_length t"

fun grid_next_batch :: "nat \<Rightarrow> index_tuner \<Rightarrow> (index_tuner, config_entity list) outcome" where
  "grid_next_batch 0 t = (Inr [], t)"
| "grid_next_batch (Suc n) t =
     (if it_counter t \<ge> it_range_length t then (Inr [], t)
      else case cs_get (it_counter t + it_index_offset t) (it_space t) of
        (Inl e, space) \<Rightarrow> (Inl e, t\<lparr>it_space := space\<rparr>)
      | (Inr c, space) \<Rightarrow>
          bindO (grid_next_batch n (t\<lparr>it_space := space, it_counter := it_counter t + 1\<rparr>))
            (\<lambda>cs t'. (Inr (c # cs), t')))"

definition mk_random_tuner :: "config_space \<Rightarrow> (int \<times> int) option \<Rightarrow> nat \<Rightarrow> random_tuner res" where
  "mk_random_tuner space range_idx pos =
     bindE (mk_index_tuner space range_idx) (\<lambda>t.
       Inr (index_tuner.extend t (random_tuner.fields [] (it_range_length t) [] pos)))"

text \<open>\<^verbatim>\<open>dict.get\<close> with the key itself as the default.\<close>

definition state_at :: "(int, int) dict \<Rightarrow> int \<Rightarrow> int" where
  "state_at d k = (case map_of d k of None \<Rightarrow> k | Some v \<Rightarrow> v)"

fun random_next_batch :: "rng \<Rightarrow> nat \<Rightarrow> random_tuner \<Rightarrow> (random_tuner, config_entity list) outcome" where
  "random_next_batch rnd 0 t = (Inr [], t)"
| "random_next_batch rnd (Suc n) t =
     (if rt_rand_max t = 0 then (Inr [], t)
      else if rt_rand_max t < 0 then (Inl ValueError, t)
      else
        let index0 = randint rnd (rt_pos t) (rt_rand_max t);
            rand_max = rt_rand_max t - 1;
            t1 = t\<lparr>rt_pos := Suc (rt_pos t), rt_rand_max := rand_max\<rparr>;
            index = state_at (rt_rand_state t) index0 + it_index_offset t
        in case cs_get index (it_space t) of
             (Inl e, space) \<Rightarrow> (Inl e, t1\<lparr>it_space := space\<rparr>)
           | (Inr c, space) \<Rightarrow>
               bindO (random_next_batch rnd n
                        (t1\<lparr>it_space := space, rt_visited := rt_visited t @ [index],
                            rt_rand_state :=
                              AList.delete rand_max
                                (AList.update index0 (state_at (rt_rand_state t) rand_max) (rt_rand_state t)),
                            it_counter := it_counter t + 1\<rparr>))
                 (\<lambda>cs t'. (Inr (c # cs), t')))"

subsection \<open>Grid search\<close>

text \<open>A tuner whose index range lies in its space.\<close>

definition it_ok :: "'z index_tuner_scheme \<Rightarrow> bool" where
  "it_ok t \<longleftrightarrow>
     cs_ready (it_space t) \<and> 0 \<le> it_index_offset t \<and> 0 \<le> it_counter t \<and> it_counter t \<le> it_range_length t \<and>
     it_range_length t + it_index_offset t \<le> int (prod_list (space_dims (it_space t)))"

lemma grid_next_batch_indices:
  assumes "it_ok t"
  shows "\<exists>cs t'. grid_next_batch n t = (Inr cs, t') \<and> it_ok t' \<and>
           it_range_length t' = it_range_length t \<and> it_index_offset t' = it_index_offset t \<and>
           it_counter t' = min (it_counter t + int n) (it_range_length t) \<and>
           map ce_index cs = [it_index_offset t + it_counter t .. it_index_offset t + it_counter t' - 1]"
  using assms
proof (induction n arbitrary: t)
  case 0
  then show ?case by (auto simp: it_ok_def)
next
  case (Suc n)
  show ?case
  proof (cases "it_counter t < it_range_length t")
    case False
    then show ?thesis using Suc.prems by (auto simp: it_ok_def)
  next
    case True
    let ?i = "it_counter t + it_index_offset t"
    obtain c sp where g: "cs_get ?i (it_space t) = (Inr c, sp)" "ce_index c = ?i"
      using cs_index.get_in [of "it_space t" ?i] Suc.prems True
      by (cases "cs_get ?i (it_space t)") (auto simp: it_ok_def)
    have sp: "cs_ready sp" "prod_list (space_dims sp) = prod_list (space_dims (it_space t))"
      using cs_index.get_keeps [of "it_space t" ?i] Suc.prems g(1) by (auto simp: it_ok_def)
    let ?t = "t\<lparr>it_space := sp, it_counter := it_counter t + 1\<rparr>"
    have "it_ok ?t" using Suc.prems True sp by (simp add: it_ok_def)
    from Suc.IH [OF this] obtain cs t' where r: "grid_next_batch n ?t = (Inr cs, t')" "it_ok t'"
      "it_range_length t' = it_range_length t" "it_index_offset t' = it_index_offset t"
      "it_counter t' = min (it_counter t + 1 + int n) (it_range_length t)"
      "map ce_index cs = [it_index_offset t + (it_counter t + 1) .. it_index_offset t + it_counter t' - 1]"
      by auto
    have "it_counter t < it_counter t'" using r(5) True by simp
    then have "[it_index_offset t + it_counter t .. it_index_offset t + it_counter t' - 1] =
        ?i # [it_index_offset t + (it_counter t + 1) .. it_index_offset t + it_counter t' - 1]"
      by (subst upto_rec1) (simp_all add: algebra_simps)
    then show ?thesis using True g r by (auto simp: algebra_simps)
  qed
qed

subsection \<open>Random search\<close>

text \<open>The indices still to be drawn: the list that the dictionary stands for.\<close>

definition remaining :: "random_tuner \<Rightarrow> int list" where
  "remaining t = map (\<lambda>i. state_at (rt_rand_state t) (int i)) [0..<nat (rt_rand_max t)]"

definition rt_ok :: "random_tuner \<Rightarrow> bool" where
  "rt_ok t \<longleftrightarrow>
     it_ok t \<and> 0 \<le> rt_rand_max t \<and> rt_rand_max t = it_range_length t - it_counter t \<and>
     mset (map (\<lambda>r. r + it_index_offset t) (remaining t)) + mset (rt_visited t) =
       mset [it_index_offset t .. it_index_offset t + it_range_length t - 1]"

lemma swap_remove_mset:
  assumes "j < length xs"
  shows "add_mset (xs ! j) (mset (butlast (xs[j := last xs]))) = mset xs"
proof -
  have ne: "xs \<noteq> []" using assms by auto
  have xs: "mset xs = add_mset (last xs) (mset (butlast xs))"
    using append_butlast_last_id [OF ne] by (metis add_mset_add_single mset.simps(2) mset.simps(1) mset_append)
  show ?thesis
  proof (cases "j = length xs - 1")
    case True
    then have "xs ! j = last xs" "butlast (xs[j := last xs]) = butlast xs"
      using ne by (simp_all add: last_conv_nth butlast_list_update)
    then show ?thesis using xs by simp
  next
    case False
    then have j: "j < length (butlast xs)" using assms by simp
    then have nth: "butlast xs ! j = xs ! j" by (simp add: nth_butlast)
    have "mset (butlast (xs[j := last xs])) = add_mset (last xs) (mset (butlast xs) - {#xs ! j#})"
      using False j mset_update [OF j, of "last xs"] nth by (simp add: butlast_list_update)
    moreover have "xs ! j \<in># mset (butlast xs)" using j nth by (metis nth_mem set_mset_mset)
    ultimately show ?thesis using xs by simp
  qed
qed

lemma state_at_step:
  assumes "i < m"
  shows "state_at (AList.delete m (AList.update j v d)) i = (if i = j then v else state_at d i)"
  using assms by (simp add: state_at_def delete_conv' update_conv')

lemma remaining_step:
  assumes "0 < rt_rand_max t" and "0 \<le> j" and "j < rt_rand_max t"
    and "rt_rand_max t' = rt_rand_max t - 1"
    and "rt_rand_state t' = AList.delete (rt_rand_max t - 1)
           (AList.update j (state_at (rt_rand_state t) (rt_rand_max t - 1)) (rt_rand_state t))"
  shows "add_mset (state_at (rt_rand_state t) j) (mset (remaining t')) = mset (remaining t)"
proof -
  let ?m = "nat (rt_rand_max t)" and ?xs = "remaining t"
  have len: "length ?xs = ?m" by (simp add: remaining_def)
  have last: "last ?xs = state_at (rt_rand_state t) (rt_rand_max t - 1)"
    using assms(1) len by (simp add: last_conv_nth remaining_def nat_less_iff)
  have "remaining t' = butlast (?xs[nat j := last ?xs])"
  proof (rule nth_equalityI)
    show "length (remaining t') = length (butlast (?xs[nat j := last ?xs]))"
      using assms(1,4) by (simp add: remaining_def nat_diff_distrib)
    fix i
    assume "i < length (remaining t')"
    then have i: "int i < rt_rand_max t - 1" using assms(4) by (simp add: remaining_def)
    then show "remaining t' ! i = butlast (?xs[nat j := last ?xs]) ! i"
      unfolding last using assms(2,4,5) len
      by (auto simp: remaining_def nth_butlast nth_list_update state_at_step)
  qed
  moreover have "nat j < length ?xs" using assms(2,3) len by simp
  moreover have "?xs ! nat j = state_at (rt_rand_state t) j" using assms(2,3) by (simp add: remaining_def)
  ultimately show ?thesis using swap_remove_mset [of "nat j" ?xs] by simp
qed

lemma random_next_batch_indices:
  assumes "rt_ok t"
  shows "\<exists>cs t'. random_next_batch rnd n t = (Inr cs, t') \<and> rt_ok t' \<and>
           it_range_length t' = it_range_length t \<and> it_index_offset t' = it_index_offset t \<and>
           rt_visited t' = rt_visited t @ map ce_index cs \<and>
           it_counter t' = min (it_counter t + int n) (it_range_length t) \<and>
           int (length cs) = it_counter t' - it_counter t"
  using assms
proof (induction n arbitrary: t)
  case 0
  then show ?case by (auto simp: rt_ok_def it_ok_def)
next
  case (Suc n)
  show ?case
  proof (cases "rt_rand_max t = 0")
    case True
    then show ?thesis using Suc.prems by (auto simp: rt_ok_def it_ok_def)
  next
    case False
    then have pos: "0 < rt_rand_max t" using Suc.prems by (simp add: rt_ok_def)
    define j where "j = randint rnd (rt_pos t) (rt_rand_max t)"
    have j: "0 \<le> j" "j < rt_rand_max t" using randint_bounds [OF pos] by (simp_all add: j_def)
    let ?i = "state_at (rt_rand_state t) j + it_index_offset t"
    have "state_at (rt_rand_state t) j \<in> set (remaining t)"
      using j unfolding remaining_def by (force intro!: image_eqI [where x = "nat j"])
    then have "?i \<in># mset (map (\<lambda>r. r + it_index_offset t) (remaining t))" by simp
    then have "?i \<in># mset [it_index_offset t .. it_index_offset t + it_range_length t - 1]"
      using Suc.prems unfolding rt_ok_def by (metis union_iff)
    then have rng: "it_index_offset t \<le> ?i" "?i < it_index_offset t + it_range_length t" by auto
    have ok: "it_ok t" using Suc.prems by (simp add: rt_ok_def)
    obtain c sp where g: "cs_get ?i (it_space t) = (Inr c, sp)" "ce_index c = ?i"
      using cs_index.get_in [of "it_space t" ?i] ok rng
      by (cases "cs_get ?i (it_space t)") (auto simp: it_ok_def)
    have sp: "cs_ready sp" "prod_list (space_dims sp) = prod_list (space_dims (it_space t))"
      using cs_index.get_keeps [of "it_space t" ?i] ok g(1) by (auto simp: it_ok_def)
    define t1 where "t1 = t\<lparr>rt_pos := Suc (rt_pos t), rt_rand_max := rt_rand_max t - 1,
        it_space := sp, rt_visited := rt_visited t @ [?i],
        rt_rand_state := AList.delete (rt_rand_max t - 1)
          (AList.update j (state_at (rt_rand_state t) (rt_rand_max t - 1)) (rt_rand_state t)),
        it_counter := it_counter t + 1\<rparr>"
    have "add_mset (state_at (rt_rand_state t) j) (mset (remaining t1)) = mset (remaining t)"
      using pos j by (intro remaining_step) (simp_all add: t1_def)
    then have "mset (map (\<lambda>r. r + it_index_offset t) (remaining t)) =
        add_mset ?i (mset (map (\<lambda>r. r + it_index_offset t) (remaining t1)))"
      by (metis image_mset_add_mset mset_map)
    then have "rt_ok t1" using Suc.prems pos sp by (auto simp: rt_ok_def it_ok_def t1_def)
    from Suc.IH [OF this] obtain cs t' where r: "random_next_batch rnd n t1 = (Inr cs, t')" "rt_ok t'"
      "it_range_length t' = it_range_length t" "it_index_offset t' = it_index_offset t"
      "rt_visited t' = (rt_visited t @ [?i]) @ map ce_index cs"
      "it_counter t' = min (it_counter t + 1 + int n) (it_range_length t)"
      "int (length cs) = it_counter t' - (it_counter t + 1)"
      by (auto simp: t1_def)
    have "random_next_batch rnd (Suc n) t = (Inr (c # cs), t')"
      using pos g(1) r(1) by (simp add: j_def [symmetric] t1_def Let_def)
    then show ?thesis using r(2-) g(2) by (intro exI [of _ "c # cs"] exI [of _ t']) simp
  qed
qed

subsection \<open>Sequences of batches\<close>

text \<open>The range a tuner was given, all the space or a part of it.\<close>

definition range_fits :: "config_space \<Rightarrow> (int \<times> int) option \<Rightarrow> bool" where
  "range_fits space range_idx =
     (case range_idx of None \<Rightarrow> True
      | Some (lo, hi) \<Rightarrow> 0 \<le> lo \<and> lo < hi \<and> hi < int (prod_list (space_dims space)))"

definition range_of :: "config_space \<Rightarrow> (int \<times> int) option \<Rightarrow> int \<times> int" where
  "range_of space range_idx =
     (case range_idx of None \<Rightarrow> (0, int (prod_list (space_dims space)) - 1) | Some r \<Rightarrow> r)"

lemma mk_index_tuner_ok:
  assumes "cs_ready space" and "range_fits space range_idx"
  shows "\<exists>t. mk_index_tuner space range_idx = Inr t \<and> it_ok t \<and> it_counter t = 0 \<and>
             it_index_offset t = fst (range_of space range_idx) \<and>
             it_range_length t = snd (range_of space range_idx) - fst (range_of space range_idx) + 1"
proof -
  let ?n = "int (prod_list (space_dims space))"
  have "cs_ready (space\<lparr>cs_length := Some ?n\<rparr>)" "space_dims (space\<lparr>cs_length := Some ?n\<rparr>) = space_dims space"
    using assms(1) by (simp_all add: cs_ready_def space_dims_def)
  then show ?thesis using assms
    by (cases range_idx) (auto simp: mk_index_tuner_def cs_len_ready range_fits_def range_of_def it_ok_def)
qed

lemma upto_join: "a \<le> b \<Longrightarrow> b \<le> c + 1 \<Longrightarrow> [a..c] = [a..b - 1] @ [b..c]"
proof -
  assume "a \<le> b" and "b \<le> c + 1"
  then consider "a \<le> b" "b \<le> c" | "b = c + 1" by linarith
  then show ?thesis by cases (auto simp: upto_split1)
qed

lemma grid_batches:
  assumes "it_ok t"
  shows "\<exists>css t'. mapO grid_next_batch bs t = (Inr css, t') \<and>
           map ce_index (concat css) =
             [it_index_offset t + it_counter t ..
              it_index_offset t + min (it_counter t + int (sum_list bs)) (it_range_length t) - 1]"
  using assms
proof (induction bs arbitrary: t)
  case Nil
  then show ?case by (auto simp: it_ok_def)
next
  case (Cons b bs)
  obtain cs t1 where g: "grid_next_batch b t = (Inr cs, t1)" "it_ok t1"
    "it_range_length t1 = it_range_length t" "it_index_offset t1 = it_index_offset t"
    "it_counter t1 = min (it_counter t + int b) (it_range_length t)"
    "map ce_index cs = [it_index_offset t + it_counter t .. it_index_offset t + it_counter t1 - 1]"
    using grid_next_batch_indices [OF Cons.prems, of b] by blast
  from Cons.IH [OF g(2)] obtain css t' where r: "mapO grid_next_batch bs t1 = (Inr css, t')"
    "map ce_index (concat css) = [it_index_offset t + it_counter t1 ..
       it_index_offset t + min (it_counter t1 + int (sum_list bs)) (it_range_length t) - 1]"
    using g(3,4) by auto
  let ?e = "it_index_offset t + min (it_counter t + int (sum_list (b # bs))) (it_range_length t) - 1"
  have e: "it_index_offset t + min (it_counter t1 + int (sum_list bs)) (it_range_length t) - 1 = ?e"
    using g(5) by auto
  have "it_counter t \<le> it_counter t1" "it_index_offset t + it_counter t1 \<le> ?e + 1"
    using g(5) Cons.prems by (auto simp: it_ok_def)
  then have "[it_index_offset t + it_counter t .. ?e] =
      [it_index_offset t + it_counter t .. it_index_offset t + it_counter t1 - 1] @
      [it_index_offset t + it_counter t1 .. ?e]"
    by (intro upto_join) simp_all
  then show ?case using g(1,6) r e by auto
qed

lemma random_batches:
  assumes "rt_ok t"
  shows "\<exists>css t'. mapO (random_next_batch rnd) bs t = (Inr css, t') \<and> rt_ok t' \<and>
           it_range_length t' = it_range_length t \<and> it_index_offset t' = it_index_offset t \<and>
           rt_visited t' = rt_visited t @ map ce_index (concat css) \<and>
           it_counter t' = min (it_counter t + int (sum_list bs)) (it_range_length t)"
  using assms
proof (induction bs arbitrary: t)
  case Nil
  then show ?case by (auto simp: rt_ok_def it_ok_def)
next
  case (Cons b bs)
  obtain cs t1 where g: "random_next_batch rnd b t = (Inr cs, t1)" "rt_ok t1"
    "it_range_length t1 = it_range_length t" "it_index_offset t1 = it_index_offset t"
    "rt_visited t1 = rt_visited t @ map ce_index cs"
    "it_counter t1 = min (it_counter t + int b) (it_range_length t)"
    using random_next_batch_indices [OF Cons.prems, of rnd b] by blast
  from Cons.IH [OF g(2)] obtain css t' where r: "mapO (random_next_batch rnd) bs t1 = (Inr css, t')" "rt_ok t'"
    "it_range_length t' = it_range_length t1" "it_index_offset t' = it_index_offset t1"
    "rt_visited t' = rt_visited t1 @ map ce_index (concat css)"
    "it_counter t' = min (it_counter t1 + int (sum_list bs)) (it_range_length t1)" by blast
  with g show ?case by (intro exI [of _ "cs # css"] exI [of _ t']) auto
qed

lemma random_init_ok:
  assumes "cs_ready space" and "range_fits space range_idx"
  shows "\<exists>t. mk_random_tuner space range_idx pos = Inr t \<and> rt_ok t \<and> rt_visited t = [] \<and> it_counter t = 0 \<and>
             it_index_offset t = fst (range_of space range_idx) \<and>
             it_range_length t = snd (range_of space range_idx) - fst (range_of space range_idx) + 1"
proof -
  obtain t where t: "mk_index_tuner space range_idx = Inr t" "it_ok t" "it_counter t = 0"
    "it_index_offset t = fst (range_of space range_idx)"
    "it_range_length t = snd (range_of space range_idx) - fst (range_of space range_idx) + 1"
    using mk_index_tuner_ok [OF assms] by blast
  define r where "r = index_tuner.extend t (random_tuner.fields [] (it_range_length t) [] pos)"
  have r: "it_space r = it_space t" "it_range_length r = it_range_length t" "it_index_offset r = it_index_offset t"
    "it_counter r = it_counter t" "rt_rand_state r = []" "rt_rand_max r = it_range_length t" "rt_visited r = []"
    by (simp_all add: r_def index_tuner.defs random_tuner.defs)
  have "map (\<lambda>k. k + it_index_offset r) (remaining r) = [it_index_offset r .. it_index_offset r + it_range_length r - 1]"
    by (rule nth_equalityI) (auto simp: remaining_def state_at_def r)
  then have "rt_ok r" using t(2,3) r by (simp add: rt_ok_def it_ok_def)
  moreover have "mk_random_tuner space range_idx pos = Inr r" by (simp add: mk_random_tuner_def t(1) r_def)
  ultimately show ?thesis using t(3-5) r by auto
qed

subsection \<open>Properties\<close>

text \<open>
  A grid search over a ready space, restricted or not to a range inside it, is made without
  error, and whatever the sizes of the batches asked for, the configurations returned are those of
  the range in increasing order of index, each once, until the range is exhausted.
\<close>

theorem grid_search_in_order:
  assumes "cs_ready space" and "range_fits space range_idx"
  shows "\<exists>t css t'. mk_index_tuner space range_idx = Inr t \<and> mapO grid_next_batch bs t = (Inr css, t') \<and>
           map ce_index (concat css) =
             [fst (range_of space range_idx) ..
              min (fst (range_of space range_idx) + int (sum_list bs) - 1) (snd (range_of space range_idx))]"
proof -
  obtain t where t: "mk_index_tuner space range_idx = Inr t" "it_ok t" "it_counter t = 0"
    "it_index_offset t = fst (range_of space range_idx)"
    "it_range_length t = snd (range_of space range_idx) - fst (range_of space range_idx) + 1"
    using mk_index_tuner_ok [OF assms] by blast
  obtain css t' where "mapO grid_next_batch bs t = (Inr css, t')"
    "map ce_index (concat css) = [it_index_offset t + it_counter t ..
       it_index_offset t + min (it_counter t + int (sum_list bs)) (it_range_length t) - 1]"
    using grid_batches [OF t(2)] by blast
  moreover have "it_index_offset t + min (int (sum_list bs)) (it_range_length t) - 1 =
      min (fst (range_of space range_idx) + int (sum_list bs) - 1) (snd (range_of space range_idx))"
    using t(4,5) by auto
  ultimately show ?thesis using t by auto
qed

theorem grid_search_in_order_witness:
  "\<exists>t css t'. mk_index_tuner demo_space (Some (1, 4)) = Inr t \<and>
     mapO grid_next_batch [1, 2] t = (Inr css, t') \<and> map ce_index (concat css) = [1, 2, 3]"
proof -
  have "cs_ready demo_space"
    by (simp add: cs_ready_def demo_space_simps space_len_def space_entities_def)
  moreover have "range_fits demo_space (Some (1, 4))" by (simp add: range_fits_def demo_space_simps)
  ultimately have "\<exists>t css t'. mk_index_tuner demo_space (Some (1, 4)) = Inr t \<and>
     mapO grid_next_batch [1, 2] t = (Inr css, t') \<and>
     map ce_index (concat css) = [fst (range_of demo_space (Some (1, 4))) ..
        min (fst (range_of demo_space (Some (1, 4))) + int (sum_list [1, 2]) - 1) (snd (range_of demo_space (Some (1, 4))))]"
    by (rule grid_search_in_order)
  moreover have "[1 .. 3] = [1, 2, 3 :: int]" by (simp add: upto_rec1)
  ultimately show ?thesis by (simp add: range_of_def)
qed

text \<open>
  [C7] A random search over a ready space, restricted or not, never repeats an index, for any random
  draws and any batch sizes: the indices returned are distinct and in the range, and once as many
  have been asked for as the range holds, every index of the range has been returned exactly once.
\<close>

theorem random_search_permutes:
  assumes "cs_ready space" and "range_fits space range_idx"
  defines "lo \<equiv> fst (range_of space range_idx)" and "hi \<equiv> snd (range_of space range_idx)"
  shows "\<exists>t css t'. mk_random_tuner space range_idx pos = Inr t \<and>
           mapO (random_next_batch rnd) bs t = (Inr css, t') \<and>
           distinct (map ce_index (concat css)) \<and> set (map ce_index (concat css)) \<subseteq> {lo..hi} \<and>
           (hi - lo + 1 \<le> int (sum_list bs) \<longrightarrow> set (map ce_index (concat css)) = {lo..hi})"
proof -
  obtain t where t: "mk_random_tuner space range_idx pos = Inr t" "rt_ok t" "rt_visited t = []" "it_counter t = 0"
    "it_index_offset t = lo" "it_range_length t = hi - lo + 1"
    using random_init_ok [OF assms(1,2), of pos] unfolding lo_def hi_def by blast
  obtain css t' where r: "mapO (random_next_batch rnd) bs t = (Inr css, t')" "rt_ok t'"
    "it_range_length t' = it_range_length t" "it_index_offset t' = it_index_offset t"
    "rt_visited t' = map ce_index (concat css)"
    "it_counter t' = min (int (sum_list bs)) (it_range_length t)"
    using random_batches [OF t(2), of rnd bs] t(3,4) by auto
  let ?is = "map ce_index (concat css)"
  have m: "mset (map (\<lambda>r. r + lo) (remaining t')) + mset ?is = mset [lo..hi]"
    using r(2-5) t(5,6) by (simp add: rt_ok_def)
  then have "mset ?is \<subseteq># mset [lo..hi]" by (metis mset_subset_eq_add_right)
  then have sub: "set ?is \<subseteq> {lo..hi}" "distinct ?is"
    by (metis set_mset_mono set_mset_mset set_upto,
        metis distinct_upto mset_subset_eq_exists_conv distinct_append mset_append
          ex_mset mset_eq_imp_distinct_iff add.commute)
  have "set ?is = {lo..hi}" if "hi - lo + 1 \<le> int (sum_list bs)"
  proof -
    have "rt_rand_max t' = 0" using r(2,3,6) t(6) that by (simp add: rt_ok_def)
    then have "remaining t' = []" by (simp add: remaining_def)
    with m show ?thesis by (metis add_0 list.simps(8) mset.simps(1) set_mset_mset set_upto)
  qed
  with sub show ?thesis using t(1) r(1) by auto
qed

theorem random_search_permutes_witness:
  "\<exists>t css t'. mk_random_tuner demo_space None 0 = Inr t \<and>
     mapO (random_next_batch (\<lambda>k. 7 * k + 3)) [4, 4] t = (Inr css, t') \<and>
     distinct (map ce_index (concat css)) \<and> set (map ce_index (concat css)) = {0..5}"
proof -
  have "cs_ready demo_space"
    by (simp add: cs_ready_def demo_space_simps space_len_def space_entities_def)
  moreover have "range_fits demo_space None" by (simp add: range_fits_def)
  ultimately show ?thesis
    using random_search_permutes [of demo_space None 0 "\<lambda>k. 7 * k + 3" "[4, 4]"]
    by (auto simp: range_of_def demo_space_simps)
qed

end
