(* ===== verification/Tuner_Loop.thy ===== *)
theory Tuner_Loop
  imports Index_Tuner
begin

section \<open>The tuning loop\<close>

text \<open>
  \<^verbatim>\<open>Tuner\<close> of \<^verbatim>\<open>src/python/tvm/autotvm/tuner/tuner.py\<close>: the loop that measures batches of configurations,
  keeps the best one and stops after a number of trials, when the tuner has nothing left, or when
  the best has not improved for a while.  The methods that subclasses override, the measurement and
  the callbacks are the fields of \<open>tune_env\<close>; the world \<open>'w\<close> is what measurement and callbacks act on.
\<close>

subsection \<open>Definitions\<close>

text \<open>A result: the run times when \<^verbatim>\<open>error_no\<close> is 0, the error descriptions otherwise.\<close>

record measure_result =
  mr_error_no :: int
  mr_costs :: "rat list"
  mr_errors :: "string list"

record ('t, 'c, 'w) tune_env =
  te_has_next :: "'t \<Rightarrow> bool"
  te_next_batch :: "nat \<Rightarrow> 't \<Rightarrow> ('t, 'c list) outcome"
  te_update :: "'c list \<Rightarrow> measure_result list \<Rightarrow> 't \<Rightarrow> ('t, unit) outcome"
  te_measure :: "'c list \<Rightarrow> 'w \<Rightarrow> measure_result list \<times> 'w"
  te_callbacks :: "('c list \<Rightarrow> measure_result list \<Rightarrow> 'w \<Rightarrow> 'w) list"
  te_flop :: rat
  te_n_parallel :: nat

record ('t, 'c, 'w) tune_state =
  ts_tuner :: 't
  ts_best_config :: "'c option"
  ts_best_flops :: fl
  ts_best_measure_pair :: "('c \<times> measure_result) option"
  ts_best_iter :: int
  ts_ttl :: "int option"
  ts_n_trial :: "int option"
  ts_early_stopping :: "int option"
  ts_in_tuning :: bool
  ts_debug :: bool
  ts_i :: int
  ts_error_ct :: int
  ts_errors :: "string list"
  ts_no_valid :: bool
  ts_world :: 'w

definition mk_tuner_state :: "'t \<Rightarrow> 'w \<Rightarrow> ('t, 'c, 'w) tune_state" where
  "mk_tuner_state t w =
     \<lparr>ts_tuner = t, ts_best_config = None, ts_best_flops = Fin 0, ts_best_measure_pair = None,
      ts_best_iter = 0, ts_ttl = None, ts_n_trial = None, ts_early_stopping = None,
      ts_in_tuning = False, ts_debug = False, ts_i = 0, ts_error_ct = 0, ts_errors = [],
      ts_no_valid = False, ts_world = w\<rparr>"

text \<open>\<^verbatim>\<open>Tuner.reset\<close> keeps the iteration of the best configuration.\<close>

definition tuner_reset :: "('t, 'c, 'w) tune_state \<Rightarrow> ('t, 'c, 'w) tune_state" where
  "tuner_reset st = st\<lparr>ts_best_config := None, ts_best_flops := Fin 0, ts_best_measure_pair := None\<rparr>"

definition flops_of :: "rat \<Rightarrow> measure_result \<Rightarrow> fl" where
  "flops_of flop res = (if mr_error_no res = 0 then fl_div (Fin flop) (np_mean (mr_costs res)) else Fin 0)"

text \<open>The inner loop over the pairs of a batch; \<open>k\<close> is the position in the batch.\<close>

fun keep_best ::
    "rat \<Rightarrow> int \<Rightarrow> ('c \<times> measure_result) list \<Rightarrow> ('t, 'c, 'w) tune_state
       \<Rightarrow> (('t, 'c, 'w) tune_state, unit) outcome" where
  "keep_best flop k [] st = (Inr (), st)"
| "keep_best flop k ((config, res) # pairs) st =
     (if mr_error_no res \<noteq> 0 \<and> mr_errors res = [] then
        (Inl IndexError, st\<lparr>ts_error_ct := ts_error_ct st + 1\<rparr>)
      else
        let flops = flops_of flop res;
            st1 = (if mr_error_no res = 0 then st\<lparr>ts_error_ct := 0\<rparr>
                   else st\<lparr>ts_error_ct := ts_error_ct st + 1,
                           ts_errors := ts_errors st @ [hd (mr_errors res)]\<rparr>);
            st2 = (if fl_less (ts_best_flops st1) flops
                   then st1\<lparr>ts_best_flops := flops, ts_best_config := Some config,
                            ts_best_measure_pair := Some (config, res),
                            ts_best_iter := ts_i st1 + k\<rparr>
                   else st1)
        in keep_best flop (k + 1) pairs st2)"

text \<open>One round of the loop; the result says whether the loop goes on.\<close>

definition tune_step ::
    "('t, 'c, 'w) tune_env \<Rightarrow> int \<Rightarrow> int \<Rightarrow> bool \<Rightarrow> ('t, 'c, 'w) tune_state
       \<Rightarrow> (('t, 'c, 'w) tune_state, bool) outcome" where
  "tune_step env n_trial early_stopping old_level st =
     (if \<not> te_has_next env (ts_tuner st) then (Inr False, st)
      else case te_next_batch env (nat (min (int (te_n_parallel env)) (n_trial - ts_i st))) (ts_tuner st) of
        (Inl e, t1) \<Rightarrow> (Inl e, st\<lparr>ts_tuner := t1\<rparr>)
      | (Inr configs, t1) \<Rightarrow>
          (case te_measure env configs (ts_world st) of
             (results, w1) \<Rightarrow>
               bindO (keep_best (te_flop env) 0 (zip configs results)
                        (st\<lparr>ts_tuner := t1, ts_world := w1\<rparr>)) (\<lambda>_ st2.
                 let i = ts_i st2 + int (length results);
                     st3 = st2\<lparr>ts_i := i, ts_ttl := Some (min (early_stopping + ts_best_iter st2) n_trial - i)\<rparr>
                 in case te_update env configs results (ts_tuner st3) of
                      (Inl e, t2) \<Rightarrow> (Inl e, st3\<lparr>ts_tuner := t2\<rparr>)
                    | (Inr _, t2) \<Rightarrow>
                        let st4 = st3\<lparr>ts_tuner := t2,
                                      ts_world := fold (\<lambda>cb w. cb configs results w) (te_callbacks env) (ts_world st3)\<rparr>
                        in if i \<ge> ts_best_iter st4 + early_stopping then (Inr False, st4)
                           else (Inr True, st4\<lparr>ts_debug := (if ts_error_ct st4 > 150 then True else old_level)\<rparr>))))"

partial_function (option) tune_loop ::
    "('t, 'c, 'w) tune_env \<Rightarrow> int \<Rightarrow> int \<Rightarrow> bool \<Rightarrow> ('t, 'c, 'w) tune_state
       \<Rightarrow> (('t, 'c, 'w) tune_state, unit) outcome option" where
  "tune_loop env n_trial early_stopping old_level st =
     (if ts_i st < n_trial then
        (case tune_step env n_trial early_stopping old_level st of
           (r, st') \<Rightarrow>
             (case r of
                Inl e \<Rightarrow> Some (Inl e, st')
              | Inr go \<Rightarrow>
                  if go then tune_loop env n_trial early_stopping old_level st' else Some (Inr (), st')))
      else Some (Inr (), st))"

definition si_prefixes :: string where
  "si_prefixes = ''yzafpn'' @ [CHR 0xB5] @ ''m kMGTPEZY''"

definition tune ::
    "('t, 'c, 'w) tune_env \<Rightarrow> int \<Rightarrow> int option \<Rightarrow> char \<Rightarrow> ('t, 'c, 'w) tune_state
       \<Rightarrow> (('t, 'c, 'w) tune_state, unit) outcome option" where
  "tune env n_trial early_stopping si_prefix st =
     (let es = (case early_stopping of Some n \<Rightarrow> if n = 0 then 10 ^ 9 else n | None \<Rightarrow> 10 ^ 9);
          st0 = st\<lparr>ts_n_trial := Some n_trial, ts_early_stopping := Some es\<rparr>
      in if si_prefix \<notin> set si_prefixes then Some (Inl ValueError, st0)
         else case tune_loop env n_trial es (ts_debug st0)
                     (st0\<lparr>ts_in_tuning := True, ts_i := 0, ts_error_ct := 0, ts_errors := []\<rparr>) of
                None \<Rightarrow> None
              | Some (Inl e, st1) \<Rightarrow> Some (Inl e, st1)
              | Some (Inr _, st1) \<Rightarrow>
                  Some (Inr (), st1\<lparr>ts_no_valid := (ts_error_ct st1 = ts_i st1), ts_in_tuning := False\<rparr>))"

subsection \<open>Keeping the best\<close>

text \<open>
  The best fields of a state describe the history of measured pairs: no pair is faster than the
  best, and the best is the pair at position \<^verbatim>\<open>best_iter\<close>.
\<close>

definition best_of :: "rat \<Rightarrow> ('c \<times> measure_result) list \<Rightarrow> ('t, 'c, 'w) tune_state \<Rightarrow> bool" where
  "best_of flop h st \<longleftrightarrow>
     (\<forall>j < length h. \<not> fl_less (ts_best_flops st) (flops_of flop (snd (h ! j)))) \<and>
     (case ts_best_config st of
        None \<Rightarrow> ts_best_flops st = Fin 0 \<and> ts_best_measure_pair st = None \<and> ts_best_iter st = 0
      | Some c \<Rightarrow>
          0 \<le> ts_best_iter st \<and> ts_best_iter st < int (length h) \<and>
          (let p = h ! nat (ts_best_iter st)
           in fst p = c \<and> ts_best_measure_pair st = Some p \<and> flops_of flop (snd p) = ts_best_flops st))"

lemma fl_less_asym_trans: "\<not> fl_less a g \<Longrightarrow> fl_less a b \<Longrightarrow> \<not> fl_less b g"
  by (cases a; cases b; cases g) auto

lemma best_of_snoc_new:
  assumes "best_of flop h st" and "fl_less (ts_best_flops st) (flops_of flop res)"
    and "ts_best_flops st' = flops_of flop res" and "ts_best_config st' = Some config"
    and "ts_best_measure_pair st' = Some (config, res)" and "ts_best_iter st' = int (length h)"
  shows "best_of flop (h @ [(config, res)]) st'"
  using assms fl_less_asym_trans [OF _ assms(2)]
  by (auto simp: best_of_def nth_append less_Suc_eq)

lemma best_of_snoc_old:
  assumes "best_of flop h st" and "\<not> fl_less (ts_best_flops st) (flops_of flop (snd p))"
  shows "best_of flop (h @ [p]) st"
  using assms by (auto simp: best_of_def nth_append less_Suc_eq Let_def nat_less_iff split: option.splits)

lemma best_of_cong:
  "best_of flop h st \<Longrightarrow> ts_best_flops st' = ts_best_flops st \<Longrightarrow> ts_best_config st' = ts_best_config st \<Longrightarrow>
   ts_best_measure_pair st' = ts_best_measure_pair st \<Longrightarrow> ts_best_iter st' = ts_best_iter st \<Longrightarrow> best_of flop h st'"
  by (cases "ts_best_config st") (auto simp: best_of_def)

text \<open>A failed measurement says why.\<close>

definition explained :: "measure_result \<Rightarrow> bool" where
  "explained res \<longleftrightarrow> mr_error_no res = 0 \<or> mr_errors res \<noteq> []"

lemma keep_best_ok:
  assumes "list_all (\<lambda>(c, res). explained res) pairs" and "best_of flop h st" and "int (length h) = ts_i st + k"
  shows "\<exists>st'. keep_best flop k pairs st = (Inr (), st') \<and> best_of flop (h @ pairs) st' \<and>
           ts_i st' = ts_i st \<and> ts_tuner st' = ts_tuner st \<and> ts_world st' = ts_world st"
  using assms
proof (induction pairs arbitrary: h st k)
  case Nil
  then show ?case by simp
next
  case (Cons p pairs)
  obtain c res where p: "p = (c, res)" by (cases p)
  define st1 where "st1 = (if mr_error_no res = 0 then st\<lparr>ts_error_ct := 0\<rparr>
     else st\<lparr>ts_error_ct := ts_error_ct st + 1, ts_errors := ts_errors st @ [hd (mr_errors res)]\<rparr>)"
  define st2 where "st2 = (if fl_less (ts_best_flops st1) (flops_of flop res)
     then st1\<lparr>ts_best_flops := flops_of flop res, ts_best_config := Some c,
              ts_best_measure_pair := Some (c, res), ts_best_iter := ts_i st1 + k\<rparr> else st1)"
  have same: "ts_i st2 = ts_i st" "ts_tuner st2 = ts_tuner st" "ts_world st2 = ts_world st"
    by (simp_all add: st1_def st2_def)
  have b1: "best_of flop h st1" by (rule best_of_cong [OF Cons.prems(2)]) (simp_all add: st1_def)
  have "best_of flop (h @ [(c, res)]) st2"
  proof (cases "fl_less (ts_best_flops st1) (flops_of flop res)")
    case True
    then show ?thesis
      using Cons.prems(3) by (intro best_of_snoc_new [OF b1]) (auto simp: st1_def st2_def)
  next
    case False
    then show ?thesis using best_of_snoc_old [OF b1, of "(c, res)"] by (simp add: st2_def)
  qed
  from Cons.IH [OF _ this, of "k + 1"] Cons.prems(1,3) p same obtain st' where
    "keep_best flop (k + 1) pairs st2 = (Inr (), st')" "best_of flop ((h @ [(c, res)]) @ pairs) st'"
    "ts_i st' = ts_i st" "ts_tuner st' = ts_tuner st" "ts_world st' = ts_world st" by auto
  moreover have "keep_best flop k (p # pairs) st = keep_best flop (k + 1) pairs st2"
    using Cons.prems(1) p by (auto simp: st1_def st2_def Let_def explained_def)
  ultimately show ?case using p by simp
qed

subsection \<open>Any tuner\<close>

text \<open>
  The loop over any tuner that keeps the contract, with the log as the world: a measurement may
  depend on everything measured before, answers every input, and explains its failures.
\<close>

locale tuner_run = tuner_methods served has_next next_batch update
  for served :: "'c list \<Rightarrow> 't \<Rightarrow> bool" and has_next and next_batch
    and update :: "'c list \<Rightarrow> measure_result list \<Rightarrow> 't \<Rightarrow> ('t, unit) outcome"
begin

lemma tune_loop_best:
  fixes m :: "('c \<times> measure_result) list \<Rightarrow> 'c list \<Rightarrow> measure_result list" and flop :: rat
  assumes m: "\<And>h cs. length (m h cs) = length cs" "\<And>h cs. list_all explained (m h cs)"
    and np: "0 < n_parallel"
  defines "env \<equiv> \<lparr>te_has_next = has_next, te_next_batch = next_batch, te_update = update,
             te_measure = (\<lambda>cs h. (m h cs, h)), te_callbacks = [\<lambda>cs rs h. h @ zip cs rs],
             te_flop = flop, te_n_parallel = n_parallel\<rparr>"
  assumes "served (map fst (ts_world st)) (ts_tuner st)" and "best_of flop (ts_world st) st"
    and "ts_i st = int (length (ts_world st))" and "ts_i st \<le> n_trial"
  shows "\<exists>st'. tune_loop env n_trial es lvl st = Some (Inr (), st') \<and>
           served (map fst (ts_world st')) (ts_tuner st') \<and> best_of flop (ts_world st') st' \<and>
           ts_i st' = int (length (ts_world st')) \<and> ts_i st' \<le> n_trial \<and>
           (ts_i st' = n_trial \<or> \<not> has_next (ts_tuner st') \<or> ts_best_iter st' + es \<le> ts_i st')"
  using assms(5-)
proof (induction "nat (n_trial - ts_i st)" arbitrary: st rule: less_induct)
  case less
  show ?case
  proof (cases "ts_i st < n_trial \<and> has_next (ts_tuner st)")
    case False
    then have "tune_loop env n_trial es lvl st = Some (Inr (), st)"
      by (subst tune_loop.simps) (auto simp: tune_step_def env_def)
    with False less.prems show ?thesis by (intro exI [of _ st]) auto
  next
    case True
    let ?h = "ts_world st"
    have n: "0 < nat (min (int n_parallel) (n_trial - ts_i st))" using np True by simp
    obtain cs t1 where nb: "next_batch (nat (min (int n_parallel) (n_trial - ts_i st))) (ts_tuner st) = (Inr cs, t1)"
      "served (map fst ?h @ cs) t1" "cs \<noteq> []" "length cs \<le> nat (min (int n_parallel) (n_trial - ts_i st))"
      using next_batch_progress [OF less.prems(1) _ n] True by blast
    let ?rs = "m ?h cs" and ?ps = "zip cs (m ?h cs)"
    have "list_all (\<lambda>(c, res). explained res) ?ps"
      using m(2) [of ?h cs] by (auto simp: list_all_iff dest: set_zip_rightD)
    moreover have "best_of flop ?h (st\<lparr>ts_tuner := t1, ts_world := ?h\<rparr>)"
      by (rule best_of_cong [OF less.prems(2)]) simp_all
    ultimately obtain st2 where st2: "keep_best flop 0 ?ps (st\<lparr>ts_tuner := t1, ts_world := ?h\<rparr>) = (Inr (), st2)"
      "best_of flop (?h @ ?ps) st2" "ts_i st2 = ts_i st" "ts_tuner st2 = t1" "ts_world st2 = ?h"
      using keep_best_ok [of ?ps flop ?h "st\<lparr>ts_tuner := t1, ts_world := ?h\<rparr>" 0] less.prems(3) by auto
    obtain t2 where up: "update cs ?rs t1 = (Inr (), t2)" "served (map fst ?h @ cs) t2"
      using update_ok [OF nb(2)] by blast
    define i where "i = ts_i st + int (length cs)"
    define st4 where "st4 = st2\<lparr>ts_i := i, ts_ttl := Some (min (es + ts_best_iter st2) n_trial - i),
       ts_tuner := t2, ts_world := ?h @ ?ps\<rparr>"
    define go where "go = (\<not> ts_best_iter st4 + es \<le> i)"
    define st5 where "st5 = (if go then st4\<lparr>ts_debug := (if ts_error_ct st4 > 150 then True else lvl)\<rparr> else st4)"
    have step: "tune_step env n_trial es lvl st = (Inr go, st5)"
      using True nb(1) st2(1,3-5) up(1) m(1)
      by (simp add: tune_step_def env_def Let_def st4_def st5_def go_def i_def)
    have len: "0 < length cs" using nb(3) by simp
    have i: "i \<le> n_trial" "ts_i st < i" using nb(4) len True by (auto simp: i_def)
    have fsts: "map fst (?h @ ?ps) = map fst ?h @ cs" using m(1) by simp
    have f5: "ts_world st5 = ?h @ ?ps" "ts_tuner st5 = t2" "ts_i st5 = i"
      by (simp_all add: st5_def st4_def)
    have "best_of flop (?h @ ?ps) st5"
      by (rule best_of_cong [OF st2(2)]) (simp_all add: st5_def st4_def)
    with f5 up(2) less.prems(3) m(1) fsts
    have s5: "served (map fst (ts_world st5)) (ts_tuner st5)" "best_of flop (ts_world st5) st5"
      "ts_i st5 = int (length (ts_world st5))" "ts_i st5 = i"
      by (simp_all add: i_def)
    show ?thesis
    proof (cases go)
      case False
      have "tune_loop env n_trial es lvl st = Some (Inr (), st5)"
        using True step False by (subst tune_loop.simps) simp
      then show ?thesis using s5 i False by (intro exI [of _ st5]) (auto simp: go_def st5_def)
    next
      case go: True
      have loop: "tune_loop env n_trial es lvl st = tune_loop env n_trial es lvl st5"
        using True step go by (subst tune_loop.simps) simp
      have "nat (n_trial - ts_i st5) < nat (n_trial - ts_i st)" using i s5(4) by simp
      from less.hyps [OF this s5(1-3)] i(1) s5(4) show ?thesis unfolding loop by simp
    qed
  qed
qed

lemma tune_best:
  fixes m :: "('c \<times> measure_result) list \<Rightarrow> 'c list \<Rightarrow> measure_result list" and flop :: rat
    and es :: "int option"
  assumes m: "\<And>h cs. length (m h cs) = length cs" "\<And>h cs. list_all explained (m h cs)"
    and np: "0 < n_parallel"
  defines "env \<equiv> \<lparr>te_has_next = has_next, te_next_batch = next_batch, te_update = update,
             te_measure = (\<lambda>cs h. (m h cs, h)), te_callbacks = [\<lambda>cs rs h. h @ zip cs rs],
             te_flop = flop, te_n_parallel = n_parallel\<rparr>"
  assumes "served [] t" and "0 \<le> n_trial" and "si \<in> set si_prefixes"
  defines "es' \<equiv> (case es of Some n \<Rightarrow> if n = 0 then 10 ^ 9 else n | None \<Rightarrow> 10 ^ 9)"
  shows "\<exists>st. tune env n_trial es si (mk_tuner_state t []) = Some (Inr (), st) \<and>
           served (map fst (ts_world st)) (ts_tuner st) \<and> best_of flop (ts_world st) st \<and>
           int (length (ts_world st)) \<le> n_trial \<and> \<not> ts_in_tuning st \<and>
           (int (length (ts_world st)) = n_trial \<or> \<not> has_next (ts_tuner st) \<or>
            ts_best_iter st + es' \<le> int (length (ts_world st)))"
proof -
  define st0 where "st0 = (mk_tuner_state t [] :: ('t, 'c, ('c \<times> measure_result) list) tune_state)
    \<lparr>ts_n_trial := Some n_trial, ts_early_stopping := Some es', ts_in_tuning := True,
     ts_i := 0, ts_error_ct := 0, ts_errors := []\<rparr>"
  have f: "ts_world st0 = []" "ts_tuner st0 = t" "ts_i st0 = 0" "\<not> ts_debug st0" "best_of flop [] st0"
    by (simp_all add: st0_def mk_tuner_state_def best_of_def)
  obtain st where st: "tune_loop env n_trial es' False st0 = Some (Inr (), st)"
    "served (map fst (ts_world st)) (ts_tuner st)" "best_of flop (ts_world st) st"
    "ts_i st = int (length (ts_world st))" "ts_i st \<le> n_trial"
    "ts_i st = n_trial \<or> \<not> has_next (ts_tuner st) \<or> ts_best_iter st + es' \<le> ts_i st"
    using tune_loop_best [of m, OF m np, where st = st0 and flop = flop and n_trial = n_trial and es = es' and lvl = False] assms(5,6) f unfolding env_def by auto
  let ?st = "st\<lparr>ts_no_valid := (ts_error_ct st = ts_i st), ts_in_tuning := False\<rparr>"
  have "tune env n_trial es si (mk_tuner_state t []) = Some (Inr (), ?st)"
    using st(1) assms(7) by (simp add: tune_def Let_def es'_def [symmetric] st0_def mk_tuner_state_def)
  moreover have "best_of flop (ts_world ?st) ?st" using best_of_cong [OF st(3), of ?st] by simp
  ultimately show ?thesis using st(2,4-) by (intro exI [of _ ?st]) auto
qed

end

subsection \<open>The index based tuners keep the contract\<close>

text \<open>\<^verbatim>\<open>Tuner.update\<close> of the base class does nothing, and the index based tuners inherit it.\<close>

definition base_update :: "'c list \<Rightarrow> 'r list \<Rightarrow> 't \<Rightarrow> ('t, unit) outcome" where
  "base_update cs rs t = (Inr (), t)"

definition grid_served :: "int \<Rightarrow> int \<Rightarrow> config_entity list \<Rightarrow> index_tuner \<Rightarrow> bool" where
  "grid_served lo n h t \<longleftrightarrow>
     it_ok t \<and> it_index_offset t = lo \<and> it_range_length t = n \<and> map ce_index h = [lo .. lo + it_counter t - 1]"

definition random_served :: "int \<Rightarrow> int \<Rightarrow> config_entity list \<Rightarrow> random_tuner \<Rightarrow> bool" where
  "random_served lo n h t \<longleftrightarrow>
     rt_ok t \<and> it_index_offset t = lo \<and> it_range_length t = n \<and> map ce_index h = rt_visited t"

interpretation grid: tuner_run "grid_served lo m" it_has_next grid_next_batch base_update for lo m
proof unfold_locales
  fix h t n
  assume s: "grid_served lo m h t" and hn: "it_has_next t" and n: "0 < (n :: nat)"
  obtain cs t' where g: "grid_next_batch n t = (Inr cs, t')" "it_ok t'" "it_range_length t' = it_range_length t"
    "it_index_offset t' = it_index_offset t" "it_counter t' = min (it_counter t + int n) (it_range_length t)"
    "map ce_index cs = [it_index_offset t + it_counter t .. it_index_offset t + it_counter t' - 1]"
    using grid_next_batch_indices [of t n] s by (auto simp: grid_served_def)
  have c: "it_counter t < it_counter t'" "it_counter t' \<le> it_counter t + int n" "0 \<le> it_counter t"
    using g(5) hn n s by (auto simp: it_has_next_def grid_served_def it_ok_def)
  have "length cs = nat (it_counter t' - it_counter t)" using arg_cong [OF g(6), of length] by simp
  with c have "cs \<noteq> []" "length cs \<le> n" by auto
  moreover have "grid_served lo m (h @ cs) t'"
    using s g(2-4,6) c upto_join [of lo "lo + it_counter t" "lo + it_counter t' - 1"]
    by (simp add: grid_served_def)
  ultimately show "\<exists>cs t'. grid_next_batch n t = (Inr cs, t') \<and> grid_served lo m (h @ cs) t' \<and> cs \<noteq> [] \<and> length cs \<le> n"
    using g(1) by blast
qed (simp add: base_update_def)

interpretation random: tuner_run "random_served lo m" it_has_next "random_next_batch rnd" base_update for lo m rnd
proof unfold_locales
  fix h t n
  assume s: "random_served lo m h t" and hn: "it_has_next t" and n: "0 < (n :: nat)"
  obtain cs t' where g: "random_next_batch rnd n t = (Inr cs, t')" "rt_ok t'" "it_range_length t' = it_range_length t"
    "it_index_offset t' = it_index_offset t"
    "rt_visited t' = rt_visited t @ map ce_index cs" "it_counter t' = min (it_counter t + int n) (it_range_length t)"
    "int (length cs) = it_counter t' - it_counter t"
    using random_next_batch_indices [of t rnd n] s by (auto simp: random_served_def)
  have "cs \<noteq> [] \<and> length cs \<le> n" using g(6,7) hn n by (auto simp: it_has_next_def)
  then show "\<exists>cs t'. random_next_batch rnd n t = (Inr cs, t') \<and> random_served lo m (h @ cs) t' \<and> cs \<noteq> [] \<and> length cs \<le> n"
    using g(1-5) s by (auto simp: random_served_def)
qed (simp add: base_update_def)

subsection \<open>Properties\<close>

text \<open>
  [C9] Tuning with the grid search over a ready space ends, for any number of trials, degree of
  parallelism, early stopping and measurement that answers each input: it measures at most
  \<^verbatim>\<open>n_trial\<close> configurations, in the order of their indices and each once; the configuration it keeps
  is the one at \<^verbatim>\<open>best_iter\<close> in the log and none is faster; and it stops early only because the space
  is exhausted or the best has not improved for \<^verbatim>\<open>early_stopping\<close> trials.
\<close>

theorem grid_tuning_finds_best:
  fixes m :: "(config_entity \<times> measure_result) list \<Rightarrow> config_entity list \<Rightarrow> measure_result list"
  assumes "\<And>h cs. length (m h cs) = length cs" and "\<And>h cs. list_all explained (m h cs)"
    and "0 < n_parallel" and "cs_ready space" and "0 \<le> n_trial" and "0 < early_stopping"
  shows "\<exists>t st. mk_index_tuner space None = Inr t \<and>
           tune \<lparr>te_has_next = it_has_next, te_next_batch = grid_next_batch, te_update = base_update,
                 te_measure = (\<lambda>cs h. (m h cs, h)), te_callbacks = [\<lambda>cs rs h. h @ zip cs rs],
                 te_flop = flop, te_n_parallel = n_parallel\<rparr>
             n_trial (Some early_stopping) CHR ''G'' (mk_tuner_state t []) = Some (Inr (), st) \<and>
           int (length (ts_world st)) \<le> n_trial \<and>
           map ce_index (map fst (ts_world st)) = [0 .. int (length (ts_world st)) - 1] \<and>
           best_of flop (ts_world st) st \<and>
           (int (length (ts_world st)) = min n_trial (int (prod_list (space_dims space))) \<or>
            ts_best_iter st + early_stopping \<le> int (length (ts_world st)))"
proof -
  let ?N = "int (prod_list (space_dims space))"
  obtain t where t: "mk_index_tuner space None = Inr t" "it_ok t" "it_counter t = 0" "it_index_offset t = 0"
    "it_range_length t = ?N"
    using mk_index_tuner_ok [OF assms(4), of None] by (auto simp: range_fits_def range_of_def)
  have "grid_served 0 ?N [] t" using t by (simp add: grid_served_def)
  from grid.tune_best [of m, OF assms(1-3) this assms(5), where flop = flop and es = "Some early_stopping" and si = "CHR ''G''"]
  obtain st where st: "tune \<lparr>te_has_next = it_has_next, te_next_batch = grid_next_batch, te_update = base_update,
                 te_measure = (\<lambda>cs h. (m h cs, h)), te_callbacks = [\<lambda>cs rs h. h @ zip cs rs],
                 te_flop = flop, te_n_parallel = n_parallel\<rparr>
             n_trial (Some early_stopping) CHR ''G'' (mk_tuner_state t []) = Some (Inr (), st)"
    "grid_served 0 ?N (map fst (ts_world st)) (ts_tuner st)" "best_of flop (ts_world st) st"
    "int (length (ts_world st)) \<le> n_trial"
    "int (length (ts_world st)) = n_trial \<or> \<not> it_has_next (ts_tuner st) \<or>
       ts_best_iter st + early_stopping \<le> int (length (ts_world st))"
    using assms(6) by (auto simp: si_prefixes_def)
  have g: "it_ok (ts_tuner st)" "it_range_length (ts_tuner st) = ?N"
    "map ce_index (map fst (ts_world st)) = [0 .. it_counter (ts_tuner st) - 1]"
    using st(2) by (simp_all add: grid_served_def)
  have "length (ts_world st) = nat (it_counter (ts_tuner st))" using arg_cong [OF g(3), of length] by simp
  then have len: "int (length (ts_world st)) = it_counter (ts_tuner st)" using g(1) by (simp add: it_ok_def)
  then have "int (length (ts_world st)) = min n_trial ?N \<or> ts_best_iter st + early_stopping \<le> int (length (ts_world st))"
    using st(4,5) g(1,2) by (auto simp: it_has_next_def it_ok_def)
  with t(1) st(1,3,4) g(3) len show ?thesis by (intro exI [of _ t] exI [of _ st]) simp
qed

theorem grid_tuning_finds_best_witness:
  "\<exists>t st. mk_index_tuner demo_space None = Inr t \<and>
     tune \<lparr>te_has_next = it_has_next, te_next_batch = grid_next_batch, te_update = base_update,
           te_measure = (\<lambda>cs h. (map (\<lambda>c. \<lparr>mr_error_no = 0, mr_costs = [1 / (1 + of_int (ce_index c))], mr_errors = []\<rparr>) cs, h)),
           te_callbacks = [\<lambda>cs rs h. h @ zip cs rs], te_flop = 1, te_n_parallel = 2\<rparr>
       5 (Some 100) CHR ''G'' (mk_tuner_state t []) = Some (Inr (), st) \<and>
     map ce_index (map fst (ts_world st)) = [0 .. 4]"
proof -
  let ?m = "\<lambda>h :: (config_entity \<times> measure_result) list. map (\<lambda>c. \<lparr>mr_error_no = 0, mr_costs = [1 / (1 + of_int (ce_index c))], mr_errors = []\<rparr>)"
  have 1: "length (?m h cs) = length cs" "list_all explained (?m h cs)" for h cs
    by (simp_all add: list_all_iff explained_def)
  have 2: "cs_ready demo_space"
    by (simp add: cs_ready_def demo_space_simps space_len_def space_entities_def)
  from grid_tuning_finds_best [of ?m 2 demo_space 5 100 1, OF 1 _ 2]
  obtain t st where w: "mk_index_tuner demo_space None = Inr t"
    "tune \<lparr>te_has_next = it_has_next, te_next_batch = grid_next_batch, te_update = base_update,
           te_measure = (\<lambda>cs h. (?m h cs, h)), te_callbacks = [\<lambda>cs rs h. h @ zip cs rs], te_flop = 1, te_n_parallel = 2\<rparr>
       5 (Some 100) CHR ''G'' (mk_tuner_state t []) = Some (Inr (), st)"
    "int (length (ts_world st)) \<le> 5" "map ce_index (map fst (ts_world st)) = [0 .. int (length (ts_world st)) - 1]"
    "best_of 1 (ts_world st) st"
    "int (length (ts_world st)) = min 5 6 \<or> ts_best_iter st + 100 \<le> int (length (ts_world st))"
    by (auto simp: demo_space_simps)
  have "0 \<le> ts_best_iter st" using w(5) by (auto simp: best_of_def split: option.splits)
  with w(3,6) have "int (length (ts_world st)) = 5" by auto
  with w(1,2,4) show ?thesis by auto
qed

text \<open>
  [C12] Tuning with the random search, with as many trials as the space has points and an early
  stopping beyond that, ends after having measured every configuration exactly once, whatever the
  random draws; the configuration it keeps is therefore the fastest of the whole space.
\<close>

theorem random_tuning_exhaustive:
  fixes m :: "(config_entity \<times> measure_result) list \<Rightarrow> config_entity list \<Rightarrow> measure_result list"
  assumes "\<And>h cs. length (m h cs) = length cs" and "\<And>h cs. list_all explained (m h cs)"
    and "0 < n_parallel" and "cs_ready space" and "int (prod_list (space_dims space)) \<le> n_trial"
    and "int (prod_list (space_dims space)) < early_stopping"
  shows "\<exists>t st. mk_random_tuner space None pos = Inr t \<and>
           tune \<lparr>te_has_next = it_has_next, te_next_batch = random_next_batch rnd, te_update = base_update,
                 te_measure = (\<lambda>cs h. (m h cs, h)), te_callbacks = [\<lambda>cs rs h. h @ zip cs rs],
                 te_flop = flop, te_n_parallel = n_parallel\<rparr>
             n_trial (Some early_stopping) CHR ''G'' (mk_tuner_state t []) = Some (Inr (), st) \<and>
           mset (map ce_index (map fst (ts_world st))) = mset [0 .. int (prod_list (space_dims space)) - 1] \<and>
           best_of flop (ts_world st) st"
proof -
  let ?N = "int (prod_list (space_dims space))"
  obtain t where t: "mk_random_tuner space None pos = Inr t" "rt_ok t" "rt_visited t = []" "it_index_offset t = 0"
    "it_range_length t = ?N"
    using random_init_ok [OF assms(4), of None pos] by (auto simp: range_fits_def range_of_def)
  have "random_served 0 ?N [] t" using t by (simp add: random_served_def)
  from random.tune_best [of m, OF assms(1-3) this, where flop = flop and es = "Some early_stopping" and
      si = "CHR ''G''" and n_trial = n_trial and rnd = rnd] assms(5,6)
  obtain st where st: "tune \<lparr>te_has_next = it_has_next, te_next_batch = random_next_batch rnd, te_update = base_update,
                 te_measure = (\<lambda>cs h. (m h cs, h)), te_callbacks = [\<lambda>cs rs h. h @ zip cs rs],
                 te_flop = flop, te_n_parallel = n_parallel\<rparr>
             n_trial (Some early_stopping) CHR ''G'' (mk_tuner_state t []) = Some (Inr (), st)"
    "random_served 0 ?N (map fst (ts_world st)) (ts_tuner st)" "best_of flop (ts_world st) st"
    "int (length (ts_world st)) = n_trial \<or> \<not> it_has_next (ts_tuner st) \<or>
       ts_best_iter st + early_stopping \<le> int (length (ts_world st))"
    by (auto simp: si_prefixes_def)
  let ?t = "ts_tuner st"
  have g: "rt_ok ?t" "it_range_length ?t = ?N" "it_index_offset ?t = 0"
    "map ce_index (map fst (ts_world st)) = rt_visited ?t"
    using st(2) by (simp_all add: random_served_def)
  have m: "mset (remaining ?t) + mset (rt_visited ?t) = mset [0 .. ?N - 1]"
    using g by (simp add: rt_ok_def)
  have rem: "length (remaining ?t) = nat (rt_rand_max ?t)" by (simp add: remaining_def)
  have "length (remaining ?t) + length (rt_visited ?t) = nat ?N"
    using arg_cong [OF m, of size] by simp
  then have len: "int (length (ts_world st)) = ?N - rt_rand_max ?t" "0 \<le> rt_rand_max ?t"
    using rem g(1) arg_cong [OF g(4), of length] by (auto simp: rt_ok_def)
  have "0 \<le> ts_best_iter st" using st(3) by (auto simp: best_of_def split: option.splits)
  then have "rt_rand_max ?t = 0"
    using st(4) len assms(5,6) g(1,2) by (auto simp: it_has_next_def rt_ok_def it_ok_def)
  then have "remaining ?t = []" by (simp add: remaining_def)
  then have "mset (map ce_index (map fst (ts_world st))) = mset [0 .. ?N - 1]" using m unfolding g(4) by simp
  then show ?thesis using t(1) st(1,3) by blast
qed

theorem random_tuning_exhaustive_witness:
  "\<exists>t st. mk_random_tuner demo_space None 0 = Inr t \<and>
     tune \<lparr>te_has_next = it_has_next, te_next_batch = random_next_batch (\<lambda>k. 5 * k + 2), te_update = base_update,
           te_measure = (\<lambda>cs h. (map (\<lambda>c. \<lparr>mr_error_no = 0, mr_costs = [1], mr_errors = []\<rparr>) cs, h)),
           te_callbacks = [\<lambda>cs rs h. h @ zip cs rs], te_flop = 1, te_n_parallel = 4\<rparr>
       6 (Some 7) CHR ''G'' (mk_tuner_state t []) = Some (Inr (), st) \<and>
     mset (map ce_index (map fst (ts_world st))) = mset [0 .. 5] \<and> best_of 1 (ts_world st) st"
proof -
  let ?m = "\<lambda>h :: (config_entity \<times> measure_result) list. map (\<lambda>c :: config_entity. \<lparr>mr_error_no = 0, mr_costs = [1], mr_errors = []\<rparr>)"
  have 1: "length (?m h cs) = length cs" "list_all explained (?m h cs)" for h cs
    by (simp_all add: list_all_iff explained_def)
  have 2: "cs_ready demo_space"
    by (simp add: cs_ready_def demo_space_simps space_len_def space_entities_def)
  from random_tuning_exhaustive [of ?m 4 demo_space 6 7 0 "\<lambda>k. 5 * k + 2" 1, OF 1 _ 2]
  show ?thesis by (simp add: demo_space_simps)
qed

end
