(* ===== verification/Config_Entity.thy ===== *)
theory Config_Entity
  imports Config_Space
begin

section \<open>Configurations: features and JSON form\<close>

text \<open>
  \<^verbatim>\<open>ConfigEntity\<close> of \<^verbatim>\<open>src/python/tvm/autotvm/task/space.py\<close>: the flattened feature vector that feeds the
  cost models, and the conversion to and from the dictionary that the tuning log keeps as JSON.
\<close>

subsection \<open>Features and JSON\<close>

definition ann_to_number :: "(string, nat) dict" where
  "ann_to_number =
     [(''none'', 0), (''vec'', 1), (''unroll'', 2),
      (''blockIdx.x'', 3), (''blockIdx.y'', 4), (''blockIdx.z'', 5),
      (''threadIdx.x'', 6), (''threadIdx.y'', 7), (''threadIdx.z'', 8),
      (''vthread'', 9), (''fuse'', 10)]"

definition ann_one_hot :: "pyval \<Rightarrow> pyval list res" where
  "ann_one_hot ann =
     (case ann of
        PStr w \<Rightarrow> bindE (dict_get ann_to_number w) (\<lambda>k.
                    Inr ((replicate (length ann_to_number) (PInt 0))[k := PInt 1]))
      | PList _ \<Rightarrow> Inl TypeError
      | _ \<Rightarrow> Inl KeyError)"

definition flatten_entity :: "entity \<Rightarrow> pyval list res" where
  "flatten_entity v =
     (case v of
        ESplit tiles \<Rightarrow> py_elems tiles
      | EReorder perm \<Rightarrow> py_elems perm
      | EAnnotate anns \<Rightarrow>
          bindE (py_elems anns) (\<lambda>as. bindE (mapE ann_one_hot as) (\<lambda>hs. Inr (concat hs)))
      | EOther val \<Rightarrow> Inr [val])"

text \<open>The entries of the feature vector, before \<^verbatim>\<open>np.array\<close> converts them to 32-bit floats.\<close>

definition get_flatten_feature :: "'z config_space_scheme \<Rightarrow> pyval list res" where
  "get_flatten_feature ce =
     bindE (mapE (\<lambda>(name, v). flatten_entity v) (cs_entity_map ce)) (\<lambda>fs. Inr (concat fs))"

text \<open>The keys of the dictionary are the entities themselves.\<close>

definition get_other_option :: "'z config_space_scheme \<Rightarrow> (entity \<times> pyval) list" where
  "get_other_option ce =
     concat (map (\<lambda>(name, x). case x of EOther val \<Rightarrow> [(x, val)] | _ \<Rightarrow> []) (cs_entity_map ce))"

record json_dict =
  jd_index :: int
  jd_code_hash :: "string option"
  jd_entity :: "(string \<times> string \<times> pyval) list"

definition entity_json :: "entity \<Rightarrow> string \<times> pyval" where
  "entity_json v =
     (case v of
        ESplit tiles \<Rightarrow> (''sp'', tiles)
      | EReorder perm \<Rightarrow> (''re'', perm)
      | EAnnotate anns \<Rightarrow> (''an'', anns)
      | EOther val \<Rightarrow> (''ot'', val))"

definition to_json_dict :: "config_entity \<Rightarrow> json_dict" where
  "to_json_dict ce =
     \<lparr>jd_index = ce_index ce, jd_code_hash = cs_code_hash ce,
      jd_entity = map (\<lambda>(k, v). (k, entity_json v)) (cs_entity_map ce)\<rparr>"

definition entity_of_json :: "string \<Rightarrow> pyval \<Rightarrow> entity res" where
  "entity_of_json knob_type knob_args =
     (if knob_type = ''sp'' then Inr (ESplit knob_args)
      else if knob_type = ''re'' then Inr (EReorder knob_args)
      else if knob_type = ''an'' then Inr (EAnnotate knob_args)
      else if knob_type = ''ot'' then Inr (EOther knob_args)
      else Inl RuntimeError)"

definition from_json_dict :: "json_dict \<Rightarrow> config_entity res" where
  "from_json_dict jd =
     bindE (foldE (\<lambda>emap (key, knob_type, knob_args).
              bindE (entity_of_json knob_type knob_args) (\<lambda>ent. Inr (AList.update key ent emap)))
              [] (jd_entity jd))
       (\<lambda>emap. Inr (mk_config_entity (jd_index jd) (jd_code_hash jd) emap []))"

text \<open>Writing the dictionary to a log line and reading it back.\<close>

definition json_dict_round :: "json_dict \<Rightarrow> json_dict res" where
  "json_dict_round jd =
     bindE (mapE (\<lambda>(k, t, v). bindE (json_round v) (\<lambda>v'. Inr (k, t, v'))) (jd_entity jd))
       (\<lambda>es. Inr (jd\<lparr>jd_entity := es\<rparr>))"



subsection \<open>What JSON keeps\<close>

definition py_scalar :: "pyval \<Rightarrow> bool" where
  "py_scalar v = (case v of PList _ \<Rightarrow> False | PTuple _ \<Rightarrow> False | PRange _ _ \<Rightarrow> False | _ \<Rightarrow> True)"

definition list_form :: "pyval \<Rightarrow> pyval" where
  "list_form v = (case v of PTuple xs \<Rightarrow> PList xs | _ \<Rightarrow> v)"

definition flat_seq :: "pyval \<Rightarrow> bool" where
  "flat_seq v = (case v of PList xs \<Rightarrow> list_all py_scalar xs | PTuple xs \<Rightarrow> list_all py_scalar xs | _ \<Rightarrow> False)"

text \<open>An entity that JSON can hold: a list or tuple of scalars, or a scalar option.\<close>

definition plain_entity :: "entity \<Rightarrow> bool" where
  "plain_entity ent =
     (case ent of ESplit v \<Rightarrow> flat_seq v | EReorder v \<Rightarrow> flat_seq v | EAnnotate v \<Rightarrow> flat_seq v
      | EOther v \<Rightarrow> py_scalar v)"

definition entity_list_form :: "entity \<Rightarrow> entity" where
  "entity_list_form ent =
     (case ent of ESplit v \<Rightarrow> ESplit (list_form v) | EReorder v \<Rightarrow> EReorder (list_form v)
      | EAnnotate v \<Rightarrow> EAnnotate (list_form v) | EOther v \<Rightarrow> EOther (list_form v))"

lemma json_round_scalar: "py_scalar v \<Longrightarrow> json_round v = Inr v"
  by (cases v) (auto simp: py_scalar_def)

lemma json_round_flat_seq: "flat_seq v \<Longrightarrow> json_round v = Inr (list_form v)"
  by (cases v) (auto simp: flat_seq_def list_form_def list_all_iff json_round_scalar mapE_map_Inr
      [where g = "\<lambda>x. x"])

lemma list_form_scalar: "py_scalar v \<Longrightarrow> list_form v = v"
  by (cases v) (auto simp: py_scalar_def list_form_def)

lemma py_elems_list_form: "flat_seq v \<Longrightarrow> py_elems (list_form v) = py_elems v"
  by (cases v) (auto simp: flat_seq_def list_form_def)

lemma entity_json_round:
  "plain_entity ent \<Longrightarrow>
     bindE (json_round (snd (entity_json ent))) (\<lambda>v. entity_of_json (fst (entity_json ent)) v) =
       Inr (entity_list_form ent)"
  by (cases ent) (auto simp: plain_entity_def entity_json_def entity_of_json_def entity_list_form_def
      json_round_flat_seq json_round_scalar list_form_scalar)

lemma flatten_entity_list_form: "plain_entity ent \<Longrightarrow> flatten_entity (entity_list_form ent) = flatten_entity ent"
  by (cases ent) (auto simp: plain_entity_def entity_list_form_def flatten_entity_def
      py_elems_list_form list_form_scalar)

lemma mapE_flatten_list_form:
  "list_all (\<lambda>(k, ent). plain_entity ent) xs \<Longrightarrow>
     mapE (\<lambda>(name, v). flatten_entity v) (map (\<lambda>(k, ent). (k, entity_list_form ent)) xs) =
     mapE (\<lambda>(name, v). flatten_entity v) xs"
  by (induction xs) (auto simp: flatten_entity_list_form)

lemma update_new: "k \<notin> fst ` set al \<Longrightarrow> AList.update k v al = al @ [(k, v)]"
  by (induction al) auto

lemma from_json_fold:
  assumes "list_all (\<lambda>(k, ent). plain_entity ent) xs" and "distinct (map fst (acc @ xs))"
  shows "bindE (mapE (\<lambda>(k, t, v). bindE (json_round v) (\<lambda>v'. Inr (k, t, v'))) (map (\<lambda>(k, v). (k, entity_json v)) xs))
           (\<lambda>es. foldE (\<lambda>emap (key, knob_type, knob_args).
              bindE (entity_of_json knob_type knob_args) (\<lambda>ent. Inr (AList.update key ent emap))) acc es) =
         Inr (acc @ map (\<lambda>(k, ent). (k, entity_list_form ent)) xs)"
  using assms
proof (induction xs arbitrary: acc)
  case Nil
  then show ?case by simp
next
  case (Cons x xs)
  obtain k ent where x: "x = (k, ent)" by (cases x)
  obtain t v where tv: "entity_json ent = (t, v)" by (cases "entity_json ent")
  have "plain_entity ent" using Cons.prems(1) x by simp
  from entity_json_round [OF this] tv obtain v' where
    v': "json_round v = Inr v'" "entity_of_json t v' = Inr (entity_list_form ent)"
    by (auto simp: bindE_eq_Inr)
  have "k \<notin> fst ` set acc" using Cons.prems(2) x by auto
  then have up: "AList.update k (entity_list_form ent) acc = acc @ [(k, entity_list_form ent)]" by (rule update_new)
  have ih: "bindE (mapE (\<lambda>(k, t, v). bindE (json_round v) (\<lambda>v'. Inr (k, t, v'))) (map (\<lambda>(k, v). (k, entity_json v)) xs))
         (\<lambda>es. foldE (\<lambda>emap (key, knob_type, knob_args).
            bindE (entity_of_json knob_type knob_args) (\<lambda>ent. Inr (AList.update key ent emap)))
            (acc @ [(k, entity_list_form ent)]) es) =
       Inr ((acc @ [(k, entity_list_form ent)]) @ map (\<lambda>(k, ent). (k, entity_list_form ent)) xs)"
    using Cons.prems x by (intro Cons.IH) auto
  then obtain es where
    es: "mapE (\<lambda>(k, t, v). bindE (json_round v) (\<lambda>v'. Inr (k, t, v'))) (map (\<lambda>(k, v). (k, entity_json v)) xs) = Inr es"
    unfolding bindE_eq_Inr by blast
  show ?case using ih unfolding x by (simp add: tv v' es up)
qed

lemma json_round_error: "json_round v = Inl e \<Longrightarrow> e = TypeError"
proof (induction v arbitrary: e rule: json_round.induct)
  case (1 xs)
  have "mapE json_round ys = Inl e \<Longrightarrow> set ys \<subseteq> set xs \<Longrightarrow> e = TypeError" for ys
    by (induction ys) (use "1.IH" in \<open>auto simp: bindE_eq_Inl\<close>)
  then show ?case using "1.prems" by (auto simp: bindE_eq_Inl)
next
  case (2 xs)
  have "mapE json_round ys = Inl e \<Longrightarrow> set ys \<subseteq> set xs \<Longrightarrow> e = TypeError" for ys
    by (induction ys) (use "2.IH" in \<open>auto simp: bindE_eq_Inl\<close>)
  then show ?case using "2.prems" by (auto simp: bindE_eq_Inl)
qed auto

lemma json_dict_round_range:
  assumes "(k, t, PRange lo hi) \<in> set (jd_entity jd)"
  shows "json_dict_round jd = Inl TypeError"
proof -
  let ?f = "\<lambda>(k, t, v). bindE (json_round v) (\<lambda>v'. Inr (k, t, v'))"
  have "mapE ?f es = Inl TypeError" if "(k, t, PRange lo hi) \<in> set es"
    for es :: "(string \<times> string \<times> pyval) list"
    using that
  proof (induction es)
    case (Cons e es)
    show ?case
    proof (cases "?f e")
      case (Inl err)
      then have "err = TypeError" by (auto simp: bindE_eq_Inl split: prod.splits dest: json_round_error)
      with Inl show ?thesis by simp
    next
      case (Inr r)
      then have "e \<noteq> (k, t, PRange lo hi)" by auto
      with Cons have "mapE ?f es = Inl TypeError" by auto
      with Inr show ?thesis by (simp only: mapE.simps bindE_Inr bindE_Inl)
    qed
  qed simp
  with assms show ?thesis by (simp add: json_dict_round_def)
qed

subsection \<open>The shape of the entities\<close>










subsection \<open>Feature widths\<close>







subsection \<open>Properties\<close>

text \<open>
  [C24] Writing a configuration to the log and reading it back gives the configuration with the same
  index, code hash and knobs in the same order, tuples having become lists, and with the same
  feature vector, whenever its entities are flat lists or tuples and its options scalars.
\<close>

theorem config_json_roundtrip:
  assumes "distinct (map fst (cs_entity_map ce))"
    and "list_all (\<lambda>(k, ent). plain_entity ent) (cs_entity_map ce)"
  shows "\<exists>ce'. bindE (json_dict_round (to_json_dict ce)) from_json_dict = Inr ce' \<and>
           ce_index ce' = ce_index ce \<and> cs_code_hash ce' = cs_code_hash ce \<and>
           cs_entity_map ce' = map (\<lambda>(k, ent). (k, entity_list_form ent)) (cs_entity_map ce) \<and>
           get_flatten_feature ce' = get_flatten_feature ce"
proof -
  let ?m = "map (\<lambda>(k, ent). (k, entity_list_form ent)) (cs_entity_map ce)"
  let ?ce = "mk_config_entity (ce_index ce) (cs_code_hash ce) ?m []"
  from from_json_fold [OF assms(2), of "[]"] assms(1)
  have "bindE (json_dict_round (to_json_dict ce)) from_json_dict = Inr ?ce"
    by (auto simp: json_dict_round_def to_json_dict_def from_json_dict_def bindE_eq_Inr)
  moreover have "mapE (\<lambda>(name, v). flatten_entity v) ?m = mapE (\<lambda>(name, v). flatten_entity v) (cs_entity_map ce)"
    using assms(2) by (rule mapE_flatten_list_form)
  ultimately show ?thesis by (intro exI [of _ ?ce]) (simp add: get_flatten_feature_def)
qed

theorem config_json_roundtrip_witness:
  "\<exists>ce'. bindE (json_dict_round (to_json_dict
             (mk_config_entity 3 None [(''t'', ESplit (PList [PInt (-1), PInt 4])),
                                       (''r'', EReorder (PTuple [PInt 1, PInt 0]))] []))) from_json_dict = Inr ce' \<and>
     cs_entity_map ce' = [(''t'', ESplit (PList [PInt (-1), PInt 4])), (''r'', EReorder (PList [PInt 1, PInt 0]))]"
  using config_json_roundtrip [of "mk_config_entity 3 None [(''t'', ESplit (PList [PInt (-1), PInt 4])),
      (''r'', EReorder (PTuple [PInt 1, PInt 0]))] []"]
  by (force simp: plain_entity_def flat_seq_def py_scalar_def entity_list_form_def list_form_def)

text \<open>
  [C38] No configuration of a space with an \<^verbatim>\<open>identity\<close> reorder knob can be written to the log:
  the knob holds a \<^verbatim>\<open>range\<close> object, which the JSON encoder refuses.
\<close>

theorem identity_reorder_not_serialisable:
  assumes "cs_built setiter cs" and "int (prod_list (space_dims cs)) < 2 ^ 63"
    and "mk_space setiter (ArgReorder kw) axes ''identity'' = Inr sp" and "(name, sp) \<in> set (cs_space_map cs)"
    and "0 \<le> i" and "i < int (prod_list (space_dims cs))"
  shows "\<exists>ce. fst (cs_get i cs) = Inr ce \<and> json_dict_round (to_json_dict ce) = Inl TypeError"
proof -
  have rdy: "cs_ready cs" using cs_wf_ready [OF cs_built_wf] assms(1,2) by blast
  let ?ks = "digits (space_dims cs) (nat i)"
  let ?ce = "mk_config_entity i (cs_code_hash cs) (pick_entities (cs_space_map cs) ?ks) (cs_constraints cs)"
  have get: "fst (cs_get i cs) = Inr ?ce" using rdy assms(5,6) by (simp add: cs_get_digits)
  have sp: "space_entities sp = [EReorder (PRange 0 (int (length axes)))]"
    using assms(3) by (auto simp: mk_space_def mk_reorder_space_def space_entities_def reorder_value_def)
  from assms(4) obtain j where j: "j < length (cs_space_map cs)" "cs_space_map cs ! j = (name, sp)"
    by (metis in_set_conv_nth)
  have pos: "\<forall>d \<in> set (space_dims cs). 0 < d" using rdy by (auto simp: cs_ready_def space_dims_def list_all_iff)
  have "space_dims cs ! j = 1" using j by (simp add: space_dims_def space_len_def sp)
  then have "?ks ! j = 0" using digits_bound [OF pos, of j "nat i"] j(1) by (simp add: space_dims_def)
  then have "pick_entities (cs_space_map cs) ?ks ! j = (name, EReorder (PRange 0 (int (length axes))))"
    using j by (simp add: pick_entities_def space_dims_def sp)
  moreover have "j < length (pick_entities (cs_space_map cs) ?ks)"
    using j(1) by (simp add: pick_entities_def space_dims_def)
  ultimately have "(name, EReorder (PRange 0 (int (length axes)))) \<in> set (cs_entity_map ?ce)"
    by (metis ce_entity_map_mk nth_mem)
  then have "(name, ''re'', PRange 0 (int (length axes))) \<in> set (jd_entity (to_json_dict ?ce))"
    by (force simp: to_json_dict_def entity_json_def)
  with get show ?thesis by (blast intro: json_dict_round_range)
qed

definition demo_reorder :: config_space where
  "demo_reorder = snd (define_reorder id ''r'' [AInt 4, AInt 8] ''identity''
     \<lparr>rk_interval = None, rk_candidate = None, rk_spatial = None, rk_reduce = None\<rparr> mk_config_space)"

lemma demo_reorder_simps:
  "cs_space_map demo_reorder = [(''r'', ReorderSp 2 [(KRange, [0, 1])])]" "space_dims demo_reorder = [1]"
  by (simp_all add: demo_reorder_def define_reorder_def add_new_transform_def mk_config_space_def mk_space_def
      mk_reorder_space_def space_getitem_def space_entities_def py_get_def Let_def space_dims_def space_len_def
      virtual_axis_def upt_rec)

lemma demo_reorder_built: "cs_built id demo_reorder"
proof -
  let ?kw = "\<lparr>rk_interval = None, rk_candidate = None, rk_spatial = None, rk_reduce = None\<rparr>"
  have "isl (fst (define_reorder id ''r'' [AInt 4, AInt 8] ''identity'' ?kw mk_config_space)) = False"
    by (simp add: define_reorder_def add_new_transform_def mk_config_space_def mk_space_def
        mk_reorder_space_def space_getitem_def space_entities_def py_get_def Let_def virtual_axis_def)
  then obtain outs where "define_reorder id ''r'' [AInt 4, AInt 8] ''identity'' ?kw mk_config_space = (Inr outs, demo_reorder)"
    unfolding demo_reorder_def by (metis isl_def prod.collapse sum.exhaust)
  then show ?thesis unfolding define_reorder_def by (rule cs_built.knob [OF cs_built.empty])
qed

theorem identity_reorder_not_serialisable_witness:
  "\<exists>ce. fst (cs_get 0 demo_reorder) = Inr ce \<and> json_dict_round (to_json_dict ce) = Inl TypeError"
  by (rule identity_reorder_not_serialisable [OF demo_reorder_built, where
        kw = "\<lparr>rk_interval = None, rk_candidate = None, rk_spatial = None, rk_reduce = None\<rparr>" and
        axes = "[VAxis 0 [] 4, VAxis 1 [] 8]" and sp = "ReorderSp 2 [(KRange, [0, 1])]" and name = "''r''"])
    (simp_all add: demo_reorder_simps mk_space_def mk_reorder_space_def upt_rec)



end
