(* ===== verification/Fallback_Config.thy ===== *)
theory Fallback_Config
  imports Config_Space
begin

section \<open>Fallback configurations\<close>

text \<open>
  \<^verbatim>\<open>FallbackConfigEntity\<close> of \<^verbatim>\<open>src/python/tvm/autotvm/task/space.py\<close>: the greedy choice of tile sizes under
  constraints, and the choice guided by a reference log.
\<close>

subsection \<open>Fallback\<close>

definition mk_fallback_config :: config_space where
  "mk_fallback_config = mk_config_space\<lparr>cs_is_fallback := True\<rparr>"

definition cs_setitem :: "string \<Rightarrow> entity \<Rightarrow> 'z config_space_scheme \<Rightarrow> 'z config_space_scheme" where
  "cs_setitem name ent cs =
     cs\<lparr>cs_entity_map := AList.update name ent (cs_entity_map cs),
        cs_shared := removeAll name (cs_shared cs)\<rparr>"

definition entity_size :: "entity \<Rightarrow> pyval res" where
  "entity_size ent = (case ent of ESplit tiles \<Rightarrow> Inr tiles | _ \<Rightarrow> Inl AttributeError)"

definition entity_set_size :: "entity \<Rightarrow> nat \<Rightarrow> int \<Rightarrow> entity res" where
  "entity_set_size ent i f =
     bindE (entity_size ent) (\<lambda>tiles.
       case tiles of
         PList xs \<Rightarrow> if i < length xs then Inr (ESplit (PList (xs[i := PInt f]))) else Inl IndexError
       | _ \<Rightarrow> Inl TypeError)"

text \<open>The search for the largest admissible factor, with \<^verbatim>\<open>find\<close> starting at the last position.\<close>

fun fallback_find :: "int list \<Rightarrow> int \<Rightarrow> int \<Rightarrow> int \<Rightarrow> int" where
  "fallback_find [] j pos c = pos"
| "fallback_find (f # fs) j pos c = (if f > c then j - 1 else fallback_find fs (j + 1) pos c)"

fun fallback_loop :: "int list \<Rightarrow> nat \<Rightarrow> int \<Rightarrow> entity \<Rightarrow> (entity, unit) outcome" where
  "fallback_loop constraints 0 now ent = (Inr (), ent)"
| "fallback_loop constraints (Suc i) now ent =
     (case get_factors now of
        Inl e \<Rightarrow> (Inl e, ent)
      | Inr factors \<Rightarrow>
          let pos = fallback_find factors 0 (int (length factors) - 1) (constraints ! i)
          in if pos \<ge> 0 then
               (case entity_set_size ent i (factors ! nat pos) of
                  Inl e \<Rightarrow> (Inl e, ent)
                | Inr ent' \<Rightarrow> fallback_loop constraints i (now div (factors ! nat pos)) ent')
             else (Inl RuntimeError, ent))"

definition py_int :: "pyval \<Rightarrow> int res" where
  "py_int v = (case v of PInt n \<Rightarrow> Inr n | PBool b \<Rightarrow> Inr (of_bool b) | _ \<Rightarrow> Inl TypeError)"

definition entity_tiles :: "entity \<Rightarrow> int list res" where
  "entity_tiles ent = bindE (entity_size ent) (\<lambda>v. bindE (py_elems v) (mapE py_int))"

definition fallback_split ::
    "string \<Rightarrow> int list \<Rightarrow> 'z config_space_scheme \<Rightarrow> ('z config_space_scheme, unit) outcome" where
  "fallback_split name constraints cs =
     (case map_of (cs_space_map cs) name of
        None \<Rightarrow> (Inl KeyError, cs)
      | Some (SplitSp s) \<Rightarrow>
          if int (length constraints) \<noteq> sp_num_output s then (Inl AssertionError, cs)
          else (case map_of (cs_entity_map cs) name of
                  None \<Rightarrow> (Inl KeyError, cs)
                | Some ent \<Rightarrow>
                    (case fallback_loop (map (\<lambda>x. if x \<noteq> -1 then x else 10 ^ 10) constraints)
                            (nat (sp_num_output s)) (sp_product s) ent of
                       (r, ent') \<Rightarrow>
                         (r, cs\<lparr>cs_entity_map := AList.update name ent' (cs_entity_map cs),
                                cs_space_map :=
                                  (case entity_tiles ent' of
                                     Inr tiles \<Rightarrow>
                                       if name \<in> set (cs_shared cs)
                                       then AList.update name
                                              (SplitSp (s\<lparr>sp_entities := (sp_entities s)[0 := tiles]\<rparr>))
                                              (cs_space_map cs)
                                       else cs_space_map cs
                                   | Inl _ \<Rightarrow> cs_space_map cs)\<rparr>)))
      | Some _ \<Rightarrow> (Inl AssertionError, cs))"

definition is_split_space :: "transform_space \<Rightarrow> bool" where
  "is_split_space sp \<longleftrightarrow> (case sp of SplitSp _ \<Rightarrow> True | _ \<Rightarrow> False)"

definition space_product :: "transform_space \<Rightarrow> int" where
  "space_product sp = (case sp of SplitSp s \<Rightarrow> sp_product s | _ \<Rightarrow> 0)"

text \<open>One reference configuration: the score grows knob by knob and is compared after each.\<close>

fun match_knobs ::
    "(string \<times> int list) list \<Rightarrow> 'c config_space_scheme \<Rightarrow> rat \<Rightarrow> rat \<times> 'c config_space_scheme option
       \<Rightarrow> (rat \<times> 'c config_space_scheme option) res" where
  "match_knobs [] config score best = Inr best"
| "match_knobs ((knob_name, fs) # knobs) config score best =
     bindE (cs_getitem config knob_name) (\<lambda>ent.
     bindE (entity_tiles ent) (\<lambda>tiles.
     bindE (get_factors (np_prod tiles)) (\<lambda>factors.
       if fs = [] then Inl ZeroDivisionError
       else let score' = score + of_nat (card (set fs \<inter> set factors)) / of_nat (length fs)
            in match_knobs knobs config score'
                 (if score' > fst best then (score', Some config) else best))))"

definition mimic_knob ::
    "'c config_space_scheme \<Rightarrow> string \<Rightarrow> 'z config_space_scheme \<Rightarrow> ('z config_space_scheme, unit) outcome" where
  "mimic_knob best knob_name cs =
     (case bindE (cs_getitem best knob_name) entity_tiles of
        Inl e \<Rightarrow> (Inl e, cs)
      | Inr [] \<Rightarrow> (Inl IndexError, cs)
      | Inr (x # xs) \<Rightarrow> fallback_split knob_name (-1 # xs) cs)"

definition copy_knob ::
    "'c config_space_scheme \<Rightarrow> string \<Rightarrow> 'z config_space_scheme \<Rightarrow> ('z config_space_scheme, unit) outcome" where
  "copy_knob best knob_name cs =
     (case map_of (cs_space_map cs) knob_name of
        Some (SplitSp s) \<Rightarrow> (Inr (), cs)
      | _ \<Rightarrow> (case cs_getitem best knob_name of
                Inl e \<Rightarrow> (Inl e, cs)
              | Inr ent \<Rightarrow> (Inr (), cs_setitem knob_name ent cs)))"

definition fallback_with_reference_log ::
    "'c config_space_scheme list \<Rightarrow> 'z config_space_scheme \<Rightarrow> ('z config_space_scheme, unit) outcome" where
  "fallback_with_reference_log ref_log cs =
     (let knobs = filter (\<lambda>(name, sp). is_split_space sp) (cs_space_map cs)
      in case bindE (mapE (\<lambda>(name, sp). bindE (get_factors (space_product sp)) (\<lambda>fs. Inr (name, fs))) knobs)
               (\<lambda>fl. foldE (\<lambda>best config. match_knobs fl config 0 best) (0, None) ref_log) of
           Inl e \<Rightarrow> (Inl e, cs)
         | Inr (_, None) \<Rightarrow> (Inr (), cs)
         | Inr (_, Some best) \<Rightarrow>
             bindO (foldO (mimic_knob best) (map fst knobs) cs) (\<lambda>_ cs'.
               foldO (copy_knob best) (map fst (cs_space_map cs')) cs'))"




subsection \<open>The greedy choice\<close>

lemma fallback_find_eq:
  "fallback_find fs j pos c =
     (if list_all (\<lambda>f. f \<le> c) fs then pos else j + int (length (takeWhile (\<lambda>f. f \<le> c) fs)) - 1)"
  by (induction fs arbitrary: j) auto

lemma fallback_find_last:
  "fallback_find fs 0 (int (length fs) - 1) c = int (length (takeWhile (\<lambda>f. f \<le> c) fs)) - 1"
proof (cases "list_all (\<lambda>f. f \<le> c) fs")
  case True
  then have "takeWhile (\<lambda>f. f \<le> c) fs = fs" by (simp add: takeWhile_eq_all_conv list_all_iff)
  then have "length (takeWhile (\<lambda>f. f \<le> c) fs) = length fs" by (rule arg_cong)
  with True show ?thesis by (simp add: fallback_find_eq)
qed (simp add: fallback_find_eq)

text \<open>On the factors of a positive number the search finds the greatest one within the bound.\<close>

lemma fallback_pick:
  assumes "0 < now" and "1 \<le> c"
  obtains fs f where "get_factors now = Inr fs"
    "0 \<le> fallback_find fs 0 (int (length fs) - 1) c" "f = fs ! nat (fallback_find fs 0 (int (length fs) - 1) c)"
    "0 < f" "f dvd now" "f \<le> c" "\<And>d. 0 < d \<Longrightarrow> d dvd now \<Longrightarrow> d \<le> c \<Longrightarrow> d \<le> f"
proof -
  obtain fs where fs: "get_factors now = Inr fs" "sorted fs" "distinct fs" "set fs = {d. 0 < d \<and> d dvd now}"
    using get_factors_props [OF assms(1)] by blast
  define w where "w = takeWhile (\<lambda>f. f \<le> c) fs"
  define r where "r = dropWhile (\<lambda>f. f \<le> c) fs"
  have split: "fs = w @ r" by (simp add: w_def r_def)
  then have srt: "sorted w" "sorted r" using fs(2) by (simp_all add: sorted_append)
  have one: "1 \<in> set fs" using fs(4) by simp
  have all: "d \<in> set w" if "d \<in> set fs" "d \<le> c" for d
  proof (rule ccontr)
    assume "d \<notin> set w"
    with that(1) have d: "d \<in> set r" unfolding split by simp
    then obtain y ys where y: "r = y # ys" by (cases r) auto
    then have "\<not> y \<le> c" by (simp add: r_def dropWhile_eq_Cons_conv)
    with d y that(2) srt(2) show False by auto
  qed
  have ne: "w \<noteq> []" using all [OF one assms(2)] by auto
  then have "0 < length w" by simp
  have "fallback_find fs 0 (int (length fs) - 1) c = int (length w) - 1"
    unfolding w_def by (rule fallback_find_last)
  moreover have "int (length w) - 1 = int (length w - 1)" using \<open>0 < length w\<close> by linarith
  ultimately have pos: "fallback_find fs 0 (int (length fs) - 1) c = int (length w - 1)" by (rule trans)
  have f: "fs ! (length w - 1) = last w" using ne unfolding split by (simp add: nth_append last_conv_nth)
  have mem: "last w \<in> set w" using ne by simp
  then have "last w \<le> c" unfolding w_def by (rule set_takeWhileD [THEN conjunct2])
  moreover have "last w \<in> set fs" using mem unfolding split by simp
  moreover have "d \<le> last w" if "d \<in> set w" for d
  proof -
    obtain i where i: "i < length w" "d = w ! i" using \<open>d \<in> set w\<close> by (auto simp: in_set_conv_nth)
    then show ?thesis using ne srt(1) by (simp add: last_conv_nth sorted_nth_mono)
  qed
  ultimately show thesis using that [OF fs(1), of "last w"] pos f fs(4) all by simp
qed

text \<open>The tiles the loop chooses for the first \<open>i\<close> positions out of a remaining product.\<close>

definition greedy_tiles :: "int list \<Rightarrow> int \<Rightarrow> int list \<Rightarrow> bool" where
  "greedy_tiles constraints now tiles \<longleftrightarrow>
     prod_list tiles dvd now \<and>
     (\<forall>k < length tiles. 0 < tiles ! k \<and> tiles ! k \<le> constraints ! k \<and>
        (\<forall>d. 0 < d \<longrightarrow> d dvd now div prod_list (drop (Suc k) tiles) \<longrightarrow> d \<le> constraints ! k \<longrightarrow> d \<le> tiles ! k))"

lemma greedy_tiles_snoc:
  assumes "greedy_tiles cons (now div f) pre" and "0 < f" and "f dvd now" and "f \<le> cons ! length pre"
    and max: "\<And>d. 0 < d \<Longrightarrow> d dvd now \<Longrightarrow> d \<le> cons ! length pre \<Longrightarrow> d \<le> f"
  shows "greedy_tiles cons now (pre @ [f])"
proof -
  have "prod_list pre * f dvd (now div f) * f"
    using assms(1) by (simp add: greedy_tiles_def mult_dvd_mono)
  then have "prod_list (pre @ [f]) dvd now" using assms(3) by simp
  moreover have "0 < (pre @ [f]) ! k \<and> (pre @ [f]) ! k \<le> cons ! k \<and>
      (\<forall>d. 0 < d \<longrightarrow> d dvd now div prod_list (drop (Suc k) (pre @ [f])) \<longrightarrow> d \<le> cons ! k \<longrightarrow> d \<le> (pre @ [f]) ! k)"
    if "k < length (pre @ [f])" for k
  proof (cases "k < length pre")
    case True
    have "0 < x" if "x \<in> set (drop (Suc k) pre)" for x
      using assms(1) in_set_dropD [OF that] by (auto simp: greedy_tiles_def in_set_conv_nth)
    then have "0 < prod_list (drop (Suc k) pre)" by (rule prod_list_pos)
    then have "now div prod_list (drop (Suc k) (pre @ [f])) = now div f div prod_list (drop (Suc k) pre)"
      using True assms(2) by (simp add: zdiv_zmult2_eq mult.commute)
    with True assms(1) show ?thesis by (simp add: greedy_tiles_def nth_append)
  next
    case False
    then have "k = length pre" using that by simp
    then show ?thesis using assms(2,4) max by simp
  qed
  ultimately show ?thesis by (auto simp: greedy_tiles_def)
qed

lemma fallback_loop_greedy:
  assumes "0 < now" and "i \<le> length ts" and "\<And>k. k < i \<Longrightarrow> 1 \<le> cons ! k"
  shows "\<exists>pre. length pre = i \<and> greedy_tiles cons now pre \<and>
           fallback_loop cons i now (split_entity ts) = (Inr (), split_entity (pre @ drop i ts))"
  using assms
proof (induction i arbitrary: now ts)
  case 0
  then show ?case by (simp add: greedy_tiles_def)
next
  case (Suc i)
  obtain fs f where p: "get_factors now = Inr fs"
    "0 \<le> fallback_find fs 0 (int (length fs) - 1) (cons ! i)"
    "f = fs ! nat (fallback_find fs 0 (int (length fs) - 1) (cons ! i))"
    "0 < f" "f dvd now" "f \<le> cons ! i" "\<And>d. 0 < d \<Longrightarrow> d dvd now \<Longrightarrow> d \<le> cons ! i \<Longrightarrow> d \<le> f"
    using fallback_pick [OF Suc.prems(1), of "cons ! i"] Suc.prems(3) [of i] by (metis lessI)
  have set: "entity_set_size (split_entity ts) i f = Inr (split_entity (ts[i := f]))"
    using Suc.prems(2) by (simp add: entity_set_size_def entity_size_def split_entity_def map_update)
  have "0 < now div f" using Suc.prems(1) p(4,5) by (simp add: pos_imp_zdiv_pos_iff zdvd_imp_le)
  then obtain pre where pre: "length pre = i" "greedy_tiles cons (now div f) pre"
    "fallback_loop cons i (now div f) (split_entity (ts[i := f])) = (Inr (), split_entity (pre @ drop i (ts[i := f])))"
    using Suc.IH [of "now div f" "ts[i := f]"] Suc.prems(2,3) by auto
  have dr: "drop i (ts[i := f]) = f # drop (Suc i) ts"
    using Suc.prems(2) by (simp add: Cons_nth_drop_Suc [symmetric])
  have "greedy_tiles cons now (pre @ [f])"
    using pre(1,2) p(4-7) by (intro greedy_tiles_snoc) auto
  moreover have "fallback_loop cons (Suc i) now (split_entity ts) = (Inr (), split_entity ((pre @ [f]) @ drop (Suc i) ts))"
    using p(1,2) set pre(3) dr by (simp add: p(3) [symmetric])
  ultimately show ?case using pre(1) by (intro exI [of _ "pre @ [f]"]) simp
qed

lemma greedy_tiles_exact:
  assumes "greedy_tiles cons now tiles" and "tiles \<noteq> []" and "0 < now" and "now \<le> cons ! 0"
  shows "prod_list tiles = now"
proof -
  obtain t rest where ts: "tiles = t # rest" using assms(2) by (cases tiles) auto
  have dvd: "t * prod_list rest dvd now" using assms(1) ts by (simp add: greedy_tiles_def)
  have "x \<in> set rest \<Longrightarrow> 0 < x" for x using assms(1) ts by (force simp: greedy_tiles_def in_set_conv_nth)
  then have pos: "0 < prod_list rest" by (rule prod_list_pos)
  define q where "q = now div prod_list rest"
  have "prod_list rest dvd now" using dvd dvd_mult_right by blast
  then have q: "now = q * prod_list rest" by (simp add: q_def)
  then have "0 < q" using assms(3) pos by (simp add: zero_less_mult_iff)
  have "q * 1 \<le> q * prod_list rest" using \<open>0 < q\<close> pos by (intro mult_left_mono) auto
  then have "q \<le> cons ! 0" using q assms(4) by simp
  have "\<forall>d. 0 < d \<longrightarrow> d dvd now div prod_list (drop (Suc 0) tiles) \<longrightarrow> d \<le> cons ! 0 \<longrightarrow> d \<le> tiles ! 0"
    using assms(1,2) unfolding greedy_tiles_def by blast
  then have "q \<le> t" using \<open>0 < q\<close> \<open>q \<le> cons ! 0\<close> ts by (simp add: q_def)
  moreover have "t dvd q" using dvd q pos by simp
  ultimately have "t = q" using \<open>0 < q\<close> zdvd_imp_le by (metis order_antisym)
  then show ?thesis using ts q by simp
qed

text \<open>The factor table of the split knobs.\<close>

lemma factor_table:
  "list_all (\<lambda>(name, sp). 0 < space_product sp) knobs \<Longrightarrow>
     \<exists>fl. mapE (\<lambda>(name, sp). bindE (get_factors (space_product sp)) (\<lambda>fs. Inr (name, fs))) knobs = Inr fl \<and>
          map fst fl = map fst knobs"
proof (induction knobs)
  case (Cons x knobs)
  obtain name sp where x: "x = (name, sp)" by (cases x)
  obtain fs where "get_factors (space_product sp) = Inr fs"
    using get_factors_props [of "space_product sp"] Cons.prems x by auto
  with Cons x show ?case by auto
qed simp

lemma entity_tiles_split [simp]: "entity_tiles (split_entity tiles) = Inr tiles"
proof -
  have "mapE py_int (map PInt tiles) = Inr tiles" by (induction tiles) (simp_all add: py_int_def)
  then show ?thesis by (simp add: entity_tiles_def entity_size_def split_entity_def)
qed

subsection \<open>Properties\<close>

text \<open>
  [C22] \<^verbatim>\<open>fallback_split\<close> on an axis of positive length, with constraints that are \<^verbatim>\<open>-1\<close> or positive,
  succeeds; from the innermost tile outwards it takes the greatest divisor of what remains of the
  axis within the constraint; the tiles' product divides the length, and equals it when the
  outermost tile is unconstrained and the length is at most \<open>10\<^sup>1\<^sup>0\<close>.
\<close>

theorem fallback_split_greedy:
  assumes "map_of (cs_space_map cs) name = Some (SplitSp s)"
    and "map_of (cs_entity_map cs) name = Some (split_entity ts)"
    and "int (length ts) = sp_num_output s" and "int (length constraints) = sp_num_output s"
    and "0 < sp_product s" and "constraints \<noteq> []" and "list_all (\<lambda>c. c = -1 \<or> 1 \<le> c) constraints"
  shows "\<exists>tiles cs'. fallback_split name constraints cs = (Inr (), cs') \<and>
           map_of (cs_entity_map cs') name = Some (split_entity tiles) \<and> length tiles = length constraints \<and>
           greedy_tiles (map (\<lambda>x. if x \<noteq> -1 then x else 10 ^ 10) constraints) (sp_product s) tiles \<and>
           (hd constraints = -1 \<and> sp_product s \<le> 10 ^ 10 \<longrightarrow> prod_list tiles = sp_product s)"
proof -
  let ?cons = "map (\<lambda>x. if x \<noteq> -1 then x else 10 ^ 10 :: int) constraints"
  let ?n = "length constraints"
  have n: "nat (sp_num_output s) = ?n" "length ts = ?n" using assms(3,4) by simp_all
  have one: "1 \<le> ?cons ! k" if "k < ?n" for k
    using that assms(7) by (auto simp: list_all_length)
  obtain tiles where t: "length tiles = ?n" "greedy_tiles ?cons (sp_product s) tiles"
    "fallback_loop ?cons ?n (sp_product s) (split_entity ts) = (Inr (), split_entity (tiles @ drop ?n ts))"
    using fallback_loop_greedy [OF assms(5), of ?n ts ?cons] n(2) one by auto
  have "split_entity (tiles @ drop ?n ts) = split_entity tiles" using n(2) by simp
  then have "\<exists>cs'. fallback_split name constraints cs = (Inr (), cs') \<and>
      map_of (cs_entity_map cs') name = Some (split_entity tiles)"
    using assms(1,2,4) n(1) t(3) by (auto simp: fallback_split_def update_conv')
  moreover have "prod_list tiles = sp_product s" if "hd constraints = -1" "sp_product s \<le> 10 ^ 10"
    using that assms(5,6) t by (intro greedy_tiles_exact) (auto simp: hd_conv_nth)
  ultimately show ?thesis using t(1,2) by blast
qed

text \<open>The first example of the method's documentation: an axis of 128 under \<^verbatim>\<open>[-1, 8, 4]\<close>.\<close>

theorem fallback_split_greedy_witness:
  "\<exists>tiles cs'. fallback_split ''t'' [-1, 8, 4]
       (mk_fallback_config
          \<lparr>cs_space_map := [(''t'', SplitSp \<lparr>sp_policy = ''factors'', sp_product = 128, sp_num_output = 3,
                                           sp_entities = [[-1, 1, 1]]\<rparr>)],
           cs_entity_map := [(''t'', split_entity [-1, 1, 1])], cs_shared := [''t'']\<rparr>) = (Inr (), cs') \<and>
     map_of (cs_entity_map cs') ''t'' = Some (split_entity tiles) \<and> prod_list tiles = 128"
proof -
  let ?s = "\<lparr>sp_policy = ''factors'', sp_product = 128, sp_num_output = 3, sp_entities = [[-1, 1, 1]]\<rparr>"
  let ?cs = "mk_fallback_config\<lparr>cs_space_map := [(''t'', SplitSp ?s)],
               cs_entity_map := [(''t'', split_entity [-1, 1, 1])], cs_shared := [''t'']\<rparr>"
  from fallback_split_greedy [of ?cs "''t''" ?s "[-1, 1, 1]" "[-1, 8, 4]"]
  show ?thesis by (auto simp: mk_fallback_config_def mk_config_space_def)
qed

text \<open>
  A reference log whose first configuration holds generated tile sizes for the first split knob,
  that is \<^verbatim>\<open>-1\<close> followed by positive tiles, makes \<^verbatim>\<open>fallback_with_reference_log\<close> raise
  \<^verbatim>\<open>ValueError\<close>: the product of the sizes is negative and \<^verbatim>\<open>get_factors\<close> takes its square root.
\<close>

theorem fallback_reference_generated_fails:
  assumes "filter (\<lambda>(name, sp). is_split_space sp) (cs_space_map cs) = (knob_name, sp) # knobs"
    and "list_all (\<lambda>(name, sp). is_split_space sp \<longrightarrow> 0 < space_product sp) (cs_space_map cs)"
    and "cs_getitem ref knob_name = Inr (split_entity (-1 # tiles))"
    and "list_all (\<lambda>x. 0 < x) tiles" and "prod_list tiles < 2 ^ 63"
  shows "fallback_with_reference_log (ref # refs) cs = (Inl ValueError, cs)"
proof -
  let ?knobs = "filter (\<lambda>(name, sp). is_split_space sp) (cs_space_map cs)"
  have "list_all (\<lambda>(name, sp). 0 < space_product sp) ?knobs"
    using assms(2) by (auto simp: list_all_iff)
  from factor_table [OF this] obtain fl where
    fl: "mapE (\<lambda>(name, sp). bindE (get_factors (space_product sp)) (\<lambda>fs. Inr (name, fs))) ?knobs = Inr fl"
    "map fst fl = map fst ?knobs" by blast
  with assms(1) obtain fs fl' where fl': "fl = (knob_name, fs) # fl'" by (cases fl) auto
  have pos: "0 < prod_list tiles" using assms(4) by (intro prod_list_pos) (auto simp: list_all_iff)
  then have "np_prod (-1 # tiles) = - prod_list tiles"
    using assms(5) by (simp add: np_prod_def wrap64_id)
  with pos have "get_factors (np_prod (-1 # tiles)) = Inl ValueError" by (simp add: get_factors_def)
  then have "match_knobs fl ref 0 (0, None) = Inl ValueError"
    using assms(3) fl' by simp
  then show ?thesis using fl(1) by (simp add: fallback_with_reference_log_def Let_def)
qed

theorem fallback_reference_generated_fails_witness:
  "let cs = mk_fallback_config
          \<lparr>cs_space_map := [(''t'', SplitSp \<lparr>sp_policy = ''factors'', sp_product = 8, sp_num_output = 2,
                                           sp_entities = [[-1, 1], [-1, 2], [-1, 4], [-1, 8]]\<rparr>)],
           cs_entity_map := [(''t'', split_entity [-1, 1])], cs_shared := [''t'']\<rparr>
   in fallback_with_reference_log [mk_config_entity 2 None [(''t'', split_entity [-1, 4])] []] cs =
        (Inl ValueError, cs)"
  unfolding Let_def
  by (rule fallback_reference_generated_fails [where knob_name = "''t''" and tiles = "[4]"])
    (simp_all add: is_split_space_def space_product_def cs_getitem_def dict_get_def)

end
