(* ===== verification/Knob_Points.thy ===== *)
theory Knob_Points
  imports Config_Space
begin

section \<open>Points, knob vectors and the diversity filter\<close>

text \<open>
  The module functions of \<^verbatim>\<open>src/python/tvm/autotvm/tuner/model_based_tuner.py\<close>: the two forms of a
  configuration index, the feature cache shared by the cost models, and the greedy choice of diverse
  candidates.
\<close>

subsection \<open>Points and knobs\<close>

fun point2knob :: "int \<Rightarrow> int list \<Rightarrow> int list res" where
  "point2knob p [] = Inr []"
| "point2knob p (d # dims) =
     (if d = 0 then Inl ZeroDivisionError
      else bindE (point2knob (p div d) dims) (\<lambda>knob. Inr (p mod d # knob)))"

definition knob2point :: "int list \<Rightarrow> int list \<Rightarrow> int" where
  "knob2point knob dims =
     foldl (\<lambda>p (j, k). p + np_prod (take j dims) * k) 0 (zip [0..<length knob] knob)"

subsection \<open>The feature cache\<close>

type_synonym 'f feature_cache = "(string, (int, 'f) dict) dict"

definition fc_get :: "string \<Rightarrow> 'f feature_cache \<Rightarrow> (int, 'f) dict \<times> 'f feature_cache" where
  "fc_get key fc =
     (let fc' = (if key \<in> fst ` set fc then fc else AList.update key [] fc)
      in (the (map_of fc' key), fc'))"

definition fc_size :: "string \<Rightarrow> 'f feature_cache \<Rightarrow> nat" where
  "fc_size key fc = (case map_of fc key of None \<Rightarrow> 0 | Some d \<Rightarrow> length d)"

definition fc_clear :: "string \<Rightarrow> 'f feature_cache \<Rightarrow> ('f feature_cache, unit) outcome" where
  "fc_clear key fc =
     (if key \<in> fst ` set fc then (Inr (), AList.update key [] (AList.delete key fc))
      else (Inl KeyError, fc))"

subsection \<open>The diversity filter\<close>

text \<open>The gain of a candidate: its score and the weight of each knob value not yet selected.\<close>

definition pick_delta :: "rat list \<Rightarrow> int list list \<Rightarrow> rat \<Rightarrow> int list list \<Rightarrow> nat \<Rightarrow> rat" where
  "pick_delta scores knobs knob_weight knobs_set x =
     foldl (\<lambda>d i. if knobs ! x ! i \<notin> set (knobs_set ! i) then d + knob_weight else d)
       (scores ! x) [0..<length knobs_set]"

definition pick_max :: "(nat \<Rightarrow> rat) \<Rightarrow> nat list \<Rightarrow> rat \<times> int" where
  "pick_max delta remain =
     foldl (\<lambda>(max_delta, max_x) x. if delta x > max_delta then (delta x, int x) else (max_delta, max_x))
       (- (10 ^ 9), -1) remain"

fun submodular_loop ::
    "rat list \<Rightarrow> int list list \<Rightarrow> rat \<Rightarrow> nat \<Rightarrow> nat list \<Rightarrow> int list list \<Rightarrow> nat list res" where
  "submodular_loop scores knobs knob_weight 0 remain knobs_set = Inr []"
| "submodular_loop scores knobs knob_weight (Suc n) remain knobs_set =
     (let (max_delta, max_x) = pick_max (pick_delta scores knobs knob_weight knobs_set) remain
      in if max_x = -1 then Inl ValueError
         else bindE (submodular_loop scores knobs knob_weight n (remove1 (nat max_x) remain)
                       (map2 (\<lambda>i s. List.insert (knobs ! nat max_x ! i) s) [0..<length knobs_set] knobs_set))
                (\<lambda>ret. Inr (nat max_x # ret)))"

definition submodular_pick :: "rat list \<Rightarrow> int list list \<Rightarrow> nat \<Rightarrow> rat \<Rightarrow> nat list res" where
  "submodular_pick scores knobs n_pick knob_weight =
     assertE (length scores = length knobs)
       (case knobs of
          [] \<Rightarrow> Inl IndexError
        | k # _ \<Rightarrow>
            if 0 < n_pick \<and> list_ex (\<lambda>k'. length k' < length k) knobs then Inl IndexError
            else submodular_loop scores knobs knob_weight n_pick [0..<length scores]
                   (replicate (length k) []))"

subsection \<open>The two forms are inverse\<close>

lemma point2knob_digits:
  "list_all (\<lambda>d. 0 < d) ds \<Longrightarrow> point2knob (int t) (map int ds) = Inr (map int (digits ds t))"
proof (induction ds arbitrary: t)
  case (Cons d ds)
  have "int t mod int d = int (t mod d)" "int t div int d = int (t div d)"
    by (simp_all add: zmod_int zdiv_int)
  with Cons show ?case by simp
qed simp

lemma foldl_plus_assoc: "foldl (\<lambda>p (j, k). p + g j * k) (a :: int) xs = a + foldl (\<lambda>p (j, k). p + g j * k) 0 xs"
proof (induction xs arbitrary: a)
  case (Cons x xs)
  obtain j k where "x = (j, k)" by (cases x)
  then show ?case using Cons.IH [of "a + g j * k"] Cons.IH [of "g j * k"] by simp
qed simp

lemma knob_sum_undigits:
  "length ks = length ds \<Longrightarrow>
     foldl (\<lambda>p (j, k). p + c * prod_list (take j (map int ds)) * k) 0 (zip [0..<length ks] (map int ks)) =
     c * int (undigits ds ks)"
proof (induction ks ds arbitrary: c rule: list_induct2)
  case (Cons k ks d ds)
  have shift: "zip [0..<Suc n] (x # ys) = (0, x) # map (\<lambda>(j, k). (Suc j, k)) (zip [0..<n] ys)"
    for n and x :: int and ys
    by (simp add: upt_conv_Cons map_Suc_upt [symmetric] zip_map1 del: upt_Suc)
  have "foldl (\<lambda>p (j, k). p + c * prod_list (take j (map int (d # ds))) * k) 0
          (zip [0..<length (k # ks)] (map int (k # ks))) =
        foldl (\<lambda>p (j, k). p + (c * int d) * prod_list (take j (map int ds)) * k) (c * int k)
          (zip [0..<length ks] (map int ks))"
    by (simp add: shift foldl_map case_prod_unfold mult.assoc del: upt_Suc)
  also have "\<dots> = c * int k + (c * int d) * int (undigits ds ks)"
    using Cons.IH [of "c * int d"] foldl_plus_assoc [of "\<lambda>j. (c * int d) * prod_list (take j (map int ds))" "c * int k"]
    by simp
  finally show ?case by (simp add: algebra_simps)
qed simp

lemma prod_take_le: "list_all (\<lambda>d. 0 < d) ds \<Longrightarrow> prod_list (take j ds) \<le> (prod_list ds :: nat)"
proof (induction ds arbitrary: j)
  case (Cons d ds)
  show ?case
  proof (cases j)
    case 0
    have "prod_list (d # ds) \<noteq> 0" using Cons.prems by (auto simp: prod_list_zero_iff list_all_iff)
    then show ?thesis using 0 by simp
  next
    case (Suc n)
    then show ?thesis using Cons by simp
  qed
qed simp

lemma np_prod_take:
  assumes "list_all (\<lambda>d. 0 < d) ds" and "int (prod_list ds) < 2 ^ 63"
  shows "np_prod (take j (map int ds)) = prod_list (take j (map int ds))"
proof -
  have "prod_list (take j (map int ds)) = int (prod_list (take j ds))"
    by (simp add: take_map prod_list_map_int)
  moreover have "int (prod_list (take j ds)) \<le> int (prod_list ds)" using prod_take_le [OF assms(1)] by simp
  ultimately show ?thesis using assms(2) unfolding np_prod_def by (intro wrap64_id) simp_all
qed

lemma knob2point_undigits:
  assumes "list_all (\<lambda>d. 0 < d) ds" and "int (prod_list ds) < 2 ^ 63" and "length ks = length ds"
  shows "knob2point (map int ks) (map int ds) = int (undigits ds ks)"
  using knob_sum_undigits [OF assms(3), of 1]
  by (simp add: knob2point_def np_prod_take [OF assms(1,2)])

text \<open>In-range knob vectors of a list of dimensions.\<close>

definition knob_ok :: "int list \<Rightarrow> int list \<Rightarrow> bool" where
  "knob_ok dims knob \<longleftrightarrow> list_all2 (\<lambda>k d. 0 \<le> k \<and> k < d) knob dims"

definition dims_ok :: "int list \<Rightarrow> bool" where
  "dims_ok dims \<longleftrightarrow> list_all (\<lambda>d. 0 < d) dims \<and> prod_list dims < 2 ^ 63"

lemma ready_dims_ok: "cs_ready s \<Longrightarrow> dims_ok (map int (space_dims s))"
proof -
  assume r: "cs_ready s"
  then have "list_all (\<lambda>d. 0 < d) (map int (space_dims s))" by (auto simp: cs_ready_def space_dims_def list_all_iff)
  with r show ?thesis unfolding dims_ok_def prod_list_map_int by (simp add: cs_ready_def)
qed

lemma dims_ok_nat:
  assumes "dims_ok dims"
  obtains ds where "dims = map int ds" "list_all (\<lambda>d. 0 < d) ds" "int (prod_list ds) < 2 ^ 63"
    "prod_list dims = int (prod_list ds)"
proof -
  have m: "dims = map int (map nat dims)"
    using assms by (auto simp: dims_ok_def list_all_iff map_idI less_imp_le)
  moreover have "list_all (\<lambda>d. 0 < d) (map nat dims)" using assms by (simp add: dims_ok_def list_all_iff)
  moreover have "prod_list dims = int (prod_list (map nat dims))" by (metis m prod_list_map_int)
  ultimately show thesis using that [of "map nat dims"] assms by (simp add: dims_ok_def)
qed

lemma knob_ok_nat:
  assumes "knob_ok (map int ds) knob"
  obtains ks where "knob = map int ks" "list_all2 (<) ks ds"
proof -
  have "knob = map int (map nat knob)"
    using assms by (auto simp: knob_ok_def list_all2_conv_all_nth intro!: nth_equalityI)
  moreover have "list_all2 (<) (map nat knob) ds"
    using assms by (auto simp: knob_ok_def list_all2_conv_all_nth)
  ultimately show thesis using that by blast
qed

lemma point2knob_ok:
  assumes "dims_ok dims" and "0 \<le> p"
  obtains knob where "point2knob p dims = Inr knob" "knob_ok dims knob" "length knob = length dims"
    "p < prod_list dims \<Longrightarrow> knob2point knob dims = p"
proof -
  obtain ds where ds: "dims = map int ds" "list_all (\<lambda>d. 0 < d) ds" "int (prod_list ds) < 2 ^ 63"
    "prod_list dims = int (prod_list ds)" using dims_ok_nat [OF assms(1)] by blast
  let ?k = "map int (digits ds (nat p))"
  have "point2knob p dims = Inr ?k"
    using point2knob_digits [OF ds(2), of "nat p"] assms(2) ds(1) by simp
  moreover have "knob_ok dims ?k"
    using ds(1,2) by (auto simp: knob_ok_def list_all2_conv_all_nth list_all_iff digits_bound)
  moreover have "knob2point ?k dims = p" if "p < prod_list dims"
    using knob2point_undigits [OF ds(2,3), of "digits ds (nat p)"] undigits_digits [of "nat p" ds] that assms(2) ds
    by (simp add: nat_less_iff)
  ultimately show thesis using that ds(1) by simp
qed

lemma knob2point_ok:
  assumes "dims_ok dims" and "knob_ok dims knob"
  shows "0 \<le> knob2point knob dims \<and> knob2point knob dims < prod_list dims \<and>
         point2knob (knob2point knob dims) dims = Inr knob"
proof -
  obtain ds where ds: "dims = map int ds" "list_all (\<lambda>d. 0 < d) ds" "int (prod_list ds) < 2 ^ 63"
    "prod_list dims = int (prod_list ds)" using dims_ok_nat [OF assms(1)] by blast
  obtain ks where ks: "knob = map int ks" "list_all2 (<) ks ds"
    using knob_ok_nat assms(2) unfolding ds(1) by blast
  have "knob2point knob dims = int (undigits ds ks)"
    unfolding ks(1) ds(1) using ks(2) by (intro knob2point_undigits ds) (simp add: list_all2_lengthD)
  then show ?thesis
    using undigits_bound [OF ks(2)] point2knob_digits [OF ds(2), of "undigits ds ks"] digits_undigits [OF ks(2)]
      ds(1,4) ks(1) by simp
qed

lemma knob2point_inj:
  "dims_ok dims \<Longrightarrow> knob_ok dims a \<Longrightarrow> knob_ok dims b \<Longrightarrow> knob2point a dims = knob2point b dims \<Longrightarrow> a = b"
  using knob2point_ok by (metis Inr_inject)

subsection \<open>Greedy picks\<close>

text \<open>The marginal gain of a candidate over the points picked before, as the documentation states it.\<close>

definition gain :: "rat list \<Rightarrow> int list list \<Rightarrow> rat \<Rightarrow> nat \<Rightarrow> nat list \<Rightarrow> nat \<Rightarrow> rat" where
  "gain scores knobs w n_knobs picked y =
     scores ! y + w * of_nat (card {i. i < n_knobs \<and> knobs ! y ! i \<notin> (\<lambda>z. knobs ! z ! i) ` set picked})"

definition kset_of :: "int list list \<Rightarrow> nat \<Rightarrow> nat list \<Rightarrow> int list list \<Rightarrow> bool" where
  "kset_of knobs n_knobs picked ks \<longleftrightarrow>
     length ks = n_knobs \<and> (\<forall>i < n_knobs. set (ks ! i) = (\<lambda>z. knobs ! z ! i) ` set picked)"

lemma foldl_count:
  "foldl (\<lambda>d i. if P i then d + w else d) a xs = a + w * (of_nat (length (filter P xs)) :: rat)"
  by (induction xs arbitrary: a) (simp_all add: algebra_simps)

lemma pick_delta_gain:
  assumes "kset_of knobs n_knobs picked ks"
  shows "pick_delta scores knobs w ks y = gain scores knobs w n_knobs picked y"
proof -
  have "length (filter P [0..<n_knobs]) = card {i. i < n_knobs \<and> P i}" for P
    using distinct_card [of "filter P [0..<n_knobs]"] by (simp add: conj_commute)
  moreover have "{i. i < n_knobs \<and> knobs ! y ! i \<notin> set (ks ! i)} =
      {i. i < n_knobs \<and> knobs ! y ! i \<notin> (\<lambda>z. knobs ! z ! i) ` set picked}"
    using assms by (auto simp: kset_of_def)
  ultimately show ?thesis using assms by (simp add: pick_delta_def foldl_count gain_def kset_of_def)
qed

lemma kset_of_insert:
  assumes "kset_of knobs n_knobs picked ks"
  shows "kset_of knobs n_knobs (picked @ [x])
           (map2 (\<lambda>i s. List.insert (knobs ! x ! i) s) [0..<length ks] ks)"
  using assms by (auto simp: kset_of_def)

lemma pick_max_from:
  fixes delta :: "nat \<Rightarrow> rat" and md :: rat
  shows "let r = foldl (\<lambda>(max_delta, max_x) x. if delta x > max_delta then (delta x, int x) else (max_delta, max_x)) (md, mx) xs
         in md \<le> fst r \<and> (\<forall>x \<in> set xs. delta x \<le> fst r) \<and>
            (r = (md, mx) \<or> (\<exists>x \<in> set xs. r = (delta x, int x)))"
proof (induction xs arbitrary: md mx)
  case (Cons x xs)
  show ?case
  proof (cases "delta x > md")
    case True
    then show ?thesis using Cons.IH [of "delta x" "int x"] by (auto simp: Let_def)
  next
    case False
    then show ?thesis using Cons.IH [of md mx] by (auto simp: Let_def)
  qed
qed simp

lemma pick_max_in:
  assumes "remain \<noteq> []" and "\<And>x. x \<in> set remain \<Longrightarrow> - (10 ^ 9) < delta x"
  obtains x where "x \<in> set remain" "pick_max delta remain = (delta x, int x)" "\<And>y. y \<in> set remain \<Longrightarrow> delta y \<le> delta x"
proof -
  let ?r = "pick_max delta remain"
  have r: "\<forall>x \<in> set remain. delta x \<le> fst ?r" "?r = (- (10 ^ 9), -1) \<or> (\<exists>x \<in> set remain. ?r = (delta x, int x))"
    using pick_max_from [of delta "- (10 ^ 9)" "-1" remain] by (simp_all add: pick_max_def Let_def)
  have "hd remain \<in> set remain" using assms(1) by simp
  then have "- (10 ^ 9) < fst ?r" using r(1) assms(2) less_le_trans by blast
  then obtain x where "x \<in> set remain" "?r = (delta x, int x)" using r(2) by auto
  then show thesis using that r(1) by simp
qed

lemma gain_lower:
  assumes "0 \<le> w" and "- (10 ^ 9) < scores ! y"
  shows "- (10 ^ 9) < gain scores knobs w n_knobs picked y"
proof -
  have "0 \<le> w * of_nat (card {i. i < n_knobs \<and> knobs ! y ! i \<notin> (\<lambda>z. knobs ! z ! i) ` set picked})"
    using assms(1) by (intro mult_nonneg_nonneg) simp_all
  with assms(2) show ?thesis unfolding gain_def by linarith
qed

lemma submodular_loop_greedy:
  assumes "kset_of knobs n_knobs picked ks" and "distinct remain" and "n \<le> length remain"
    and "\<And>x. x \<in> set remain \<Longrightarrow> - (10 ^ 9) < scores ! x" and "0 \<le> w"
  shows "\<exists>ret. submodular_loop scores knobs w n remain ks = Inr ret \<and> length ret = n \<and> distinct ret \<and>
           set ret \<subseteq> set remain \<and>
           (\<forall>k < n. \<forall>y \<in> set remain - set (take k ret).
              gain scores knobs w n_knobs (picked @ take k ret) y \<le>
              gain scores knobs w n_knobs (picked @ take k ret) (ret ! k))"
  using assms(1-4)
proof (induction n arbitrary: picked ks remain)
  case 0
  then show ?case by simp
next
  case (Suc n)
  let ?d = "pick_delta scores knobs w ks" and ?g = "gain scores knobs w n_knobs"
  have d: "?d = ?g picked" using pick_delta_gain [OF Suc.prems(1)] by blast
  have "remain \<noteq> []" using Suc.prems(3) by auto
  moreover have "- (10 ^ 9) < ?d x" if "x \<in> set remain" for x
    using gain_lower [OF assms(5) Suc.prems(4) [OF that]] unfolding d .
  ultimately obtain x where x: "x \<in> set remain" "pick_max ?d remain = (?d x, int x)"
    "\<And>y. y \<in> set remain \<Longrightarrow> ?d y \<le> ?d x" using pick_max_in by blast
  let ?ks = "map2 (\<lambda>i s. List.insert (knobs ! x ! i) s) [0..<length ks] ks"
  have len: "n \<le> length (remove1 x remain)" using Suc.prems(3) x(1) by (simp add: length_remove1)
  have sc: "- (10 ^ 9) < scores ! y" if "y \<in> set (remove1 x remain)" for y
    using Suc.prems(4) set_remove1_subset that by (metis subsetD)
  obtain ret where ret: "submodular_loop scores knobs w n (remove1 x remain) ?ks = Inr ret" "length ret = n" "distinct ret"
    "set ret \<subseteq> set (remove1 x remain)"
    "\<forall>k < n. \<forall>y \<in> set (remove1 x remain) - set (take k ret).
       ?g ((picked @ [x]) @ take k ret) y \<le> ?g ((picked @ [x]) @ take k ret) (ret ! k)"
    using Suc.IH [OF kset_of_insert [OF Suc.prems(1)] distinct_remove1 [OF Suc.prems(2)] len sc] by blast
  have rm: "set (remove1 x remain) = set remain - {x}" using Suc.prems(2) by (rule set_remove1_eq)
  have "?g (picked @ take k (x # ret)) y \<le> ?g (picked @ take k (x # ret)) ((x # ret) ! k)"
    if "k < Suc n" "y \<in> set remain - set (take k (x # ret))" for k y
  proof (cases k)
    case 0
    then show ?thesis using x(3) that(2) d by simp
  next
    case (Suc j)
    then have "y \<in> set (remove1 x remain) - set (take j ret)" "j < n" using that rm by auto
    then show ?thesis using ret(5) Suc by simp
  qed
  moreover have "submodular_loop scores knobs w (Suc n) remain ks = Inr (x # ret)" using x(2) ret(1) by simp
  ultimately show ?case using ret(2-4) rm x(1) by (intro exI [of _ "x # ret"]) auto
qed

text \<open>Whatever the scores: a successful pick consists of distinct candidates, and asking for more than
  there are fails.\<close>

lemma pick_max_mem: "snd (pick_max delta remain) = -1 \<or> (\<exists>x \<in> set remain. pick_max delta remain = (delta x, int x))"
  using pick_max_from [of delta "- (10 ^ 9)" "-1" remain] by (auto simp: pick_max_def Let_def)

lemma submodular_loop_sound:
  "submodular_loop scores knobs w n remain ks = Inr ret \<Longrightarrow> distinct remain \<Longrightarrow>
     distinct ret \<and> set ret \<subseteq> set remain \<and> length ret = n"
proof (induction n arbitrary: remain ks ret)
  case (Suc n)
  let ?m = "pick_max (pick_delta scores knobs w ks) remain"
  have ne: "snd ?m \<noteq> -1" using Suc.prems(1) by (auto simp: case_prod_unfold Let_def)
  then obtain x where x: "x \<in> set remain" "?m = (pick_delta scores knobs w ks x, int x)" using pick_max_mem by blast
  with Suc.prems(1) obtain ks' ret' where r: "submodular_loop scores knobs w n (remove1 x remain) ks' = Inr ret'" "ret = x # ret'"
    by (auto simp: bindE_eq_Inr)
  have "distinct (remove1 x remain)" using Suc.prems(2) by simp
  from Suc.IH [OF r(1) this] r(2) x(1) Suc.prems(2) show ?case by auto
qed simp

lemma submodular_loop_short: "length remain < n \<Longrightarrow> submodular_loop scores knobs w n remain ks = Inl ValueError"
proof (induction n arbitrary: remain ks)
  case (Suc n)
  let ?m = "pick_max (pick_delta scores knobs w ks) remain"
  consider "snd ?m = -1" | x where "x \<in> set remain" "?m = (pick_delta scores knobs w ks x, int x)"
    using pick_max_mem by blast
  then show ?case
  proof cases
    case 1
    then show ?thesis by (simp add: case_prod_unfold Let_def)
  next
    case (2 x)
    have "length remain = Suc (length (remove1 x remain))" using 2(1) length_pos_if_in_set [OF 2(1)] by (simp add: length_remove1)
    then show ?thesis using Suc 2(2) by simp
  qed
qed simp

subsection \<open>Properties\<close>

text \<open>
  [C26] \<^verbatim>\<open>point2knob\<close> and \<^verbatim>\<open>knob2point\<close> are inverse to each other between the indices of a ready
  configuration space and the in-range knob vectors of its dimensions, and \<^verbatim>\<open>get\<close> at the point of a
  knob vector returns the configuration with exactly these entities.
\<close>

theorem knob_point_inverse:
  assumes "cs_ready cs" and "dims = map int (space_dims cs)"
  shows "(\<forall>p. 0 \<le> p \<and> p < prod_list dims \<longrightarrow>
            (\<exists>knob. point2knob p dims = Inr knob \<and> knob_ok dims knob \<and> knob2point knob dims = p)) \<and>
         (\<forall>knob. knob_ok dims knob \<longrightarrow>
            point2knob (knob2point knob dims) dims = Inr knob \<and>
            fst (cs_get (knob2point knob dims) cs) =
              Inr (mk_config_entity (knob2point knob dims) (cs_code_hash cs)
                     (pick_entities (cs_space_map cs) (map nat knob)) (cs_constraints cs)))"
proof -
  have pos: "list_all (\<lambda>d. 0 < d) (space_dims cs)"
    using assms(1) by (auto simp: cs_ready_def space_dims_def list_all_iff)
  then have ok: "dims_ok dims"
    using assms by (simp add: dims_ok_def cs_ready_def prod_list_map_int list_all_iff)
  have "fst (cs_get (knob2point knob dims) cs) =
      Inr (mk_config_entity (knob2point knob dims) (cs_code_hash cs)
             (pick_entities (cs_space_map cs) (map nat knob)) (cs_constraints cs))" if k: "knob_ok dims knob" for knob
  proof -
    obtain ks where ks: "knob = map int ks" "list_all2 (<) ks (space_dims cs)"
      using knob_ok_nat k unfolding assms(2) by blast
    have "knob2point knob dims = int (undigits (space_dims cs) ks)"
      unfolding ks(1) assms(2) using ks(2) assms(1)
      by (intro knob2point_undigits pos) (simp_all add: cs_ready_def list_all2_lengthD)
    moreover have "map nat knob = digits (space_dims cs) (undigits (space_dims cs) ks)"
      using ks by (simp add: digits_undigits comp_def)
    ultimately show ?thesis using undigits_bound [OF ks(2)] assms(1) by (simp add: cs_get_digits)
  qed
  then show ?thesis using knob2point_ok [OF ok] point2knob_ok [OF ok] by metis
qed

theorem knob_point_inverse_witness:
  "point2knob (knob2point [1, 2] [2, 3]) [2, 3] = Inr [1, 2] \<and>
   fst (cs_get (knob2point [1, 2] [2, 3]) demo_space) =
     Inr (mk_config_entity (knob2point [1, 2] [2, 3]) None [(''a'', EOther (PInt 2)), (''b'', EOther (PInt 5))] [])"
proof -
  have "cs_ready demo_space"
    by (simp add: cs_ready_def demo_space_simps space_len_def space_entities_def)
  moreover have "[2, 3] = map int (space_dims demo_space)" by (simp add: demo_space_simps)
  ultimately have w: "\<forall>knob. knob_ok [2, 3] knob \<longrightarrow>
      point2knob (knob2point knob [2, 3]) [2, 3] = Inr knob \<and>
      fst (cs_get (knob2point knob [2, 3]) demo_space) =
        Inr (mk_config_entity (knob2point knob [2, 3]) (cs_code_hash demo_space)
               (pick_entities (cs_space_map demo_space) (map nat knob)) (cs_constraints demo_space))"
    by (rule knob_point_inverse [THEN conjunct2])
  have "knob_ok [2, 3] [1, 2]" by (simp add: knob_ok_def)
  note w [rule_format, OF this]
  moreover have "pick_entities (cs_space_map demo_space) (map nat [1, 2]) =
      [(''a'', EOther (PInt 2)), (''b'', EOther (PInt 5))]"
    by (simp add: demo_space_simps pick_entities_def space_entities_def)
  ultimately show ?thesis by (simp add: demo_space_simps)
qed

text \<open>
  [C30] \<^verbatim>\<open>submodular_pick\<close> of at most as many points as there are candidates, with knob vectors of one
  length, scores above \<open>-10\<^sup>9\<close> and a non-negative weight, returns that many distinct candidates, and
  each of them has the greatest marginal gain among the candidates not picked before it.
\<close>

theorem submodular_pick_greedy:
  assumes "length knobs = length scores" and "knobs \<noteq> []" and "list_all (\<lambda>k. length k = n_knobs) knobs"
    and "n_pick \<le> length scores" and "list_all (\<lambda>s. - (10 ^ 9) < s) scores" and "0 \<le> w"
  shows "\<exists>ret. submodular_pick scores knobs n_pick w = Inr ret \<and> length ret = n_pick \<and> distinct ret \<and>
           (\<forall>k < n_pick. ret ! k < length scores \<and>
              (\<forall>y < length scores. y \<notin> set (take k ret) \<longrightarrow>
                 gain scores knobs w n_knobs (take k ret) y \<le> gain scores knobs w n_knobs (take k ret) (ret ! k)))"
proof -
  have n: "length (hd knobs) = n_knobs" using assms(2,3) by (cases knobs) simp_all
  have "kset_of knobs n_knobs [] (replicate n_knobs [])" by (simp add: kset_of_def)
  from submodular_loop_greedy [OF this, of "[0..<length scores]" n_pick scores w] assms(4-6)
  obtain ret where ret: "submodular_loop scores knobs w n_pick [0..<length scores] (replicate n_knobs []) = Inr ret"
    "length ret = n_pick" "distinct ret" "set ret \<subseteq> {0..<length scores}"
    "\<forall>k < n_pick. \<forall>y \<in> {0..<length scores} - set (take k ret).
       gain scores knobs w n_knobs (take k ret) y \<le> gain scores knobs w n_knobs (take k ret) (ret ! k)"
    by (auto simp: list_all_length)
  have "\<not> list_ex (\<lambda>k'. length k' < n_knobs) knobs" using assms(3) by (auto simp: list_ex_iff list_all_iff)
  then have "submodular_pick scores knobs n_pick w = Inr ret"
    using ret(1) n assms(1,2) by (cases knobs) (simp_all add: submodular_pick_def)
  moreover have "ret ! k < length scores" if "k < n_pick" for k
    using ret(2,4) that by (meson atLeastLessThan_iff nth_mem subsetD)
  ultimately show ?thesis using ret(2,3,5) by auto
qed

theorem submodular_pick_greedy_witness:
  "\<exists>ret. submodular_pick [0, 0, 0] [[1, 1], [1, 2], [2, 3]] 2 1 = Inr ret \<and> length ret = 2 \<and> distinct ret"
  using submodular_pick_greedy [of "[[1, 1], [1, 2], [2, 3]]" "[0, 0, 0]" 2 2 1] by auto

end
