(* ===== verification/SA_Optimizer.thy ===== *)
theory SA_Optimizer
  imports Knob_Points "HOL-Library.Option_ord" "HOL-Library.Product_Lexorder"
begin

section \<open>Simulated annealing\<close>

text \<open>
  \<^verbatim>\<open>src/python/tvm/autotvm/tuner/sa_model_optimizer.py\<close>, with \<^verbatim>\<open>sample_ints\<close> of
  \<^verbatim>\<open>src/python/tvm/autotvm/utils.py\<close>.  The heap of \<^verbatim>\<open>heapq\<close> is the sorted list of its items, which fixes
  what its operations return; an item is a score, \<^verbatim>\<open>None\<close> for minus infinity, and a point.  The cost
  model's \<^verbatim>\<open>predict\<close> and the acceptance test, which compares \<^verbatim>\<open>np.exp\<close> with a random number, are
  parameters.
\<close>

subsection \<open>Sampling and walking\<close>

fun sample_loop :: "rng \<Rightarrow> int \<Rightarrow> int \<Rightarrow> nat \<Rightarrow> int list \<Rightarrow> nat \<Rightarrow> (int list \<times> nat) option" where
  "sample_loop rnd low high 0 vis pos = Some (vis, pos)"
| "sample_loop rnd low high (Suc n) vis pos =
     Option.bind (draw_fresh rnd (high - low) (map (\<lambda>x. x - low) vis) pos)
       (\<lambda>(new, pos'). sample_loop rnd low high n (vis @ [new + low]) pos')"

text \<open>\<^verbatim>\<open>setiter\<close> is the order in which Python lists the set.\<close>

definition sample_ints ::
    "(int list \<Rightarrow> int list) \<Rightarrow> rng \<Rightarrow> int \<Rightarrow> int \<Rightarrow> int \<Rightarrow> nat \<Rightarrow> (nat, int list) outcome option" where
  "sample_ints setiter rnd low high m pos =
     (if m \<le> high - low
      then map_option (\<lambda>(vis, pos'). (Inr (setiter vis), pos')) (sample_loop rnd low high (nat m) [] pos)
      else Some (Inl AssertionError, pos))"

partial_function (option) walk_loop ::
    "rng \<Rightarrow> int list \<Rightarrow> int list \<Rightarrow> int list \<Rightarrow> nat \<Rightarrow> (int list \<times> nat) option" where
  "walk_loop rnd dims old new pos =
     (if new = old then
        (let from_i = nat (randint rnd pos (int (length old)));
             to_v = randint rnd (Suc pos) (dims ! from_i)
         in walk_loop rnd dims old (new[from_i := to_v]) (Suc (Suc pos)))
      else Some (new, pos))"

definition random_walk :: "rng \<Rightarrow> int \<Rightarrow> int list \<Rightarrow> nat \<Rightarrow> (nat, int) outcome option" where
  "random_walk rnd p dims pos =
     (case point2knob p dims of
        Inl e \<Rightarrow> Some (Inl e, pos)
      | Inr old \<Rightarrow>
          if old = [] then Some (Inl ValueError, pos)
          else map_option (\<lambda>(new, pos'). (Inr (knob2point new dims), pos')) (walk_loop rnd dims old old pos))"

fun walk_all :: "rng \<Rightarrow> int list \<Rightarrow> int list \<Rightarrow> nat \<Rightarrow> (nat, int list) outcome option" where
  "walk_all rnd [] dims pos = Some (Inr [], pos)"
| "walk_all rnd (p # points) dims pos =
     Option.bind (random_walk rnd p dims pos) (\<lambda>(r, pos1).
       case r of
         Inl e \<Rightarrow> Some (Inl e, pos1)
       | Inr q \<Rightarrow> map_option (\<lambda>(r2, pos2). (bindE r2 (\<lambda>qs. Inr (q # qs)), pos2))
                    (walk_all rnd points dims pos1))"

subsection \<open>The heap of the best points\<close>

type_synonym sa_heap = "(rat option \<times> int) list"

text \<open>Offering a point: the last component says whether the heap changed.\<close>

definition heap_offer :: "rat \<Rightarrow> int \<Rightarrow> sa_heap \<times> int list \<Rightarrow> ((sa_heap \<times> int list) \<times> bool) res" where
  "heap_offer s p hi =
     (case hi of (heap, in_heap) \<Rightarrow>
        (case heap of
           [] \<Rightarrow> Inl IndexError
         | (h, q) # rest \<Rightarrow>
             if h < Some s \<and> p \<notin> set in_heap then
               (if q \<in> set in_heap
                then Inr ((insort (Some s, p) rest, p # removeAll q in_heap), True)
                else Inl KeyError)
             else Inr ((heap, in_heap), False)))"

fun heap_offers :: "(rat \<times> int) list \<Rightarrow> sa_heap \<times> int list \<Rightarrow> ((sa_heap \<times> int list) \<times> bool) res" where
  "heap_offers [] hi = Inr (hi, False)"
| "heap_offers ((s, p) # sps) hi =
     bindE (heap_offer s p hi) (\<lambda>(hi1, c1).
     bindE (heap_offers sps hi1) (\<lambda>(hi2, c2). Inr (hi2, c1 \<or> c2)))"

subsection \<open>The optimizer\<close>

datatype temperature = TConst rat | TCool rat rat

record sa_optimizer =
  sa_space :: config_space
  sa_dims :: "int list"
  sa_n_iter :: nat
  sa_temp :: temperature
  sa_persistent :: bool
  sa_parallel_size :: int
  sa_early_stop :: int
  sa_points :: "int list option"

definition mk_sa_optimizer ::
    "config_space \<Rightarrow> nat \<Rightarrow> temperature \<Rightarrow> bool \<Rightarrow> int \<Rightarrow> int option \<Rightarrow> sa_optimizer res" where
  "mk_sa_optimizer space n_iter temp persistent parallel_size early_stop =
     (case cs_len space of
        (Inl e, _) \<Rightarrow> Inl e
      | (Inr n, space') \<Rightarrow>
          Inr \<lparr>sa_space = space', sa_dims = map (\<lambda>(name, sp). int (space_len sp)) (cs_space_map space),
               sa_n_iter = n_iter, sa_temp = temp, sa_persistent = persistent,
               sa_parallel_size = min parallel_size n,
               sa_early_stop = (case early_stop of Some k \<Rightarrow> if k = 0 then 10 ^ 9 else k | None \<Rightarrow> 10 ^ 9),
               sa_points = None\<rparr>)"

text \<open>The working state of the annealing loop.\<close>

record sa_work =
  sw_points :: "int list"
  sw_scores :: "rat list"
  sw_heap :: "sa_heap \<times> int list"
  sw_last_modify :: int
  sw_t :: rat
  sw_pos :: nat

definition accept_moves :: "bool list \<Rightarrow> 'a list \<Rightarrow> 'a list \<Rightarrow> 'a list" where
  "accept_moves ac new old = map2 (\<lambda>a (n, q). if a then n else q) ac (zip new old)"

definition sa_iter ::
    "rng \<Rightarrow> (int list \<Rightarrow> rat list) \<Rightarrow> (rat \<Rightarrow> rat \<Rightarrow> rat \<Rightarrow> nat \<Rightarrow> bool) \<Rightarrow> int list \<Rightarrow> rat \<Rightarrow> int \<Rightarrow> sa_work
       \<Rightarrow> (sa_work, unit) outcome option" where
  "sa_iter rnd predict accept dims cool k w =
     Option.bind (walk_all rnd (sw_points w) dims (sw_pos w)) (\<lambda>(r, pos).
       case r of
         Inl e \<Rightarrow> Some (Inl e, w\<lparr>sw_pos := pos\<rparr>)
       | Inr new_points \<Rightarrow>
           let new_scores = predict new_points;
               ac_index = map2 (\<lambda>(n, q) i. accept n q (sw_t w) (pos + i))
                            (zip new_scores (sw_scores w)) [0..<length new_scores];
               w1 = w\<lparr>sw_points := accept_moves ac_index new_points (sw_points w),
                      sw_scores := accept_moves ac_index new_scores (sw_scores w),
                      sw_pos := pos + length new_scores\<rparr>
           in case heap_offers (zip new_scores new_points) (sw_heap w) of
                Inl e \<Rightarrow> Some (Inl e, w1)
              | Inr (hi, changed) \<Rightarrow>
                  Some (Inr (), w1\<lparr>sw_heap := hi,
                                   sw_last_modify := (if changed then k else sw_last_modify w1),
                                   sw_t := sw_t w1 - cool\<rparr>))"

text \<open>The first argument is \<^verbatim>\<open>n_iter - k\<close>.\<close>

fun sa_loop ::
    "nat \<Rightarrow> rng \<Rightarrow> (int list \<Rightarrow> rat list) \<Rightarrow> (rat \<Rightarrow> rat \<Rightarrow> rat \<Rightarrow> nat \<Rightarrow> bool) \<Rightarrow> int list \<Rightarrow> rat \<Rightarrow> int \<Rightarrow> int
       \<Rightarrow> sa_work \<Rightarrow> (sa_work, unit) outcome option" where
  "sa_loop 0 rnd predict accept dims cool early_stop k w = Some (Inr (), w)"
| "sa_loop (Suc m) rnd predict accept dims cool early_stop k w =
     (if k < sw_last_modify w + early_stop then
        Option.bind (sa_iter rnd predict accept dims cool k w) (\<lambda>(r, w1).
          case r of
            Inl e \<Rightarrow> Some (Inl e, w1)
          | Inr _ \<Rightarrow> sa_loop m rnd predict accept dims cool early_stop (k + 1) w1)
      else Some (Inr (), w))"

definition heap_result :: "sa_heap \<Rightarrow> int list" where
  "heap_result heap =
     map snd (sort_key (\<lambda>x. - the (fst x))
                (filter (\<lambda>x. case fst x of None \<Rightarrow> False | Some s \<Rightarrow> 0 \<le> s) heap))"

text \<open>The initial points: those kept from the last call, or a fresh sample.\<close>

definition sa_start ::
    "(int list \<Rightarrow> int list) \<Rightarrow> rng \<Rightarrow> sa_optimizer \<Rightarrow> nat \<Rightarrow> (nat, int list) outcome option" where
  "sa_start setiter rnd sa pos =
     (case (sa_persistent sa, sa_points sa) of
        (True, Some points) \<Rightarrow> Some (Inr points, pos)
      | _ \<Rightarrow>
          (case cs_len (sa_space sa) of
             (Inl e, _) \<Rightarrow> Some (Inl e, pos)
           | (Inr n, _) \<Rightarrow> sample_ints setiter rnd 0 n (sa_parallel_size sa) pos))"

definition find_maximums ::
    "(int list \<Rightarrow> int list) \<Rightarrow> rng \<Rightarrow> (rat \<Rightarrow> rat \<Rightarrow> rat \<Rightarrow> nat \<Rightarrow> bool) \<Rightarrow> (int list \<Rightarrow> rat list) \<Rightarrow> pyval \<Rightarrow> int list
       \<Rightarrow> sa_optimizer \<Rightarrow> nat \<Rightarrow> (sa_optimizer \<times> nat, int list) outcome option" where
  "find_maximums setiter rnd accept predict num exclusive sa pos =
     Option.bind (sa_start setiter rnd sa pos) (\<lambda>(r, pos1).
       case r of
         Inl e \<Rightarrow> Some (Inl e, (sa, pos1))
       | Inr points \<Rightarrow>
           let scores = predict points
           in case num of
                PInt n \<Rightarrow>
                  let heap = rev (map (\<lambda>i. (None, -1 - int i)) [0..<nat n]);
                      in_heap = remdups (exclusive @ map snd heap)
                  in (case heap_offers (zip scores points) (heap, in_heap) of
                        Inl e \<Rightarrow> Some (Inl e, (sa, pos1))
                      | Inr (hi, _) \<Rightarrow>
                          let (t, cool) = (case sa_temp sa of
                                             TConst t \<Rightarrow> (t, 0)
                                           | TCool t0 t1 \<Rightarrow> (t0, (t0 - t1) / (of_nat (sa_n_iter sa) + 1)))
                          in Option.bind
                               (sa_loop (sa_n_iter sa) rnd predict accept (sa_dims sa) cool (sa_early_stop sa) 0
                                  \<lparr>sw_points = points, sw_scores = scores, sw_heap = hi, sw_last_modify = 0,
                                   sw_t = t, sw_pos = pos1\<rparr>)
                               (\<lambda>(r2, w).
                                  case r2 of
                                    Inl e \<Rightarrow> Some (Inl e, (sa, sw_pos w))
                                  | Inr _ \<Rightarrow>
                                      Some (Inr (heap_result (fst (sw_heap w))),
                                            (if sa_persistent sa then sa\<lparr>sa_points := Some (sw_points w)\<rparr> else sa,
                                             sw_pos w))))
              | _ \<Rightarrow> Some (Inl TypeError, (sa, pos1)))"

subsection \<open>Walks\<close>

text \<open>A neighbour: one knob has another value of its range.\<close>

definition neighbour :: "int list \<Rightarrow> int list \<Rightarrow> int list \<Rightarrow> bool" where
  "neighbour dims old new \<longleftrightarrow>
     (\<exists>i v. i < length old \<and> 0 \<le> v \<and> v < dims ! i \<and> v \<noteq> old ! i \<and> new = old[i := v])"

definition walk_ok :: "int list \<Rightarrow> int list \<Rightarrow> bool" where
  "walk_ok dims old \<longleftrightarrow> length old = length dims \<and> old \<noteq> [] \<and> list_all (\<lambda>d. 0 < d) dims"

text \<open>The draw at a position: the knob and its value.\<close>

definition walk_move :: "rng \<Rightarrow> int list \<Rightarrow> int list \<Rightarrow> nat \<Rightarrow> nat \<times> int" where
  "walk_move rnd dims old pos =
     (let i = nat (randint rnd pos (int (length old))) in (i, randint rnd (Suc pos) (dims ! i)))"

lemma walk_move_ok:
  assumes "walk_ok dims old" and "walk_move rnd dims old pos = (i, v)"
  shows "i < length old \<and> 0 \<le> v \<and> v < dims ! i"
proof -
  have i: "i = nat (randint rnd pos (int (length old)))" and v: "v = randint rnd (Suc pos) (dims ! i)"
    using assms(2) by (auto simp: walk_move_def Let_def)
  have "0 < int (length old)" using assms(1) by (auto simp: walk_ok_def)
  then have il: "i < length old" using randint_bounds i by (metis nat_less_iff)
  then have "0 < dims ! i" using assms(1) by (simp add: walk_ok_def list_all_length)
  with il v randint_bounds show ?thesis by blast
qed

lemma walk_loop_step:
  "walk_loop rnd dims old old pos =
     (let (i, v) = walk_move rnd dims old pos in walk_loop rnd dims old (old[i := v]) (Suc (Suc pos)))"
  by (subst walk_loop.simps) (simp add: walk_move_def Let_def)

lemma walk_loop_stop: "new \<noteq> old \<Longrightarrow> walk_loop rnd dims old new pos = Some (new, pos)"
  by (subst walk_loop.simps) simp

lemma walk_loop_neighbour:
  assumes "walk_loop rnd dims old new pos = Some r"
  shows "walk_ok dims old \<longrightarrow> new = old \<or> neighbour dims old new \<longrightarrow> neighbour dims old (fst r)"
proof (rule walk_loop.raw_induct [OF _ assms, where P = "\<lambda>rnd dims old new pos r.
    walk_ok dims old \<longrightarrow> new = old \<or> neighbour dims old new \<longrightarrow> neighbour dims old (fst r)"])
  fix walk rnd dims old new pos r
  assume ih: "\<And>rnd dims old new pos y. walk rnd dims old new pos = Some y \<Longrightarrow>
      walk_ok dims old \<longrightarrow> new = old \<or> neighbour dims old new \<longrightarrow> neighbour dims old (fst y)"
    and body: "(if new = old then
        let from_i = nat (randint rnd pos (int (length old))); to_v = randint rnd (Suc pos) (dims ! from_i)
        in walk rnd dims old (new[from_i := to_v]) (Suc (Suc pos))
      else Some (new, pos)) = Some r"
  show "walk_ok dims old \<longrightarrow> new = old \<or> neighbour dims old new \<longrightarrow> neighbour dims old (fst r)"
  proof (intro impI)
    assume ok: "walk_ok dims old" and st: "new = old \<or> neighbour dims old new"
    show "neighbour dims old (fst r)"
    proof (cases "new = old")
      case False
      with body st show ?thesis by auto
    next
      case True
      obtain i v where iv: "walk_move rnd dims old pos = (i, v)" by (cases "walk_move rnd dims old pos")
      have "walk rnd dims old (old[i := v]) (Suc (Suc pos)) = Some r"
        using body True iv by (auto simp: walk_move_def Let_def)
      moreover have "old[i := v] = old \<or> neighbour dims old (old[i := v])"
        using walk_move_ok [OF ok iv] by (cases "v = old ! i") (auto simp: neighbour_def)
      ultimately show ?thesis using ih ok by blast
    qed
  qed
qed

lemma walk_loop_returns:
  assumes "walk_ok dims old" and "walk_move rnd dims old (pos + 2 * k) = (i, v)" and "v \<noteq> old ! i"
  shows "\<exists>r. walk_loop rnd dims old old pos = Some r"
  using assms(2)
proof (induction k arbitrary: pos)
  case 0
  have "old[i := v] \<noteq> old" using walk_move_ok [OF assms(1) 0] assms(3) by (metis nth_list_update_eq)
  then show ?case using 0 by (subst walk_loop_step) (simp add: walk_loop_stop)
next
  case (Suc k)
  obtain j u where ju: "walk_move rnd dims old pos = (j, u)" by (cases "walk_move rnd dims old pos")
  show ?case
  proof (cases "old[j := u] = old")
    case True
    have "walk_move rnd dims old (Suc (Suc pos) + 2 * k) = (i, v)" using Suc.prems by simp
    from Suc.IH [OF this] True ju show ?thesis by (subst walk_loop_step) simp
  next
    case False
    then show ?thesis using ju by (subst walk_loop_step) (simp add: walk_loop_stop)
  qed
qed

lemma neighbour_knob_ok:
  assumes "knob_ok dims old" and "neighbour dims old new"
  shows "knob_ok dims new \<and> new \<noteq> old"
proof -
  obtain i v where iv: "i < length old" "0 \<le> v" "v < dims ! i" "v \<noteq> old ! i" "new = old[i := v]"
    using assms(2) by (auto simp: neighbour_def)
  then have "new \<noteq> old" by (metis nth_list_update_eq)
  with iv assms(1) show ?thesis by (auto simp: knob_ok_def list_all2_conv_all_nth nth_list_update)
qed

lemma random_walk_in_range:
  assumes "dims_ok dims" and "dims \<noteq> []" and "0 \<le> p" and "p < prod_list dims"
    and "random_walk rnd p dims pos = Some (r, pos')"
  obtains q where "r = Inr q" "0 \<le> q" "q < prod_list dims" "q \<noteq> p"
    "\<exists>old new. point2knob p dims = Inr old \<and> point2knob q dims = Inr new \<and> neighbour dims old new"
proof -
  obtain old where old: "point2knob p dims = Inr old" "knob_ok dims old" "length old = length dims" "knob2point old dims = p"
    using point2knob_ok [OF assms(1,3)] assms(4) by metis
  have w: "walk_ok dims old" using old(3) assms(1,2) by (auto simp: walk_ok_def dims_ok_def)
  then have "old \<noteq> []" by (simp add: walk_ok_def)
  with assms(5) old(1) obtain new where new: "walk_loop rnd dims old old pos = Some (new, pos')" "r = Inr (knob2point new dims)"
    by (auto simp: random_walk_def)
  have nb: "neighbour dims old new" using walk_loop_neighbour [OF new(1)] w by simp
  then have nk: "knob_ok dims new" "new \<noteq> old" using neighbour_knob_ok [OF old(2)] by blast+
  have "knob2point new dims \<noteq> p"
    using knob2point_inj [OF assms(1) nk(1) old(2)] nk(2) old(4) by auto
  then show thesis using that [OF new(2)] knob2point_ok [OF assms(1) nk(1)] old(1) nb by blast
qed

lemma walk_all_in_range:
  assumes "dims_ok dims" and "dims \<noteq> []" and "walk_all rnd points dims pos = Some (r, pos')"
    and "list_all (\<lambda>p. 0 \<le> p \<and> p < prod_list dims) points"
  shows "\<exists>qs. r = Inr qs \<and> length qs = length points \<and> list_all (\<lambda>p. 0 \<le> p \<and> p < prod_list dims) qs"
  using assms(3,4)
proof (induction points arbitrary: pos r pos')
  case Nil
  then show ?case by simp
next
  case (Cons p points)
  from Cons.prems(1) obtain r1 pos1 where r1: "random_walk rnd p dims pos = Some (r1, pos1)"
    by (auto simp: bind_eq_Some_conv)
  obtain q where q: "r1 = Inr q" "0 \<le> q" "q < prod_list dims"
    using random_walk_in_range [OF assms(1,2) _ _ r1] Cons.prems(2) by auto
  with Cons.prems(1) r1 obtain r2 where r2: "walk_all rnd points dims pos1 = Some (r2, pos')" "r = bindE r2 (\<lambda>qs. Inr (q # qs))"
    by auto
  from Cons.IH [OF r2(1)] Cons.prems(2) obtain qs where "r2 = Inr qs" "length qs = length points"
    "list_all (\<lambda>p. 0 \<le> p \<and> p < prod_list dims) qs" by auto
  with r2(2) q show ?case by simp
qed

subsection \<open>The heap\<close>

text \<open>
  What the heap keeps: as many items as asked for, with distinct points outside the excluded set
  \<open>ex\<close>; the items that are not placeholders are points of the space with their predicted score.
\<close>

definition heap_ok :: "(int \<Rightarrow> rat) \<Rightarrow> int \<Rightarrow> int list \<Rightarrow> nat \<Rightarrow> sa_heap \<times> int list \<Rightarrow> bool" where
  "heap_ok f N ex n hi \<longleftrightarrow>
     (case hi of (heap, in_heap) \<Rightarrow>
        length heap = n \<and> sorted heap \<and> distinct (map snd heap) \<and>
        set in_heap = set ex \<union> snd ` set heap \<and> set ex \<inter> snd ` set heap = {} \<and>
        (\<forall>(s, p) \<in> set heap. case s of None \<Rightarrow> p < 0 | Some v \<Rightarrow> v = f p \<and> 0 \<le> p \<and> p < N))"

lemma set_insort': "set (insort x xs) = insert x (set xs)"
  by (rule set_insort_key)

lemma heap_offer_ok:
  assumes "heap_ok f N ex n hi" and "0 < n" and "s = f p" and "0 \<le> p" and "p < N"
  shows "\<exists>hi' c. heap_offer s p hi = Inr (hi', c) \<and> heap_ok f N ex n hi'"
proof -
  obtain heap ih where hi: "hi = (heap, ih)" by (cases hi)
  obtain h q rest where hp: "heap = (h, q) # rest" using assms(1,2) hi by (cases heap) (auto simp: heap_ok_def)
  show ?thesis
  proof (cases "h < Some s \<and> p \<notin> set ih")
    case False
    then show ?thesis using assms(1) hi hp by (auto simp: heap_offer_def)
  next
    case True
    have inv: "sorted ((h, q) # rest)" "distinct (q # map snd rest)" "length rest = n - 1"
      "set ih = set ex \<union> insert q (snd ` set rest)" "set ex \<inter> insert q (snd ` set rest) = {}"
      "\<forall>(s, p) \<in> set rest. case s of None \<Rightarrow> p < 0 | Some v \<Rightarrow> v = f p \<and> 0 \<le> p \<and> p < N"
      using assms(1) hi hp by (auto simp: heap_ok_def)
    have off: "heap_offer s p hi = Inr ((insort (Some s, p) rest, p # removeAll q ih), True)"
      using True hi hp inv(4) by (simp add: heap_offer_def)
    have "mset (map snd (insort (Some s, p) rest)) = mset (map snd ((Some s, p) # rest))"
      by (simp only: mset_map mset_insort mset.simps)
    then have "distinct (map snd (insort (Some s, p) rest)) = distinct (map snd ((Some s, p) # rest))"
      by (rule mset_eq_imp_distinct_iff)
    then have d: "distinct (map snd (insort (Some s, p) rest))" using inv(2,4) True by auto
    have "length (insort (Some s, p) rest) = n" using inv(3) assms(2) by simp
    moreover have "sorted (insort (Some s, p) rest)" using inv(1) by (simp add: sorted_insort)
    moreover have "set (p # removeAll q ih) = set ex \<union> snd ` set (insort (Some s, p) rest)"
      using inv(2,4,5) by (auto simp: set_insort')
    moreover have "set ex \<inter> snd ` set (insort (Some s, p) rest) = {}"
      using inv(4,5) True by (auto simp: set_insort')
    moreover have "\<forall>(s, p) \<in> set (insort (Some s, p) rest). case s of None \<Rightarrow> p < 0 | Some v \<Rightarrow> v = f p \<and> 0 \<le> p \<and> p < N"
      using inv(6) assms(3-5) by (auto simp: set_insort')
    ultimately show ?thesis using off d by (auto simp: heap_ok_def)
  qed
qed

lemma heap_offers_ok:
  assumes "heap_ok f N ex n hi" and "0 < n" and "list_all (\<lambda>p. 0 \<le> p \<and> p < N) ps"
  shows "\<exists>hi' c. heap_offers (zip (map f ps) ps) hi = Inr (hi', c) \<and> heap_ok f N ex n hi'"
  using assms(1,3)
proof (induction ps arbitrary: hi)
  case Nil
  then show ?case by auto
next
  case (Cons p ps)
  obtain hi1 c1 where 1: "heap_offer (f p) p hi = Inr (hi1, c1)" "heap_ok f N ex n hi1"
    using heap_offer_ok [OF Cons.prems(1) assms(2) refl, of p] Cons.prems(2) by auto
  obtain hi2 c2 where "heap_offers (zip (map f ps) ps) hi1 = Inr (hi2, c2)" "heap_ok f N ex n hi2"
    using Cons.IH [OF 1(2)] Cons.prems(2) by auto
  with 1 show ?case by auto
qed

text \<open>The points handed back.\<close>

definition maximums_ok :: "(int \<Rightarrow> rat) \<Rightarrow> int \<Rightarrow> int list \<Rightarrow> nat \<Rightarrow> int list \<Rightarrow> bool" where
  "maximums_ok f N ex n pts \<longleftrightarrow>
     distinct pts \<and> length pts \<le> n \<and> set pts \<inter> set ex = {} \<and>
     (\<forall>p \<in> set pts. 0 \<le> p \<and> p < N \<and> 0 \<le> f p) \<and> sorted_wrt (\<lambda>a b. f b \<le> f a) pts"

lemma heap_result_ok:
  assumes "heap_ok f N ex n (heap, ih)"
  shows "maximums_ok f N ex n (heap_result heap)"
proof -
  let ?sel = "filter (\<lambda>x. case fst x of None \<Rightarrow> False | Some s \<Rightarrow> 0 \<le> s) heap"
  let ?srt = "sort_key (\<lambda>x. - the (fst x)) ?sel"
  have it: "fst x = Some (f (snd x)) \<and> 0 \<le> f (snd x) \<and> 0 \<le> snd x \<and> snd x < N \<and> snd x \<notin> set ex" if "x \<in> set ?sel" for x
  proof -
    have mem: "x \<in> set heap" "case fst x of None \<Rightarrow> False | Some s \<Rightarrow> 0 \<le> s" using that by auto
    obtain v where v: "fst x = Some v" "0 \<le> v" using mem(2) by (auto split: option.splits)
    with mem(1) have v: "(Some v, snd x) \<in> set heap" "0 \<le> v" "fst x = Some v" by (metis prod.collapse)+
    then have "v = f (snd x) \<and> 0 \<le> snd x \<and> snd x < N" using assms unfolding heap_ok_def by fastforce
    moreover have "snd x \<in> snd ` set heap" using v(1) by (metis image_eqI snd_conv)
    then have "snd x \<notin> set ex" using assms unfolding heap_ok_def by auto
    ultimately show ?thesis using v by simp
  qed
  have "distinct (map snd ?sel)" using assms by (auto simp: heap_ok_def intro: distinct_map_filter)
  moreover have "mset (map snd ?srt) = mset (map snd ?sel)" by simp
  from mset_eq_imp_distinct_iff [OF this] have "distinct (map snd ?srt) = distinct (map snd ?sel)" .
  ultimately have "distinct (map snd ?srt)" by simp
  moreover have "length (map snd ?srt) \<le> n" using assms by (auto simp: heap_ok_def)
  moreover have "sorted_wrt (\<lambda>a b. f b \<le> f a) (map snd ?srt)"
  proof -
    have "sorted (map (\<lambda>x. - the (fst x)) ?srt)" by (rule sorted_sort_key)
    then have "sorted_wrt (\<lambda>x y. - the (fst x) \<le> - the (fst y)) ?srt" by (simp add: sorted_wrt_map)
    then have "sorted_wrt (\<lambda>x y. f (snd y) \<le> f (snd x)) ?srt"
    proof (rule sorted_wrt_mono_rel [rotated])
      fix x y
      assume "x \<in> set ?srt" and "y \<in> set ?srt" and le: "- the (fst x) \<le> - the (fst y)"
      then have "x \<in> set ?sel" "y \<in> set ?sel" by (simp_all only: set_sort)
      with it [of x] it [of y] le show "f (snd y) \<le> f (snd x)" by simp
    qed
    then show ?thesis by (simp add: sorted_wrt_map)
  qed
  moreover have "0 \<le> p \<and> p < N \<and> 0 \<le> f p \<and> p \<notin> set ex" if "p \<in> set (map snd ?srt)" for p
  proof -
    from that obtain x where "x \<in> set ?sel" "p = snd x" by (auto simp only: set_map set_sort image_iff)
    with it [of x] show ?thesis by simp
  qed
  ultimately show ?thesis unfolding maximums_ok_def heap_result_def by blast
qed

subsection \<open>The annealing loop\<close>

lemma length_accept_moves: "length ac = length new \<Longrightarrow> length new = length old \<Longrightarrow> length (accept_moves ac new old) = length old"
  by (simp add: accept_moves_def)

lemma accept_moves_in:
  assumes "length ac = length new" and "length new = length old" and "list_all P new" and "list_all P old"
  shows "list_all P (accept_moves ac new old)"
  using assms by (auto simp: accept_moves_def list_all_length)

definition work_ok :: "(int \<Rightarrow> rat) \<Rightarrow> int list \<Rightarrow> int list \<Rightarrow> nat \<Rightarrow> sa_work \<Rightarrow> bool" where
  "work_ok f dims ex n w \<longleftrightarrow>
     list_all (\<lambda>p. 0 \<le> p \<and> p < prod_list dims) (sw_points w) \<and> length (sw_scores w) = length (sw_points w) \<and>
     heap_ok f (prod_list dims) ex n (sw_heap w)"

lemma sa_iter_ok:
  assumes "dims_ok dims" and "dims \<noteq> []" and "0 < n" and "work_ok f dims ex n w"
    and "sa_iter rnd (map f) accept dims cool k w = Some (r, w')"
  shows "r = Inr () \<and> work_ok f dims ex n w'"
proof -
  let ?in = "list_all (\<lambda>p. 0 \<le> p \<and> p < prod_list dims)"
  from assms(5) obtain r1 pos where wa: "walk_all rnd (sw_points w) dims (sw_pos w) = Some (r1, pos)"
    by (auto simp: sa_iter_def bind_eq_Some_conv)
  from walk_all_in_range [OF assms(1,2) wa] assms(4) obtain qs where
    qs: "r1 = Inr qs" "length qs = length (sw_points w)" "?in qs" by (auto simp: work_ok_def)
  obtain hi c where hi: "heap_offers (zip (map f qs) qs) (sw_heap w) = Inr (hi, c)" "heap_ok f (prod_list dims) ex n hi"
    using heap_offers_ok [OF _ assms(3) qs(3)] assms(4) unfolding work_ok_def by blast
  define ac where "ac = map2 (\<lambda>(n, q) i. accept n q (sw_t w) (pos + i)) (zip (map f qs) (sw_scores w)) [0..<length qs]"
  have len: "length (sw_scores w) = length qs" "length ac = length qs"
    using assms(4) qs(2) by (simp_all add: work_ok_def ac_def)
  have res: "r = Inr ()" "sw_points w' = accept_moves ac qs (sw_points w)"
    "sw_scores w' = accept_moves ac (map f qs) (sw_scores w)" "sw_heap w' = hi"
    using assms(5) wa qs(1) hi(1) by (auto simp: sa_iter_def Let_def ac_def)
  have "?in (sw_points w')" unfolding res(2)
    using qs(2,3) len(2) assms(4) by (intro accept_moves_in) (simp_all add: work_ok_def)
  moreover have "length (sw_scores w') = length (sw_points w')" unfolding res(2,3)
    using qs(2) len by (simp add: length_accept_moves)
  ultimately show ?thesis using res(1,4) hi(2) by (simp add: work_ok_def)
qed

lemma sa_loop_ok:
  assumes "dims_ok dims" and "dims \<noteq> []" and "0 < n"
  shows "work_ok f dims ex n w \<Longrightarrow> sa_loop m rnd (map f) accept dims cool es k w = Some (r, w') \<Longrightarrow>
           r = Inr () \<and> work_ok f dims ex n w'"
proof (induction m arbitrary: k w)
  case 0
  then show ?case by auto
next
  case (Suc m)
  show ?case
  proof (cases "k < sw_last_modify w + es")
    case False
    then show ?thesis using Suc.prems by auto
  next
    case True
    with Suc.prems(2) obtain r1 w1 where it: "sa_iter rnd (map f) accept dims cool k w = Some (r1, w1)"
      by (auto simp: bind_eq_Some_conv)
    from sa_iter_ok [OF assms Suc.prems(1) it] have "r1 = Inr ()" "work_ok f dims ex n w1" by auto
    then show ?thesis using Suc.IH [of w1 "k + 1"] Suc.prems(2) True it by simp
  qed
qed

lemma sample_loop_props:
  assumes "sample_loop rnd 0 high n vis pos = Some (out, pos')" and "0 < high"
    and "distinct vis" and "list_all (\<lambda>p. 0 \<le> p \<and> p < high) vis"
  shows "distinct out \<and> list_all (\<lambda>p. 0 \<le> p \<and> p < high) out \<and> length out = length vis + n"
  using assms
proof (induction n arbitrary: vis pos)
  case 0
  then show ?case by simp
next
  case (Suc n)
  from Suc.prems(1) obtain x pos1 where d: "draw_fresh rnd high vis pos = Some (x, pos1)"
    "sample_loop rnd 0 high n (vis @ [x]) pos1 = Some (out, pos')"
    by (auto simp: bind_eq_Some_conv)
  have "x \<notin> set vis \<and> 0 \<le> x \<and> x < high"
    using draw_fresh_result [OF d(1)] Suc.prems(2) randint_bounds by auto
  with Suc.IH [OF d(2)] Suc.prems show ?case by auto
qed

subsection \<open>Fair randomness\<close>

text \<open>
  A stream is fair for the dimensions when, from every position on, every index of the space and
  every move of a knob to a value is drawn at some later time.
\<close>

definition fair :: "rng \<Rightarrow> int list \<Rightarrow> bool" where
  "fair rnd dims \<longleftrightarrow>
     (\<forall>pos x. 0 \<le> x \<and> x < prod_list dims \<longrightarrow> (\<exists>k. randint rnd (pos + k) (prod_list dims) = x)) \<and>
     (\<forall>pos i v. i < length dims \<and> 0 \<le> v \<and> v < dims ! i \<longrightarrow>
        (\<exists>k. nat (randint rnd (pos + 2 * k) (int (length dims))) = i \<and> randint rnd (Suc (pos + 2 * k)) (dims ! i) = v))"

lemma walk_move_fair:
  assumes "fair rnd dims" and "length old = length dims" and "i < length dims" and "1 < dims ! i"
  shows "\<exists>k v. walk_move rnd dims old (pos + 2 * k) = (i, v) \<and> v \<noteq> old ! i"
proof -
  let ?v = "if old ! i = 0 then 1 else 0 :: int"
  have "0 \<le> ?v" "?v < dims ! i" "?v \<noteq> old ! i" using assms(4) by auto
  moreover from this assms(1,3) obtain k where
    "nat (randint rnd (pos + 2 * k) (int (length dims))) = i" "randint rnd (Suc (pos + 2 * k)) (dims ! i) = ?v"
    unfolding fair_def by blast
  ultimately show ?thesis using assms(2) by (intro exI [of _ k] exI [of _ ?v]) (simp add: walk_move_def Let_def)
qed

lemma random_walk_returns:
  assumes "fair rnd dims" and "dims_ok dims" and "i < length dims" and "1 < dims ! i" and "0 \<le> p"
  shows "\<exists>r pos'. random_walk rnd p dims pos = Some (r, pos')"
proof -
  obtain old where old: "point2knob p dims = Inr old" "length old = length dims"
    using point2knob_ok [OF assms(2,5)] by metis
  have ok: "walk_ok dims old" using assms(2,3) old(2) by (auto simp: walk_ok_def dims_ok_def)
  obtain k v where "walk_move rnd dims old (pos + 2 * k) = (i, v)" "v \<noteq> old ! i"
    using walk_move_fair [OF assms(1) old(2) assms(3,4)] by blast
  from walk_loop_returns [OF ok this] old(1) ok show ?thesis by (auto simp: random_walk_def walk_ok_def)
qed

lemma walk_all_returns:
  assumes "fair rnd dims" and "dims_ok dims" and "i < length dims" and "1 < dims ! i"
  shows "list_all (\<lambda>p. 0 \<le> p) points \<Longrightarrow> \<exists>r. walk_all rnd points dims pos = Some r"
proof (induction points arbitrary: pos)
  case (Cons p points)
  then obtain r pos1 where r: "random_walk rnd p dims pos = Some (r, pos1)"
    using random_walk_returns [OF assms] by fastforce
  from Cons.IH [of pos1] Cons.prems obtain r2 where "walk_all rnd points dims pos1 = Some r2" by auto
  with r show ?case by (cases r) auto
qed simp

lemma sa_loop_returns:
  assumes "fair rnd dims" and "dims_ok dims" and "i < length dims" and "1 < dims ! i" and "0 < n"
  shows "work_ok f dims ex n w \<Longrightarrow> \<exists>r. sa_loop m rnd (map f) accept dims cool es k w = Some r"
proof (induction m arbitrary: k w)
  case (Suc m)
  have ne: "dims \<noteq> []" using assms(3) by auto
  show ?case
  proof (cases "k < sw_last_modify w + es")
    case True
    have "list_all (\<lambda>p. 0 \<le> p) (sw_points w)" using Suc.prems by (auto simp: work_ok_def list_all_iff)
    then obtain r1 pos1 where "walk_all rnd (sw_points w) dims (sw_pos w) = Some (r1, pos1)"
      using walk_all_returns [OF assms(1-4)] by (metis prod.collapse)
    then obtain r2 w1 where it: "sa_iter rnd (map f) accept dims cool k w = Some (r2, w1)"
      by (cases r1; cases "heap_offers (zip (map f (projr r1)) (projr r1)) (sw_heap w)")
        (auto simp: sa_iter_def Let_def)
    from sa_iter_ok [OF assms(2) ne assms(5) Suc.prems it] Suc.IH [of w1 "k + 1"] it True show ?thesis by auto
  qed simp
qed simp

lemma sample_loop_returns:
  assumes "fair rnd dims" and "0 < prod_list dims"
  shows "distinct vis \<Longrightarrow> list_all (\<lambda>p. 0 \<le> p \<and> p < prod_list dims) vis \<Longrightarrow> int (length vis + n) \<le> prod_list dims \<Longrightarrow>
           \<exists>r. sample_loop rnd 0 (prod_list dims) n vis pos = Some r"
proof (induction n arbitrary: vis pos)
  case (Suc n)
  have "\<exists>x. 0 \<le> x \<and> x < prod_list dims \<and> x \<notin> set vis"
  proof (rule ccontr)
    assume "\<nexists>x. 0 \<le> x \<and> x < prod_list dims \<and> x \<notin> set vis"
    then have "card {0..<prod_list dims} \<le> card (set vis)" by (intro card_mono) auto
    then show False using Suc.prems(1,3) by (simp add: distinct_card)
  qed
  then obtain x where x: "0 \<le> x" "x < prod_list dims" "x \<notin> set vis" by blast
  then obtain k where "randint rnd (pos + k) (prod_list dims) = x" using assms(1) unfolding fair_def by blast
  with x(3) obtain y pos1 where d: "draw_fresh rnd (prod_list dims) vis pos = Some (y, pos1)"
    using draw_fresh_returns [of rnd pos k "prod_list dims" vis] by auto
  have "y \<notin> set vis \<and> 0 \<le> y \<and> y < prod_list dims"
    using draw_fresh_result [OF d] assms(2) randint_bounds by auto
  with Suc.IH [of "vis @ [y]" pos1] Suc.prems d show ?case by auto
qed simp

subsection \<open>The optimizer\<close>

text \<open>An optimizer over a ready space with at least one knob; the sampled set may be listed in any order.\<close>

definition sa_ok :: "sa_optimizer \<Rightarrow> bool" where
  "sa_ok sa \<longleftrightarrow>
     cs_ready (sa_space sa) \<and> sa_dims sa = map int (space_dims (sa_space sa)) \<and> sa_dims sa \<noteq> [] \<and>
     0 \<le> sa_parallel_size sa \<and> sa_parallel_size sa \<le> prod_list (sa_dims sa) \<and>
     (\<forall>points. sa_points sa = Some points \<longrightarrow> list_all (\<lambda>p. 0 \<le> p \<and> p < prod_list (sa_dims sa)) points)"

lemma sa_ok_dims:
  assumes "sa_ok sa"
  shows "dims_ok (sa_dims sa)" and "0 < prod_list (sa_dims sa)"
    and "fst (cs_len (sa_space sa)) = Inr (prod_list (sa_dims sa))"
proof -
  let ?ds = "space_dims (sa_space sa)"
  have rdy: "cs_ready (sa_space sa)" and d: "sa_dims sa = map int ?ds" using assms by (simp_all add: sa_ok_def)
  have pos: "list_all (\<lambda>d. 0 < d) ?ds" using rdy by (auto simp: cs_ready_def space_dims_def list_all_iff)
  have p: "prod_list (sa_dims sa) = int (prod_list ?ds)" unfolding d by (rule prod_list_map_int)
  show "dims_ok (sa_dims sa)" using pos rdy p d by (auto simp: dims_ok_def cs_ready_def list_all_iff)
  have "0 \<notin> set ?ds" using pos by (auto simp: list_all_iff)
  then have "prod_list ?ds \<noteq> 0" by (simp add: prod_list_zero_iff)
  then show "0 < prod_list (sa_dims sa)" using p by simp
  show "fst (cs_len (sa_space sa)) = Inr (prod_list (sa_dims sa))" using rdy p by (simp add: cs_len_ready)
qed

lemma sa_start_points:
  assumes "sa_ok sa" and "\<And>xs. distinct xs \<Longrightarrow> mset (setiter xs) = mset xs"
    and "sa_start setiter rnd sa pos = Some (r, pos')"
  shows "\<exists>points. r = Inr points \<and> list_all (\<lambda>p. 0 \<le> p \<and> p < prod_list (sa_dims sa)) points"
proof (cases "sa_persistent sa \<and> sa_points sa \<noteq> None")
  case True
  then show ?thesis using assms(1,3) by (auto simp: sa_start_def sa_ok_def)
next
  case False
  obtain s where len: "cs_len (sa_space sa) = (Inr (prod_list (sa_dims sa)), s)"
    using sa_ok_dims(3) [OF assms(1)] by (cases "cs_len (sa_space sa)") auto
  from False assms(3) len have "sample_ints setiter rnd 0 (prod_list (sa_dims sa)) (sa_parallel_size sa) pos = Some (r, pos')"
    by (auto simp: sa_start_def split: bool.splits option.splits)
  then obtain vis where v: "sample_loop rnd 0 (prod_list (sa_dims sa)) (nat (sa_parallel_size sa)) [] pos = Some (vis, pos')"
    "r = Inr (setiter vis)"
    using assms(1) by (auto simp: sample_ints_def sa_ok_def)
  from sample_loop_props [OF v(1) sa_ok_dims(2) [OF assms(1)]] have
    "distinct vis" "list_all (\<lambda>p. 0 \<le> p \<and> p < prod_list (sa_dims sa)) vis" by auto
  with assms(2) [of vis] show ?thesis using v(2) by (metis list_all_iff set_mset_mset)
qed

lemma initial_heap_ok:
  fixes n :: nat
  assumes "list_all (\<lambda>x. 0 \<le> x) ex"
  defines "heap \<equiv> rev (map (\<lambda>i. (None, -1 - int i)) [0..<n])"
  shows "heap_ok f N ex n (heap, remdups (ex @ map snd heap))"
proof -
  have "sorted heap" unfolding heap_def
    by (auto simp: sorted_iff_nth_mono rev_nth less_eq_prod_def)
  moreover have "distinct (map snd heap)" unfolding heap_def
    by (simp add: rev_map [symmetric] distinct_map inj_on_def)
  ultimately show ?thesis using assms(1) by (auto simp: heap_ok_def heap_def list_all_iff)
qed

lemma find_maximums_sound:
  assumes "sa_ok sa" and "\<And>xs. distinct xs \<Longrightarrow> mset (setiter xs) = mset xs"
    and "list_all (\<lambda>x. 0 \<le> x) ex" and "0 < n"
    and "find_maximums setiter rnd accept (map f) (PInt (int n)) ex sa pos = Some (r, (sa', pos'))"
  shows "\<exists>pts. r = Inr pts \<and> maximums_ok f (prod_list (sa_dims sa)) ex n pts \<and> sa_ok sa' \<and> sa_dims sa' = sa_dims sa"
proof -
  let ?N = "prod_list (sa_dims sa)"
  from assms(5) obtain r1 pos1 where st: "sa_start setiter rnd sa pos = Some (r1, pos1)"
    by (auto simp: find_maximums_def bind_eq_Some_conv)
  from sa_start_points [OF assms(1,2) st] obtain points where
    pts: "r1 = Inr points" "list_all (\<lambda>p. 0 \<le> p \<and> p < ?N) points" by blast
  define heap where "heap = rev (map (\<lambda>i. (None :: rat option, -1 - int i)) [0..<n])"
  have h0: "heap_ok f ?N ex n (heap, remdups (ex @ map snd heap))"
    unfolding heap_def by (rule initial_heap_ok) (rule assms(3))
  obtain hi c where hi: "heap_offers (zip (map f points) points) (heap, remdups (ex @ map snd heap)) = Inr (hi, c)"
    "heap_ok f ?N ex n hi" using heap_offers_ok [OF h0 assms(4) pts(2)] by blast
  define tc where "tc = (case sa_temp sa of TConst t \<Rightarrow> (t, 0) | TCool t0 t1 \<Rightarrow> (t0, (t0 - t1) / (of_nat (sa_n_iter sa) + 1)))"
  define w0 where "w0 = \<lparr>sw_points = points, sw_scores = map f points, sw_heap = hi, sw_last_modify = 0,
      sw_t = fst tc, sw_pos = pos1\<rparr>"
  have "work_ok f (sa_dims sa) ex n w0" using pts(2) hi(2) by (simp add: work_ok_def w0_def)
  moreover have "Option.bind
      (sa_loop (sa_n_iter sa) rnd (map f) accept (sa_dims sa) (snd tc) (sa_early_stop sa) 0 w0)
      (\<lambda>(r2, w). case r2 of Inl e \<Rightarrow> Some (Inl e, (sa, sw_pos w))
         | Inr _ \<Rightarrow> Some (Inr (heap_result (fst (sw_heap w))),
             (if sa_persistent sa then sa\<lparr>sa_points := Some (sw_points w)\<rparr> else sa, sw_pos w))) = Some (r, (sa', pos'))"
    using assms(5) st pts(1) hi(1)
    by (simp add: find_maximums_def heap_def [symmetric] tc_def [symmetric] w0_def Let_def case_prod_unfold)
  then obtain r2 w where
    lp: "sa_loop (sa_n_iter sa) rnd (map f) accept (sa_dims sa) (snd tc) (sa_early_stop sa) 0 w0 = Some (r2, w)"
    and out: "(case r2 of Inl e \<Rightarrow> Some (Inl e, (sa, sw_pos w))
       | Inr _ \<Rightarrow> Some (Inr (heap_result (fst (sw_heap w))),
                 (if sa_persistent sa then sa\<lparr>sa_points := Some (sw_points w)\<rparr> else sa, sw_pos w))) = Some (r, (sa', pos'))"
    unfolding bind_eq_Some_conv by (metis (no_types, lifting) case_prod_unfold prod.collapse)
  ultimately have w: "r2 = Inr ()" "work_ok f (sa_dims sa) ex n w"
    using sa_loop_ok [OF sa_ok_dims(1) [OF assms(1)] _ assms(4) _ lp] assms(1) by (auto simp: sa_ok_def)
  then have "maximums_ok f ?N ex n (heap_result (fst (sw_heap w)))"
    using heap_result_ok [of f ?N ex n "fst (sw_heap w)" "snd (sw_heap w)"] by (simp add: work_ok_def)
  moreover have "sa_ok sa' \<and> sa_dims sa' = sa_dims sa"
    using out w assms(1) by (cases "sa_persistent sa") (auto simp: sa_ok_def work_ok_def)
  ultimately show ?thesis using out w(1) by auto
qed

lemma find_maximums_returns:
  assumes "sa_ok sa" and "\<And>xs. distinct xs \<Longrightarrow> mset (setiter xs) = mset xs"
    and "list_all (\<lambda>x. 0 \<le> x) ex" and "0 < n"
    and "fair rnd (sa_dims sa)" and "i < length (sa_dims sa)" and "1 < sa_dims sa ! i"
  shows "\<exists>r. find_maximums setiter rnd accept (map f) (PInt (int n)) ex sa pos = Some r"
proof -
  let ?N = "prod_list (sa_dims sa)"
  obtain s where len: "cs_len (sa_space sa) = (Inr ?N, s)"
    using sa_ok_dims(3) [OF assms(1)] by (cases "cs_len (sa_space sa)") auto
  obtain v where "sample_loop rnd 0 ?N (nat (sa_parallel_size sa)) [] pos = Some v"
    using sample_loop_returns [OF assms(5) sa_ok_dims(2) [OF assms(1)], of "[]" "nat (sa_parallel_size sa)" pos] assms(1)
    by (auto simp: sa_ok_def)
  then have "\<exists>q. sample_ints setiter rnd 0 ?N (sa_parallel_size sa) pos = Some q" by (auto simp: sample_ints_def)
  then obtain r1 pos1 where st: "sa_start setiter rnd sa pos = Some (r1, pos1)"
    using len by (cases "sa_persistent sa"; cases "sa_points sa") (auto simp: sa_start_def)
  from sa_start_points [OF assms(1,2) st] obtain points where
    pts: "r1 = Inr points" "list_all (\<lambda>p. 0 \<le> p \<and> p < ?N) points" by blast
  define heap where "heap = rev (map (\<lambda>i. (None :: rat option, -1 - int i)) [0..<n])"
  have h0: "heap_ok f ?N ex n (heap, remdups (ex @ map snd heap))"
    unfolding heap_def by (rule initial_heap_ok) (rule assms(3))
  obtain hi c where hi: "heap_offers (zip (map f points) points) (heap, remdups (ex @ map snd heap)) = Inr (hi, c)"
    "heap_ok f ?N ex n hi" using heap_offers_ok [OF h0 assms(4) pts(2)] by blast
  define tc where "tc = (case sa_temp sa of TConst t \<Rightarrow> (t, 0) | TCool t0 t1 \<Rightarrow> (t0, (t0 - t1) / (of_nat (sa_n_iter sa) + 1)))"
  define w0 where "w0 = \<lparr>sw_points = points, sw_scores = map f points, sw_heap = hi, sw_last_modify = 0,
      sw_t = fst tc, sw_pos = pos1\<rparr>"
  have "work_ok f (sa_dims sa) ex n w0" using pts(2) hi(2) by (simp add: work_ok_def w0_def)
  from sa_loop_returns [OF assms(5) sa_ok_dims(1) [OF assms(1)] assms(6,7,4) this] obtain r2 w where
    "sa_loop (sa_n_iter sa) rnd (map f) accept (sa_dims sa) (snd tc) (sa_early_stop sa) 0 w0 = Some (r2, w)"
    by (metis prod.collapse)
  then show ?thesis using st pts(1) hi(1)
    by (cases r2) (simp_all add: find_maximums_def heap_def [symmetric] tc_def [symmetric] w0_def Let_def case_prod_unfold)
qed

subsection \<open>Properties\<close>

text \<open>
  [C23] The annealing search over a ready space with a knob of two or more values ends when the random
  stream is fair, and what it returns is what the interface of \<^verbatim>\<open>ModelOptimizer\<close> promises: at most
  \<^verbatim>\<open>num\<close> distinct points of the space, none of them excluded, each with a non-negative predicted
  score, the highest scores first.
\<close>

theorem annealing_maximums:
  assumes "sa_ok sa" and "\<And>xs. distinct xs \<Longrightarrow> mset (setiter xs) = mset xs"
    and "list_all (\<lambda>x. 0 \<le> x) ex" and "0 < n"
    and "fair rnd (sa_dims sa)" and "\<exists>d \<in> set (sa_dims sa). 1 < d"
  shows "\<exists>pts sa' pos'. find_maximums setiter rnd accept (map f) (PInt (int n)) ex sa pos = Some (Inr pts, (sa', pos')) \<and>
           maximums_ok f (prod_list (sa_dims sa)) ex n pts \<and> sa_ok sa'"
proof -
  obtain i where "i < length (sa_dims sa)" "1 < sa_dims sa ! i" using assms(6) by (metis in_set_conv_nth)
  from find_maximums_returns [OF assms(1-5) this] obtain r sa' pos' where
    fm: "find_maximums setiter rnd accept (map f) (PInt (int n)) ex sa pos = Some (r, (sa', pos'))"
    by (metis prod.collapse)
  from find_maximums_sound [OF assms(1-4) fm] fm show ?thesis by blast
qed

text \<open>A space of one knob with two values and a fair stream for it.\<close>

definition demo_sa :: sa_optimizer where
  "demo_sa = \<lparr>sa_space = snd (define_knob id ''a'' [PInt 1, PInt 2] mk_config_space), sa_dims = [2],
              sa_n_iter = 5, sa_temp = TCool 1 0, sa_persistent = True, sa_parallel_size = 1,
              sa_early_stop = 50, sa_points = None\<rparr>"

lemma demo_sa_ok: "sa_ok demo_sa"
  by (simp add: sa_ok_def demo_sa_def define_knob_def add_new_transform_def mk_config_space_def mk_space_def
      space_getitem_def space_entities_def py_get_def Let_def space_dims_def space_len_def cs_ready_def)

lemma demo_fair: "fair (\<lambda>k. k div 2) [2]"
proof -
  have "\<exists>k. randint (\<lambda>k. k div 2) (pos + k) (prod_list [2]) = x" if "0 \<le> x" "x < 2" for pos x
  proof (intro exI)
    have "(pos + (3 * pos + 2 * nat x)) div 2 = 2 * pos + nat x" by simp
    then show "randint (\<lambda>k. k div 2) (pos + (3 * pos + 2 * nat x)) (prod_list [2]) = x"
      using that unfolding randint_def by simp
  qed
  moreover have "\<exists>k. randint (\<lambda>k. k div 2) (Suc (pos + 2 * k)) 2 = v" if "0 \<le> v" "v < 2" for pos v
  proof (intro exI)
    have "Suc (pos + 2 * (Suc pos div 2 + nat v)) div 2 = Suc pos div 2 + (Suc pos div 2 + nat v)"
      using div_mult_self2 [of 2 "Suc pos" "Suc pos div 2 + nat v"] by simp
    then have "Suc (pos + 2 * (Suc pos div 2 + nat v)) div 2 = 2 * (Suc pos div 2) + nat v" by simp
    then show "randint (\<lambda>k. k div 2) (Suc (pos + 2 * (Suc pos div 2 + nat v))) 2 = v"
      using that unfolding randint_def by simp
  qed
  ultimately show ?thesis by (simp add: fair_def randint_def)
qed

theorem annealing_maximums_witness:
  "\<exists>pts sa' pos'. find_maximums id (\<lambda>k. k div 2) (\<lambda>n q t i. q < n) (map of_int) (PInt (int 2)) [0] demo_sa 0 =
     Some (Inr pts, (sa', pos')) \<and> maximums_ok of_int 2 [0] 2 pts"
proof -
  have "fair (\<lambda>k. k div 2) (sa_dims demo_sa)" by (simp add: demo_sa_def demo_fair)
  moreover have "\<exists>d \<in> set (sa_dims demo_sa). 1 < d" by (simp add: demo_sa_def)
  ultimately have "\<exists>pts sa' pos'. find_maximums id (\<lambda>k. k div 2) (\<lambda>n q t i. q < n) (map of_int) (PInt (int 2)) [0] demo_sa 0 =
      Some (Inr pts, (sa', pos')) \<and> maximums_ok of_int (prod_list (sa_dims demo_sa)) [0] 2 pts \<and> sa_ok sa'"
    by (intro annealing_maximums demo_sa_ok) simp_all
  then show ?thesis by (auto simp: demo_sa_def)
qed

text \<open>
  [C39] The random walk never returns on a space in which every knob has a single value.
\<close>

theorem random_walk_stuck:
  assumes "list_all (\<lambda>d. d = 1) dims" and "dims \<noteq> []"
  shows "random_walk rnd 0 dims pos = None"
proof -
  let ?old = "replicate (length dims) (0 :: int)"
  have "point2knob 0 dims = Inr ?old" using assms(1) by (induction dims) auto
  moreover have "walk_loop rnd dims ?old ?old pos = None"
  proof (rule ccontr)
    assume "walk_loop rnd dims ?old ?old pos \<noteq> None"
    then obtain r where "walk_loop rnd dims ?old ?old pos = Some r" by blast
    moreover have "walk_ok dims ?old" using assms by (auto simp: walk_ok_def list_all_iff)
    ultimately have "neighbour dims ?old (fst r)" using walk_loop_neighbour by blast
    then show False using assms(1) by (auto simp: neighbour_def list_all_length)
  qed
  ultimately show ?thesis using assms(2) by (simp add: random_walk_def)
qed

theorem random_walk_stuck_witness: "random_walk (\<lambda>k. k) 0 [1, 1] 7 = None"
  by (rule random_walk_stuck) simp_all

end
