(* ===== verification/Model_Tuner.thy ===== *)
theory Model_Tuner
  imports SA_Optimizer Tuner_Loop
begin

section \<open>The model based tuner\<close>

text \<open>
  \<^verbatim>\<open>ModelBasedTuner\<close> of \<^verbatim>\<open>src/python/tvm/autotvm/tuner/model_based_tuner.py\<close>.  The cost model is external
  (its training is a third-party library): a state \<open>'m\<close>, the score it predicts for a point, and its
  training operations are parameters; so is the optimizer, with a state \<open>'q\<close>.
\<close>

subsection \<open>Definitions\<close>

record ('m, 'q, 'd) model_env =
  me_fit :: "int list \<Rightarrow> fl list \<Rightarrow> nat \<Rightarrow> 'm \<Rightarrow> 'm"
  me_score :: "'m \<Rightarrow> int \<Rightarrow> rat"
  me_spawn_base_model :: "'m \<Rightarrow> 'm"
  me_fit_log :: "'d \<Rightarrow> nat \<Rightarrow> 'm \<Rightarrow> bool \<times> 'm"
  me_load_basemodel :: "'m \<Rightarrow> 'm \<Rightarrow> 'm"
  me_find_maximums :: "(int \<Rightarrow> rat) \<Rightarrow> pyval \<Rightarrow> int list \<Rightarrow> 'q \<Rightarrow> nat \<Rightarrow> ('q \<times> nat, int list) outcome option"

text \<open>
  \<open>mt_trials_np\<close> says that the trial list is a numpy array; the ratio is an integer or a float.
\<close>

record ('m, 'q) model_tuner =
  mt_space :: config_space
  mt_plan_size :: nat
  mt_dims :: "int list"
  mt_ratio :: "pyval option"
  mt_trials :: "int list"
  mt_trials_np :: bool
  mt_trial_pt :: nat
  mt_visited :: "int list"
  mt_xs :: "int list"
  mt_ys :: "fl list"
  mt_flops_max :: fl
  mt_train_ct :: nat
  mt_model :: 'm
  mt_opt :: 'q
  mt_pos :: nat
  mt_in_tuning :: bool

text \<open>A number that Python takes for true.\<close>

definition py_truthy :: "pyval \<Rightarrow> bool" where
  "py_truthy v = (case v of PInt n \<Rightarrow> n \<noteq> 0 | PFloat x \<Rightarrow> x \<noteq> 0 | PBool b \<Rightarrow> b | PNone \<Rightarrow> False | _ \<Rightarrow> True)"

definition py_ge_1 :: "pyval \<Rightarrow> bool" where
  "py_ge_1 v = (case v of PInt n \<Rightarrow> n \<ge> 1 | PFloat x \<Rightarrow> x \<ge> 1 | _ \<Rightarrow> True)"

definition py_times :: "nat \<Rightarrow> pyval \<Rightarrow> pyval" where
  "py_times k v = (case v of PInt n \<Rightarrow> PInt (int k * n) | PFloat x \<Rightarrow> PFloat (of_nat k * x) | _ \<Rightarrow> v)"

definition mk_model_tuner ::
    "config_space \<Rightarrow> 'm \<Rightarrow> 'q \<Rightarrow> nat \<Rightarrow> pyval option \<Rightarrow> nat \<Rightarrow> ('m, 'q) model_tuner res" where
  "mk_model_tuner space model opt plan_size ratio pos =
     (case cs_len space of
        (Inl e, _) \<Rightarrow> Inl e
      | (Inr n, space') \<Rightarrow>
          assertE (case ratio of None \<Rightarrow> True | Some v \<Rightarrow> py_truthy v \<longrightarrow> py_ge_1 v)
            (Inr \<lparr>mt_space = space', mt_plan_size = plan_size,
                  mt_dims = map (\<lambda>(name, sp). int (space_len sp)) (cs_space_map space),
                  mt_ratio = ratio, mt_trials = [], mt_trials_np = False, mt_trial_pt = 0, mt_visited = [],
                  mt_xs = [], mt_ys = [], mt_flops_max = Fin 0, mt_train_ct = 0,
                  mt_model = model, mt_opt = opt, mt_pos = pos, mt_in_tuning = False\<rparr>))"

text \<open>The inner \<^verbatim>\<open>while\<close>: the first position from \<open>pt\<close> on whose trial has not been visited.\<close>

fun skip_visited :: "int list \<Rightarrow> int list \<Rightarrow> nat \<Rightarrow> nat" where
  "skip_visited visited [] pt = pt"
| "skip_visited visited (x # xs) pt = (if x \<in> set visited then skip_visited visited xs (Suc pt) else pt)"

text \<open>\<^verbatim>\<open>int(0.05 * plan_size)\<close> trials at the end of the plan are left to random choice.\<close>

fun mt_next_batch ::
    "rng \<Rightarrow> nat \<Rightarrow> ('m, 'q) model_tuner \<Rightarrow> (('m, 'q) model_tuner, config_entity list) outcome option" where
  "mt_next_batch rnd 0 t = Some (Inr [], t)"
| "mt_next_batch rnd (Suc n) t =
     (case cs_len (mt_space t) of
        (Inl e, sp) \<Rightarrow> Some (Inl e, t\<lparr>mt_space := sp\<rparr>)
      | (Inr len, sp) \<Rightarrow>
          if int (length (mt_visited t)) \<ge> len then Some (Inr [], t\<lparr>mt_space := sp\<rparr>)
          else
            let pt = skip_visited (mt_visited t) (drop (mt_trial_pt t) (mt_trials t)) (mt_trial_pt t)
            in Option.bind
                 (if int pt \<ge> int (length (mt_trials t)) - int (mt_plan_size t div 20)
                  then draw_fresh rnd len (mt_visited t) (mt_pos t)
                  else Some (mt_trials t ! pt, mt_pos t))
                 (\<lambda>(index, pos).
                    case cs_get index sp of
                      (Inl e, sp2) \<Rightarrow> Some (Inl e, t\<lparr>mt_space := sp2, mt_trial_pt := pt, mt_pos := pos\<rparr>)
                    | (Inr c, sp2) \<Rightarrow>
                        map_option (\<lambda>(r, t'). (bindE r (\<lambda>cs. Inr (c # cs)), t'))
                          (mt_next_batch rnd n
                             (t\<lparr>mt_space := sp2, mt_trial_pt := pt, mt_pos := pos,
                                mt_visited := index # mt_visited t\<rparr>))))"

definition mt_has_next :: "('m, 'q) model_tuner \<Rightarrow> bool res" where
  "mt_has_next t = bindE (fst (cs_len (mt_space t))) (\<lambda>len. Inr (int (length (mt_visited t)) < len))"


text \<open>The next plan: the maximums of the model, filtered for diversity when a ratio is set; the
  second component of the result says whether the plan is a numpy array.\<close>

definition mt_plan ::
    "('m, 'q, 'd) model_env \<Rightarrow> ('m, 'q) model_tuner \<Rightarrow> (('m, 'q) model_tuner, int list \<times> bool) outcome option" where
  "mt_plan env t =
     (let f = me_score env (mt_model t)
      in if (case mt_ratio t of None \<Rightarrow> False | Some v \<Rightarrow> py_truthy v) then
           map_option (\<lambda>(r, (q, pos)).
               let t1 = t\<lparr>mt_opt := q, mt_pos := pos\<rparr>
               in (bindE r (\<lambda>candidate.
                   bindE (mapE (\<lambda>x. point2knob x (mt_dims t)) candidate) (\<lambda>knobs.
                   bindE (submodular_pick (map (\<lambda>s. 0 * f s) candidate) knobs (mt_plan_size t) 1) (\<lambda>pick.
                     Inr (map (\<lambda>i. candidate ! i) pick, True)))), t1))
             (me_find_maximums env f (py_times (mt_plan_size t) (the (mt_ratio t))) (mt_visited t) (mt_opt t) (mt_pos t))
         else
           map_option (\<lambda>(r, (q, pos)). (bindE r (\<lambda>pts. Inr (pts, False)), t\<lparr>mt_opt := q, mt_pos := pos\<rparr>))
             (me_find_maximums env f (PInt (int (mt_plan_size t))) (mt_visited t) (mt_opt t) (mt_pos t)))"


text \<open>\<^verbatim>\<open>not self.trials\<close>: a numpy array of several elements has no truth value.\<close>

definition trials_falsy :: "('m, 'q) model_tuner \<Rightarrow> bool res" where
  "trials_falsy t =
     (if mt_trials_np t then
        (case mt_trials t of [] \<Rightarrow> Inr True | [x] \<Rightarrow> Inr (x = 0) | _ \<Rightarrow> Inl ValueError)
      else Inr (mt_trials t = []))"

definition mt_load_history ::
    "('m, 'q, 'd) model_env \<Rightarrow> 'd \<Rightarrow> ('m, 'q) model_tuner \<Rightarrow> (('m, 'q) model_tuner, unit) outcome option" where
  "mt_load_history env data_set t =
     (let t1 = t\<lparr>mt_in_tuning := True\<rparr>;
          (success, base) = me_fit_log env data_set (mt_plan_size t) (me_spawn_base_model env (mt_model t))
      in if \<not> success then Some (Inr (), t1\<lparr>mt_in_tuning := False\<rparr>)
         else case trials_falsy t1 of
                Inl e \<Rightarrow> Some (Inl e, t1)
              | Inr False \<Rightarrow>
                  Some (Inr (), t1\<lparr>mt_model := me_load_basemodel env base (mt_model t1), mt_in_tuning := False\<rparr>)
              | Inr True \<Rightarrow>
                  map_option (\<lambda>(r, (q, pos)).
                      case r of
                        Inl e \<Rightarrow> (Inl e, t1\<lparr>mt_opt := q, mt_pos := pos\<rparr>)
                      | Inr pts \<Rightarrow>
                          (Inr (), t1\<lparr>mt_opt := q, mt_pos := pos, mt_trials := pts, mt_trials_np := False,
                                      mt_trial_pt := 0, mt_model := me_load_basemodel env base (mt_model t1),
                                      mt_in_tuning := False\<rparr>))
                    (me_find_maximums env (me_score env base) (PInt (int (mt_plan_size t1))) (mt_visited t1)
                       (mt_opt t1) (mt_pos t1)))"

subsection \<open>Batches\<close>

text \<open>A tuner in the middle of its work on a space of \<open>N\<close> points.\<close>

definition mt_ok :: "int \<Rightarrow> ('m, 'q) model_tuner \<Rightarrow> bool" where
  "mt_ok N t \<longleftrightarrow>
     cs_ready (mt_space t) \<and> int (prod_list (space_dims (mt_space t))) = N \<and>
     distinct (mt_visited t) \<and> list_all (\<lambda>p. 0 \<le> p \<and> p < N) (mt_visited t) \<and>
     list_all (\<lambda>p. 0 \<le> p \<and> p < N) (mt_trials t)"

lemma skip_visited_bounds:
  "pt \<le> skip_visited v xs pt \<and> skip_visited v xs pt \<le> pt + length xs \<and>
   (skip_visited v xs pt < pt + length xs \<longrightarrow> xs ! (skip_visited v xs pt - pt) \<notin> set v)"
proof (induction xs arbitrary: pt)
  case (Cons x xs)
  show ?case
  proof (cases "x \<in> set v")
    case True
    then show ?thesis using Cons.IH [of "Suc pt"] by (auto simp: nth_Cons' Suc_le_eq)
  qed simp
qed simp

lemma cs_len_keeps:
  assumes "cs_ready s"
  shows "\<exists>s'. cs_len s = (Inr (int (prod_list (space_dims s))), s') \<and> cs_ready s' \<and> space_dims s' = space_dims s"
  using assms by (auto simp: cs_len_ready) (auto simp: cs_ready_def space_dims_def)

lemma trial_unvisited:
  assumes "pt = skip_visited v (drop p0 trials) p0" and "pt < length trials"
  shows "trials ! pt \<notin> set v"
proof -
  have b: "p0 \<le> pt" "pt < p0 + length (drop p0 trials) \<longrightarrow> drop p0 trials ! (pt - p0) \<notin> set v"
    using skip_visited_bounds [of p0 v "drop p0 trials"] assms(1) by auto
  with assms(2) show ?thesis by (auto simp: nth_drop)
qed

lemma unseen_exists:
  assumes "distinct v" and "list_all (\<lambda>p. 0 \<le> p \<and> p < N) v" and "int (length v) < N"
  shows "\<exists>x. 0 \<le> x \<and> x < N \<and> x \<notin> set (v :: int list)"
proof (rule ccontr)
  assume "\<nexists>x. 0 \<le> x \<and> x < N \<and> x \<notin> set v"
  then have "card {0..<N} \<le> card (set v)" by (intro card_mono) auto
  then show False using assms(1,3) by (simp add: distinct_card)
qed

text \<open>The choice of one index: a fresh one, from the plan or at random.\<close>

lemma mt_choice:
  assumes "mt_ok N t" and "\<And>pos x. 0 \<le> x \<Longrightarrow> x < N \<Longrightarrow> \<exists>k. randint rnd (pos + k) N = x"
    and "int (length (mt_visited t)) < N"
    and "pt = skip_visited (mt_visited t) (drop (mt_trial_pt t) (mt_trials t)) (mt_trial_pt t)"
  shows "\<exists>index pos. (if int pt \<ge> int (length (mt_trials t)) - int (mt_plan_size t div 20)
            then draw_fresh rnd N (mt_visited t) (mt_pos t) else Some (mt_trials t ! pt, mt_pos t)) = Some (index, pos) \<and>
          0 \<le> index \<and> index < N \<and> index \<notin> set (mt_visited t)"
proof (cases "int pt \<ge> int (length (mt_trials t)) - int (mt_plan_size t div 20)")
  case True
  obtain x where "0 \<le> x" "x < N" "x \<notin> set (mt_visited t)"
    using unseen_exists [of "mt_visited t" N] assms(1,3) by (auto simp: mt_ok_def)
  moreover from this assms(2) obtain k where "randint rnd (mt_pos t + k) N = x" by blast
  ultimately obtain y pos where d: "draw_fresh rnd N (mt_visited t) (mt_pos t) = Some (y, pos)"
    using draw_fresh_returns [of rnd "mt_pos t" k N "mt_visited t"] by auto
  have "0 < N" using assms(3) by linarith
  with draw_fresh_result [OF d] randint_bounds have "y \<notin> set (mt_visited t)" "0 \<le> y" "y < N" by auto
  then show ?thesis using True d by auto
next
  case False
  then have "pt < length (mt_trials t)" by linarith
  with trial_unvisited [OF assms(4)] assms(1) False show ?thesis by (auto simp: mt_ok_def list_all_length)
qed

lemma mt_next_batch_fresh:
  assumes "mt_ok N t" and fair: "\<And>pos x. 0 \<le> x \<Longrightarrow> x < N \<Longrightarrow> \<exists>k. randint rnd (pos + k) N = x"
  shows "\<exists>cs t'. mt_next_batch rnd n t = Some (Inr cs, t') \<and> mt_ok N t' \<and>
           mt_visited t' = rev (map ce_index cs) @ mt_visited t \<and>
           int (length cs) = min (int n) (N - int (length (mt_visited t)))"
  using assms(1)
proof (induction n arbitrary: t)
  case 0
  have "card (set (mt_visited t)) \<le> card {0..<N}"
    using 0 by (intro card_mono) (auto simp: mt_ok_def list_all_iff)
  then have "0 \<le> N - int (length (mt_visited t))" using 0 by (auto simp: mt_ok_def distinct_card)
  with 0 show ?case by simp
next
  case (Suc n)
  obtain sp where sp: "cs_len (mt_space t) = (Inr N, sp)" "cs_ready sp" "space_dims sp = space_dims (mt_space t)"
    using cs_len_keeps [of "mt_space t"] Suc.prems by (auto simp: mt_ok_def)
  show ?case
  proof (cases "int (length (mt_visited t)) \<ge> N")
    case True
    have "card (set (mt_visited t)) \<le> card {0..<N}"
      using Suc.prems by (intro card_mono) (auto simp: mt_ok_def list_all_iff)
    moreover have "0 \<le> N" using Suc.prems by (auto simp: mt_ok_def)
    ultimately have "int (length (mt_visited t)) = N" using Suc.prems True by (auto simp: mt_ok_def distinct_card)
    with True sp Suc.prems show ?thesis by (auto simp: mt_ok_def)
  next
    case False
    define pt where "pt = skip_visited (mt_visited t) (drop (mt_trial_pt t) (mt_trials t)) (mt_trial_pt t)"
    obtain index pos where ch: "(if int pt \<ge> int (length (mt_trials t)) - int (mt_plan_size t div 20)
            then draw_fresh rnd N (mt_visited t) (mt_pos t) else Some (mt_trials t ! pt, mt_pos t)) = Some (index, pos)"
      "0 \<le> index" "index < N" "index \<notin> set (mt_visited t)"
      using mt_choice [OF Suc.prems fair _ pt_def] False by auto
    have N: "int (prod_list (space_dims sp)) = N" using sp(3) Suc.prems by (simp add: mt_ok_def)
    obtain c sp2 where g: "cs_get index sp = (Inr c, sp2)" "ce_index c = index"
      using cs_index.get_in [OF sp(2), of index] ch(2,3) N by (cases "cs_get index sp") auto
    have sp2: "cs_ready sp2" "int (prod_list (space_dims sp2)) = N"
      using cs_index.get_keeps [OF sp(2), of index] g(1) N by auto
    let ?t = "t\<lparr>mt_space := sp2, mt_trial_pt := pt, mt_pos := pos, mt_visited := index # mt_visited t\<rparr>"
    have "mt_ok N ?t" using Suc.prems sp2 ch by (simp add: mt_ok_def)
    from Suc.IH [OF this] obtain cs t' where r: "mt_next_batch rnd n ?t = Some (Inr cs, t')" "mt_ok N t'"
      "mt_visited t' = rev (map ce_index cs) @ index # mt_visited t"
      "int (length cs) = min (int n) (N - int (length (index # mt_visited t)))" by auto
    have "mt_next_batch rnd (Suc n) t = Some (Inr (c # cs), t')"
      using sp(1) False ch(1) g(1) r(1) by (simp add: pt_def [symmetric] Let_def)
    then show ?thesis using r(2-) g(2) False by (intro exI [of _ "c # cs"] exI [of _ t']) auto
  qed
qed

subsection \<open>Plans\<close>







subsection \<open>Properties\<close>

text \<open>
  [C27] On a fair random stream a batch of the model based tuner is made without error or endless loop:
  it has as many configurations as asked for or as are left, all of them unvisited and different,
  and exactly they are added to the visited set.
\<close>

theorem model_batches_fresh:
  assumes "mt_ok N t" and "\<And>pos x. 0 \<le> x \<Longrightarrow> x < N \<Longrightarrow> \<exists>k. randint rnd (pos + k) N = x"
  shows "\<exists>cs t'. mt_next_batch rnd n t = Some (Inr cs, t') \<and> mt_ok N t' \<and>
           int (length cs) = min (int n) (N - int (length (mt_visited t))) \<and>
           distinct (map ce_index cs) \<and> set (map ce_index cs) \<inter> set (mt_visited t) = {} \<and>
           set (mt_visited t') = set (map ce_index cs) \<union> set (mt_visited t)"
proof -
  obtain cs t' where r: "mt_next_batch rnd n t = Some (Inr cs, t')" "mt_ok N t'"
    "mt_visited t' = rev (map ce_index cs) @ mt_visited t"
    "int (length cs) = min (int n) (N - int (length (mt_visited t)))"
    using mt_next_batch_fresh [OF assms, of n] by auto
  have "distinct (rev (map ce_index cs) @ mt_visited t)" using r(2,3) by (simp add: mt_ok_def)
  then show ?thesis using r by (intro exI [of _ cs] exI [of _ t']) (auto simp del: rev_map)
qed

definition demo_model_tuner :: "(unit, sa_optimizer) model_tuner" where
  "demo_model_tuner =
     \<lparr>mt_space = demo_space, mt_plan_size = 2, mt_dims = [2, 3], mt_ratio = None, mt_trials = [4, 1],
      mt_trials_np = False, mt_trial_pt = 0, mt_visited = [4], mt_xs = [], mt_ys = [], mt_flops_max = Fin 0,
      mt_train_ct = 0, mt_model = (), mt_opt = demo_sa, mt_pos = 0, mt_in_tuning = False\<rparr>"

lemma demo_model_tuner_ok: "mt_ok 6 demo_model_tuner"
  by (simp add: mt_ok_def demo_model_tuner_def cs_ready_def demo_space_simps space_len_def space_entities_def)

theorem model_batches_fresh_witness:
  "\<exists>cs t'. mt_next_batch (\<lambda>k. k) 3 demo_model_tuner = Some (Inr cs, t') \<and> length cs = 3 \<and>
     distinct (map ce_index cs) \<and> 4 \<notin> set (map ce_index cs)"
proof -
  have "\<exists>k. randint (\<lambda>k. k) (pos + k) 6 = x" if "0 \<le> x" "x < 6" for pos x
  proof
    have "int (pos + (5 * pos + nat x)) = 6 * int pos + x" using that(1) by simp
    then show "randint (\<lambda>k. k) (pos + (5 * pos + nat x)) 6 = x" using that unfolding randint_def by simp
  qed
  from model_batches_fresh [OF demo_model_tuner_ok this, of 3] show ?thesis
    by (auto simp: demo_model_tuner_def)
qed



text \<open>
  With a diversity ratio, an optimizer that hands back at least one but fewer candidates than the
  plan size makes the planning step of the update raise \<^verbatim>\<open>ValueError\<close>: the diversity filter runs out
  of candidates and removes \<^verbatim>\<open>-1\<close> from the remaining ones.
\<close>

theorem diversity_filter_short:
  assumes "mt_ratio t = Some (PInt k)" and "k \<noteq> 0" and "dims_ok (mt_dims t)" and "mt_dims t \<noteq> []"
    and "me_find_maximums env (me_score env (mt_model t)) (PInt (int (mt_plan_size t) * k)) (mt_visited t) (mt_opt t) (mt_pos t) =
           Some (Inr candidate, (q, pos))"
    and "candidate \<noteq> []" and "list_all (\<lambda>p. 0 \<le> p) candidate" and "length candidate < mt_plan_size t"
  shows "\<exists>t'. mt_plan env t = Some (Inl ValueError, t')"
proof -
  let ?f = "me_score env (mt_model t)"
  have "\<exists>knob. point2knob p (mt_dims t) = Inr knob \<and> length knob = length (mt_dims t)" if "p \<in> set candidate" for p
    using that assms(7) point2knob_ok [OF assms(3)] by (metis list_all_iff)
  then have "\<exists>knobs. mapE (\<lambda>x. point2knob x (mt_dims t)) candidate = Inr knobs \<and> length knobs = length candidate \<and>
      list_all (\<lambda>k. length k = length (mt_dims t)) knobs"
    by (induction candidate) fastforce+
  then obtain knobs where k: "mapE (\<lambda>x. point2knob x (mt_dims t)) candidate = Inr knobs" "length knobs = length candidate"
    "list_all (\<lambda>k. length k = length (mt_dims t)) knobs" by blast
  have "knobs \<noteq> []" using k(2) assms(6) by auto
  moreover have "\<not> list_ex (\<lambda>k'. length k' < length (hd knobs)) knobs"
    using k(3) \<open>knobs \<noteq> []\<close> by (auto simp: list_ex_iff list_all_iff)
  ultimately have "submodular_pick (map (\<lambda>s. 0 * ?f s) candidate) knobs (mt_plan_size t) 1 = Inl ValueError"
    using k(2) assms(8) submodular_loop_short [of "[0..<length candidate]" "mt_plan_size t"]
    by (cases knobs) (simp_all add: submodular_pick_def)
  then show ?thesis
    using assms(1,2,5) k(1) by (simp add: mt_plan_def py_truthy_def py_times_def Let_def)
qed

theorem diversity_filter_short_witness:
  "\<exists>t'. mt_plan \<lparr>me_fit = (\<lambda>xs ys n m. m), me_score = (\<lambda>m p. of_int p), me_spawn_base_model = id,
        me_fit_log = (\<lambda>(d :: unit) n m. (True, m)), me_load_basemodel = (\<lambda>b m. m),
        me_find_maximums = (\<lambda>f num ex sa pos. Some (Inr [5], (sa, pos)))\<rparr>
      (demo_model_tuner\<lparr>mt_ratio := Some (PInt 2)\<rparr>) = Some (Inl ValueError, t')"
  by (rule diversity_filter_short [where k = 2 and candidate = "[5]"])
    (simp_all add: demo_model_tuner_def dims_ok_def)

end
