(* ===== verification/GA_Tuner.thy ===== *)
theory GA_Tuner
  imports Knob_Points Tuner_Loop
begin

section \<open>The genetic tuner\<close>

text \<open>
  \<^verbatim>\<open>src/python/tvm/autotvm/tuner/ga_tuner.py\<close>.  A gene is a knob vector.  The partial sort and the weighted
  choice of numpy are the parameters \<open>argpartition\<close> (an ordering of the positions whose last \<open>k\<close> hold
  the greatest scores) and \<open>choose2\<close> (two positions drawn with given probabilities).
\<close>

subsection \<open>Definitions\<close>

record ga_tuner =
  ga_space :: config_space
  ga_pop_size :: int
  ga_elite_num :: int
  ga_mutation_prob :: rat
  ga_dim_keys :: "string list"
  ga_dims :: "int list"
  ga_visited :: "int list"
  ga_genes :: "int list list"
  ga_scores :: "fl list"
  ga_elites :: "int list list"
  ga_elite_scores :: "fl list"
  ga_trial_pt :: nat
  ga_pos :: nat

text \<open>\<^verbatim>\<open>np.random.random()\<close>: a multiple of \<open>2\<^sup>-\<^sup>5\<^sup>3\<close> in the unit interval.\<close>

definition rand01 :: "rng \<Rightarrow> nat \<Rightarrow> rat" where
  "rand01 rnd pos = of_nat (rnd pos mod 2 ^ 53) / 2 ^ 53"

partial_function (option) ga_draw ::
    "rng \<Rightarrow> int list \<Rightarrow> int \<Rightarrow> int list \<Rightarrow> nat \<Rightarrow> (nat, int list) outcome option" where
  "ga_draw rnd dims n visited pos =
     (case point2knob (randint rnd pos n) dims of
        Inl e \<Rightarrow> Some (Inl e, Suc pos)
      | Inr gene \<Rightarrow>
          if knob2point gene dims \<in> set visited then ga_draw rnd dims n visited (Suc pos)
          else Some (Inr gene, Suc pos))"

text \<open>The first generation: genes and visited points.\<close>

fun ga_populate ::
    "rng \<Rightarrow> int list \<Rightarrow> int \<Rightarrow> nat \<Rightarrow> int list \<Rightarrow> nat \<Rightarrow> (nat, int list list \<times> int list) outcome option" where
  "ga_populate rnd dims n 0 visited pos = Some (Inr ([], visited), pos)"
| "ga_populate rnd dims n (Suc k) visited pos =
     Option.bind (ga_draw rnd dims n visited pos) (\<lambda>(r, pos1).
       case r of
         Inl e \<Rightarrow> Some (Inl e, pos1)
       | Inr gene \<Rightarrow>
           map_option (\<lambda>(r2, pos2). (bindE r2 (\<lambda>(genes, vis). Inr (gene # genes, vis)), pos2))
             (ga_populate rnd dims n k (List.insert (knob2point gene dims) visited) pos1))"

definition mk_ga_tuner ::
    "rng \<Rightarrow> config_space \<Rightarrow> int \<Rightarrow> int \<Rightarrow> rat \<Rightarrow> nat \<Rightarrow> ga_tuner res option" where
  "mk_ga_tuner rnd space pop_size elite_num mutation_prob pos =
     (if elite_num \<le> pop_size then
        (case cs_len space of
           (Inl e, _) \<Rightarrow> Some (Inl e)
         | (Inr n, space') \<Rightarrow>
             let dims = map (\<lambda>(k, v). int (space_len v)) (cs_space_map space);
                 pop = min pop_size n
             in map_option (\<lambda>(r, pos').
                    bindE r (\<lambda>(genes, visited).
                      Inr \<lparr>ga_space = space', ga_pop_size = pop, ga_elite_num = min pop elite_num,
                           ga_mutation_prob = mutation_prob, ga_dim_keys = map fst (cs_space_map space),
                           ga_dims = dims, ga_visited = visited, ga_genes = genes, ga_scores = [],
                           ga_elites = [], ga_elite_scores = [], ga_trial_pt = 0, ga_pos = pos'\<rparr>))
                  (ga_populate rnd dims n (nat pop) [] pos))
      else Some (Inl AssertionError))"

fun ga_next_batch :: "nat \<Rightarrow> ga_tuner \<Rightarrow> (ga_tuner, config_entity list) outcome" where
  "ga_next_batch 0 t = (Inr [], t)"
| "ga_next_batch (Suc n) t =
     (if ga_pop_size t = 0 then (Inl ZeroDivisionError, t)
      else case py_get (ga_genes t) (int (ga_trial_pt t) mod ga_pop_size t) of
        Inl e \<Rightarrow> (Inl e, t)
      | Inr gene \<Rightarrow>
          (case cs_get (knob2point gene (ga_dims t)) (ga_space t) of
             (Inl e, sp) \<Rightarrow> (Inl e, t\<lparr>ga_trial_pt := Suc (ga_trial_pt t), ga_space := sp\<rparr>)
           | (Inr c, sp) \<Rightarrow>
               bindO (ga_next_batch n (t\<lparr>ga_trial_pt := Suc (ga_trial_pt t), ga_space := sp\<rparr>))
                 (\<lambda>cs t'. (Inr (c # cs), t'))))"

text \<open>The probabilities of the parents.\<close>

definition ga_probs :: "fl list \<Rightarrow> fl list" where
  "ga_probs scores =
     (let s1 = map (\<lambda>s. fl_add s (Fin (1 / 10 ^ 8))) scores;
          m = (case s1 of [] \<Rightarrow> NaN | x # xs \<Rightarrow> np_max_from x xs);
          s2 = map (\<lambda>s. fl_div s m) s1
      in map (\<lambda>s. fl_div s (np_sum s2)) s2)"

fun ga_crossover ::
    "rng \<Rightarrow> (fl list \<Rightarrow> nat \<Rightarrow> (nat \<times> nat) res) \<Rightarrow> int list list \<Rightarrow> fl list \<Rightarrow> nat \<Rightarrow> nat \<Rightarrow> nat
       \<Rightarrow> (nat, int list list) outcome" where
  "ga_crossover rnd choose2 genes probs ndims 0 pos = (Inr [], pos)"
| "ga_crossover rnd choose2 genes probs ndims (Suc k) pos =
     (case choose2 probs pos of
        Inl e \<Rightarrow> (Inl e, Suc pos)
      | Inr (i, j) \<Rightarrow>
          if ndims = 0 then (Inl ValueError, Suc pos)
          else
            let point = nat (randint rnd (Suc pos) (int ndims))
            in bindO (ga_crossover rnd choose2 genes probs ndims k (Suc (Suc pos)))
                 (\<lambda>tmp_genes pos'. (Inr ((take point (genes ! i) @ drop point (genes ! j)) # tmp_genes), pos')))"

fun ga_mutate_knobs :: "rng \<Rightarrow> rat \<Rightarrow> (nat \<times> int) list \<Rightarrow> int list \<Rightarrow> nat \<Rightarrow> int list \<times> nat" where
  "ga_mutate_knobs rnd prob [] gene pos = (gene, pos)"
| "ga_mutate_knobs rnd prob ((j, d) # jds) gene pos =
     (if rand01 rnd pos < prob
      then ga_mutate_knobs rnd prob jds (gene[j := randint rnd (Suc pos) d]) (Suc (Suc pos))
      else ga_mutate_knobs rnd prob jds gene (Suc pos))"

partial_function (option) ga_escape ::
    "rng \<Rightarrow> int list \<Rightarrow> int list \<Rightarrow> int list \<Rightarrow> nat \<Rightarrow> (int list \<times> nat) option" where
  "ga_escape rnd dims visited gene pos =
     (if knob2point gene dims \<in> set visited then
        (let j = nat (randint rnd pos (int (length dims)))
         in ga_escape rnd dims visited (gene[j := randint rnd (Suc pos) (dims ! j)]) (Suc (Suc pos)))
      else Some (gene, pos))"

fun ga_mutate ::
    "rng \<Rightarrow> rat \<Rightarrow> int list \<Rightarrow> int \<Rightarrow> int list list \<Rightarrow> int list \<Rightarrow> nat \<Rightarrow> (int list list \<times> int list \<times> nat) option" where
  "ga_mutate rnd prob dims n [] visited pos = Some ([], visited, pos)"
| "ga_mutate rnd prob dims n (tmp_gene # tmp_genes) visited pos =
     (case ga_mutate_knobs rnd prob (zip [0..<length dims] dims) tmp_gene pos of
        (gene, pos1) \<Rightarrow>
          if int (length visited) < n then
            Option.bind (ga_escape rnd dims visited gene pos1) (\<lambda>(gene', pos2).
              map_option (\<lambda>(genes, vis, pos3). (gene' # genes, vis, pos3))
                (ga_mutate rnd prob dims n tmp_genes (List.insert (knob2point gene' dims) visited) pos2))
          else Some ([], visited, pos1))"

text \<open>The selection of elites: with \<^verbatim>\<open>elite_num\<close> 0 the slice \<^verbatim>\<open>[-0:]\<close> is the whole array.\<close>

definition elite_indexes :: "(fl list \<Rightarrow> int \<Rightarrow> nat list) \<Rightarrow> fl list \<Rightarrow> int \<Rightarrow> nat list" where
  "elite_indexes argpartition scores elite_num =
     (let p = argpartition scores (- elite_num)
      in if elite_num = 0 then p else drop (length p - nat elite_num) p)"

definition ga_breed ::
    "rng \<Rightarrow> (fl list \<Rightarrow> int \<Rightarrow> nat list) \<Rightarrow> (fl list \<Rightarrow> nat \<Rightarrow> (nat \<times> nat) res) \<Rightarrow> int \<Rightarrow> ga_tuner
       \<Rightarrow> (ga_tuner, unit) outcome option" where
  "ga_breed rnd argpartition choose2 n t =
     (let genes = ga_genes t @ ga_elites t;
          scores = take (length (ga_genes t)) (ga_scores t) @ ga_elite_scores t;
          el = elite_indexes argpartition scores (ga_elite_num t);
          t1 = t\<lparr>ga_elites := map (\<lambda>i. genes ! i) el, ga_elite_scores := map (\<lambda>i. scores ! i) el\<rparr>
      in case ga_crossover rnd choose2 genes (ga_probs scores) (length (ga_dims t)) (nat (ga_pop_size t)) (ga_pos t) of
           (Inl e, pos) \<Rightarrow> Some (Inl e, t1\<lparr>ga_pos := pos\<rparr>)
         | (Inr tmp_genes, pos) \<Rightarrow>
             map_option (\<lambda>(next_genes, visited, pos').
                 (Inr (), t1\<lparr>ga_genes := next_genes, ga_visited := visited, ga_pos := pos',
                             ga_trial_pt := 0, ga_scores := []\<rparr>))
               (ga_mutate rnd (ga_mutation_prob t) (ga_dims t) n tmp_genes (ga_visited t) pos))"

definition ga_update ::
    "rng \<Rightarrow> (fl list \<Rightarrow> int \<Rightarrow> nat list) \<Rightarrow> (fl list \<Rightarrow> nat \<Rightarrow> (nat \<times> nat) res) \<Rightarrow> rat \<Rightarrow> measure_result list \<Rightarrow> ga_tuner
       \<Rightarrow> (ga_tuner, unit) outcome option" where
  "ga_update rnd argpartition choose2 flop results t =
     (let t1 = t\<lparr>ga_scores := ga_scores t @ map (flops_of flop) results\<rparr>
      in if length (ga_scores t1) \<ge> length (ga_genes t1) then
           (case cs_len (ga_space t1) of
              (Inl e, sp) \<Rightarrow> Some (Inl e, t1\<lparr>ga_space := sp\<rparr>)
            | (Inr n, sp) \<Rightarrow>
                let t2 = t1\<lparr>ga_space := sp\<rparr>
                in if int (length (ga_visited t2)) < n then ga_breed rnd argpartition choose2 n t2
                   else Some (Inr (), t2))
         else Some (Inr (), t1))"

definition ga_has_next :: "ga_tuner \<Rightarrow> bool res" where
  "ga_has_next t =
     bindE (fst (cs_len (ga_space t))) (\<lambda>n.
       Inr (int (length (ga_visited t)) - (int (length (ga_genes t)) - int (ga_trial_pt t)) < n))"

subsection \<open>Genes stay in the space\<close>

lemma knob_ok_update: "knob_ok dims gene \<Longrightarrow> j < length dims \<Longrightarrow> 0 \<le> v \<Longrightarrow> v < dims ! j \<Longrightarrow> knob_ok dims (gene[j := v])"
  by (auto simp: knob_ok_def list_all2_conv_all_nth nth_list_update)

lemma knob_ok_cross: "knob_ok dims a \<Longrightarrow> knob_ok dims b \<Longrightarrow> knob_ok dims (take k a @ drop k b)"
  unfolding knob_ok_def
  by (metis (no_types, lifting) append_take_drop_id list_all2_appendI list_all2_dropI list_all2_takeI)

lemma ga_mutate_knobs_ok:
  assumes "dims_ok dims"
  shows "knob_ok dims gene \<Longrightarrow> list_all (\<lambda>(j, d). j < length dims \<and> d = dims ! j) jds \<Longrightarrow>
           knob_ok dims (fst (ga_mutate_knobs rnd prob jds gene pos))"
proof (induction jds arbitrary: gene pos)
  case (Cons x jds)
  obtain j d where x: "x = (j, d)" by (cases x)
  then have j: "j < length dims" "d = dims ! j" using Cons.prems(2) by auto
  have "0 < dims ! j" using assms j by (simp add: dims_ok_def list_all_length)
  then have "knob_ok dims (gene[j := randint rnd (Suc pos) d])"
    using randint_bounds j Cons.prems(1) by (auto intro: knob_ok_update)
  then show ?case using Cons x by simp
qed simp

lemma ga_escape_fresh:
  assumes "ga_escape rnd dims visited gene pos = Some r"
  shows "dims_ok dims \<longrightarrow> dims \<noteq> [] \<longrightarrow> knob_ok dims gene \<longrightarrow> knob_ok dims (fst r) \<and> knob2point (fst r) dims \<notin> set visited"
proof (rule ga_escape.raw_induct [OF _ assms, where P = "\<lambda>rnd dims visited gene pos r.
    dims_ok dims \<longrightarrow> dims \<noteq> [] \<longrightarrow> knob_ok dims gene \<longrightarrow> knob_ok dims (fst r) \<and> knob2point (fst r) dims \<notin> set visited"])
  fix esc rnd dims visited gene pos r
  assume ih: "\<And>rnd dims visited gene pos y. esc rnd dims visited gene pos = Some y \<Longrightarrow>
      dims_ok dims \<longrightarrow> dims \<noteq> [] \<longrightarrow> knob_ok dims gene \<longrightarrow> knob_ok dims (fst y) \<and> knob2point (fst y) dims \<notin> set visited"
    and body: "(if knob2point gene dims \<in> set visited then
        let j = nat (randint rnd pos (int (length dims)))
        in esc rnd dims visited (gene[j := randint rnd (Suc pos) (dims ! j)]) (Suc (Suc pos))
      else Some (gene, pos)) = Some r"
  show "dims_ok dims \<longrightarrow> dims \<noteq> [] \<longrightarrow> knob_ok dims gene \<longrightarrow> knob_ok dims (fst r) \<and> knob2point (fst r) dims \<notin> set visited"
  proof (intro impI)
    assume d: "dims_ok dims" "dims \<noteq> []" and g: "knob_ok dims gene"
    show "knob_ok dims (fst r) \<and> knob2point (fst r) dims \<notin> set visited"
    proof (cases "knob2point gene dims \<in> set visited")
      case False
      then show ?thesis using body g by auto
    next
      case True
      define j where "j = nat (randint rnd pos (int (length dims)))"
      have "0 < int (length dims)" using d(2) by simp
      then have j: "j < length dims" using randint_bounds by (metis j_def nat_less_iff)
      then have "0 < dims ! j" using d(1) by (simp add: dims_ok_def list_all_length)
      then have "knob_ok dims (gene[j := randint rnd (Suc pos) (dims ! j)])"
        using randint_bounds g j by (auto intro: knob_ok_update)
      then show ?thesis using ih d body True by (simp add: j_def Let_def)
    qed
  qed
qed

lemma ga_mutate_fresh:
  assumes "dims_ok dims" and "dims \<noteq> []"
  shows "ga_mutate rnd prob dims n tmp visited pos = Some (genes, visited', pos') \<Longrightarrow>
         list_all (knob_ok dims) tmp \<Longrightarrow> distinct visited \<Longrightarrow> int (length visited) \<le> n \<Longrightarrow>
           list_all (knob_ok dims) genes \<and> distinct (map (\<lambda>g. knob2point g dims) genes) \<and>
           set (map (\<lambda>g. knob2point g dims) genes) \<inter> set visited = {} \<and>
           set visited' = set (map (\<lambda>g. knob2point g dims) genes) \<union> set visited \<and> distinct visited' \<and>
           int (length genes) = min (int (length tmp)) (n - int (length visited))"
proof (induction tmp arbitrary: visited pos genes)
  case Nil
  then show ?case by simp
next
  case (Cons tg tmp)
  obtain gene pos1 where mk: "ga_mutate_knobs rnd prob (zip [0..<length dims] dims) tg pos = (gene, pos1)"
    by (cases "ga_mutate_knobs rnd prob (zip [0..<length dims] dims) tg pos")
  have "list_all (\<lambda>(j, d). j < length dims \<and> d = dims ! j) (zip [0..<length dims] dims)"
    by (auto simp: list_all_iff set_zip)
  from ga_mutate_knobs_ok [OF assms(1) _ this, of tg rnd prob pos] Cons.prems(2) mk have g: "knob_ok dims gene" by simp
  show ?case
  proof (cases "int (length visited) < n")
    case False
    then have "genes = []" "visited' = visited" using Cons.prems(1) mk by auto
    then show ?thesis using Cons.prems(3,4) False by simp
  next
    case True
    with Cons.prems(1) mk obtain g' pos2 gs where e: "ga_escape rnd dims visited gene pos1 = Some (g', pos2)"
      "ga_mutate rnd prob dims n tmp (List.insert (knob2point g' dims) visited) pos2 = Some (gs, visited', pos')"
      "genes = g' # gs"
      by (auto simp: bind_eq_Some_conv)
    have g': "knob_ok dims g'" "knob2point g' dims \<notin> set visited"
      using ga_escape_fresh [OF e(1)] assms g by auto
    let ?v = "knob2point g' dims # visited"
    have ins: "List.insert (knob2point g' dims) visited = ?v" using g'(2) by simp
    have "list_all (knob_ok dims) gs \<and> distinct (map (\<lambda>g. knob2point g dims) gs) \<and>
           set (map (\<lambda>g. knob2point g dims) gs) \<inter> set ?v = {} \<and>
           set visited' = set (map (\<lambda>g. knob2point g dims) gs) \<union> set ?v \<and> distinct visited' \<and>
           int (length gs) = min (int (length tmp)) (n - int (length ?v))"
      using Cons.IH [OF e(2) [unfolded ins]] Cons.prems(2,3) g'(2) True by simp
    then show ?thesis using e(3) g' True by auto
  qed
qed

lemma ga_crossover_ok:
  assumes "\<forall>p q i j. length p = length genes \<longrightarrow> choose2 p q = Inr (i, j) \<longrightarrow> i < length genes \<and> j < length genes"
    and "list_all (knob_ok dims) genes" and "length probs = length genes"
  shows "ga_crossover rnd choose2 genes probs m k pos = (Inr tmp, pos') \<Longrightarrow> list_all (knob_ok dims) tmp \<and> length tmp = k"
proof (induction k arbitrary: pos tmp)
  case (Suc k)
  from Suc.prems obtain i j where c: "choose2 probs pos = Inr (i, j)"
    by (auto split: sum.splits)
  have ij: "i < length genes" "j < length genes" using assms(1,3) c by auto
  define point where "point = nat (randint rnd (Suc pos) (int m))"
  from Suc.prems c obtain tmp' where t: "ga_crossover rnd choose2 genes probs m k (Suc (Suc pos)) = (Inr tmp', pos')"
    "tmp = (take point (genes ! i) @ drop point (genes ! j)) # tmp'"
    by (cases "ga_crossover rnd choose2 genes probs m k (Suc (Suc pos))"; cases "fst (ga_crossover rnd choose2 genes probs m k (Suc (Suc pos)))")
      (auto simp: Let_def point_def split: if_splits)
  have "knob_ok dims (take point (genes ! i) @ drop point (genes ! j))"
    using ij assms(2) by (auto simp: list_all_length intro: knob_ok_cross)
  with Suc.IH [OF t(1)] t(2) show ?case by simp
qed simp

subsection \<open>The state of the tuner\<close>

definition ga_ok :: "int \<Rightarrow> ga_tuner \<Rightarrow> bool" where
  "ga_ok N t \<longleftrightarrow>
     cs_ready (ga_space t) \<and> ga_dims t = map int (space_dims (ga_space t)) \<and> ga_dims t \<noteq> [] \<and>
     prod_list (ga_dims t) = N \<and> 0 < ga_pop_size t \<and>
     distinct (ga_visited t) \<and> list_all (\<lambda>p. 0 \<le> p \<and> p < N) (ga_visited t) \<and>
     list_all (knob_ok (ga_dims t)) (ga_genes t @ ga_elites t) \<and>
     length (ga_elite_scores t) = length (ga_elites t)"

lemma ga_ok_scores [simp]: "ga_ok N (t\<lparr>ga_scores := sc\<rparr>) = ga_ok N t"
  by (simp add: ga_ok_def)

lemma ga_ok_dims: "ga_ok N t \<Longrightarrow> dims_ok (ga_dims t)"
  by (simp add: ga_ok_def ready_dims_ok)

lemma ga_ok_genes: "ga_ok N t \<Longrightarrow> list_all (knob_ok (ga_dims t)) (ga_genes t @ ga_elites t)"
  unfolding ga_ok_def by blast

lemma ga_ok_len:
  assumes "ga_ok N t"
  shows "\<exists>sp. cs_len (ga_space t) = (Inr N, sp) \<and> ga_ok N (t\<lparr>ga_space := sp\<rparr>)"
proof -
  let ?s = "ga_space t"
  have N: "int (prod_list (space_dims ?s)) = N" using assms by (auto simp: ga_ok_def prod_list_map_int)
  have "cs_ready (?s\<lparr>cs_length := Some N\<rparr>)" "space_dims (?s\<lparr>cs_length := Some N\<rparr>) = space_dims ?s"
    using assms N by (auto simp: ga_ok_def cs_ready_def space_dims_def)
  with assms N show ?thesis by (auto simp: ga_ok_def cs_len_ready)
qed

lemma ga_visited_le:
  assumes "ga_ok N t"
  shows "int (length (ga_visited t)) \<le> N"
proof -
  have "card (set (ga_visited t)) \<le> card {0..<N}"
    using assms by (intro card_mono) (auto simp: ga_ok_def list_all_iff)
  moreover have "0 \<le> N" using assms by (auto simp: ga_ok_def prod_list_map_int)
  ultimately show ?thesis using assms by (simp add: ga_ok_def distinct_card)
qed

text \<open>What numpy documents of the partial sort and the weighted choice.\<close>

definition np_ok :: "(fl list \<Rightarrow> int \<Rightarrow> nat list) \<Rightarrow> (fl list \<Rightarrow> nat \<Rightarrow> (nat \<times> nat) res) \<Rightarrow> bool" where
  "np_ok argpartition choose2 \<longleftrightarrow>
     (\<forall>sc k. set (argpartition sc k) = {..<length sc}) \<and>
     (\<forall>p q i j. choose2 p q = Inr (i, j) \<longrightarrow> i < length p \<and> j < length p)"

lemma length_ga_probs [simp]: "length (ga_probs sc) = length sc"
  by (simp add: ga_probs_def Let_def)

lemma ga_breed_ok:
  assumes ok: "ga_ok N t" and np: "np_ok argpartition choose2" and sc: "length (ga_genes t) \<le> length (ga_scores t)"
    and br: "ga_breed rnd argpartition choose2 N t = Some (Inr (), t')"
  shows "ga_ok N t' \<and> int (length (ga_genes t')) = min (ga_pop_size t) (N - int (length (ga_visited t))) \<and>
         ga_pop_size t' = ga_pop_size t \<and> ga_trial_pt t' = 0 \<and>
         distinct (map (\<lambda>g. knob2point g (ga_dims t)) (ga_genes t')) \<and>
         set (map (\<lambda>g. knob2point g (ga_dims t)) (ga_genes t')) \<inter> set (ga_visited t) = {} \<and>
         set (ga_visited t') = set (map (\<lambda>g. knob2point g (ga_dims t)) (ga_genes t')) \<union> set (ga_visited t)"
proof -
  let ?dims = "ga_dims t"
  define genes where "genes = ga_genes t @ ga_elites t"
  define scores where "scores = take (length (ga_genes t)) (ga_scores t) @ ga_elite_scores t"
  define el where "el = elite_indexes argpartition scores (ga_elite_num t)"
  have len: "length scores = length genes" using ok sc by (simp add: genes_def scores_def ga_ok_def)
  have dims: "dims_ok ?dims" "?dims \<noteq> []" using ga_ok_dims [OF ok] ok by (auto simp: ga_ok_def)
  have gk: "list_all (knob_ok ?dims) genes" unfolding genes_def by (rule ga_ok_genes [OF ok])
  from br obtain tmp pos next_genes vis pos' where
    cr: "ga_crossover rnd choose2 genes (ga_probs scores) (length ?dims) (nat (ga_pop_size t)) (ga_pos t) = (Inr tmp, pos)"
    and mu: "ga_mutate rnd (ga_mutation_prob t) ?dims N tmp (ga_visited t) pos = Some (next_genes, vis, pos')"
    and t': "t' = t\<lparr>ga_elites := map (\<lambda>i. genes ! i) el, ga_elite_scores := map (\<lambda>i. scores ! i) el,
       ga_genes := next_genes, ga_visited := vis, ga_pos := pos', ga_trial_pt := 0, ga_scores := []\<rparr>"
    by (auto simp: ga_breed_def Let_def genes_def [symmetric] scores_def [symmetric] el_def [symmetric]
        split: prod.splits sum.splits)
  have tmp: "list_all (knob_ok ?dims) tmp" "length tmp = nat (ga_pop_size t)"
  proof -
    have "\<forall>p q i j. length p = length genes \<longrightarrow> choose2 p q = Inr (i, j) \<longrightarrow> i < length genes \<and> j < length genes"
      using np unfolding np_ok_def by metis
    from ga_crossover_ok [OF this gk _ cr] len show "list_all (knob_ok ?dims) tmp" "length tmp = nat (ga_pop_size t)"
      by simp_all
  qed
  have "distinct (ga_visited t)" using ok by (simp add: ga_ok_def)
  from ga_mutate_fresh [OF dims mu tmp(1) this ga_visited_le [OF ok]] have
    m: "list_all (knob_ok ?dims) next_genes" "distinct (map (\<lambda>g. knob2point g ?dims) next_genes)"
      "set (map (\<lambda>g. knob2point g ?dims) next_genes) \<inter> set (ga_visited t) = {}"
      "set vis = set (map (\<lambda>g. knob2point g ?dims) next_genes) \<union> set (ga_visited t)" "distinct vis"
      "int (length next_genes) = min (int (length tmp)) (N - int (length (ga_visited t)))" by blast+
  have "set el \<subseteq> {..<length genes}"
    using np len by (auto simp: el_def elite_indexes_def Let_def np_ok_def dest: in_set_dropD split: if_splits)
  then have elk: "list_all (knob_ok ?dims) (map (\<lambda>i. genes ! i) el)"
    using gk by (auto simp: list_all_iff)
  have rng: "list_all (\<lambda>p. 0 \<le> p \<and> p < N) vis"
    using m(1,4) ok knob2point_ok [OF dims(1)] by (auto simp: list_all_iff ga_ok_def)
  have "ga_ok N t'" using ok m(1,5) elk rng unfolding t' ga_ok_def by auto
  moreover have "0 < ga_pop_size t" using ok by (simp add: ga_ok_def)
  ultimately show ?thesis using m t' tmp(2) by simp
qed

lemma ga_next_batch_index_error:
  assumes "ga_ok N t" and "ga_trial_pt t \<le> length (ga_genes t)" and "int (length (ga_genes t)) < ga_pop_size t"
    and "length (ga_genes t) - ga_trial_pt t < n"
  shows "fst (ga_next_batch n t) = Inl IndexError"
  using assms
proof (induction n arbitrary: t)
  case (Suc n)
  have mod: "int (ga_trial_pt t) mod ga_pop_size t = int (ga_trial_pt t)" using Suc.prems(2,3) by simp
  show ?case
  proof (cases "ga_trial_pt t < length (ga_genes t)")
    case False
    then have "py_get (ga_genes t) (int (ga_trial_pt t)) = Inl IndexError" by (simp add: py_get_def)
    with mod Suc.prems(1) show ?thesis by (simp add: ga_ok_def)
  next
    case True
    let ?g = "ga_genes t ! ga_trial_pt t"
    have gk: "knob_ok (ga_dims t) ?g" using ga_ok_genes [OF Suc.prems(1)] True by (simp add: list_all_iff)
    have N: "int (prod_list (space_dims (ga_space t))) = N" "cs_ready (ga_space t)"
      using Suc.prems(1) by (auto simp: ga_ok_def prod_list_map_int)
    obtain c sp where c: "cs_get (knob2point ?g (ga_dims t)) (ga_space t) = (Inr c, sp)"
      using cs_index.get_in [OF N(2), of "knob2point ?g (ga_dims t)"] knob2point_ok [OF ga_ok_dims [OF Suc.prems(1)] gk] N(1)
        Suc.prems(1) by (cases "cs_get (knob2point ?g (ga_dims t)) (ga_space t)") (auto simp: ga_ok_def)
    let ?t = "t\<lparr>ga_trial_pt := Suc (ga_trial_pt t), ga_space := sp\<rparr>"
    have "sp = (ga_space t)\<lparr>cs_length := Some (int (prod_list (space_dims (ga_space t))))\<rparr>"
      using c cs_get_digits [OF N(2)] by (metis snd_conv)
    then have "ga_ok N ?t" using Suc.prems(1) by (auto simp: ga_ok_def cs_ready_def space_dims_def)
    then have "fst (ga_next_batch n ?t) = Inl IndexError" using Suc.IH [of ?t] Suc.prems(2-4) True by simp
    then obtain u where "ga_next_batch n ?t = (Inl IndexError, u)" by (cases "ga_next_batch n ?t") auto
    then show ?thesis using mod True c Suc.prems(1) by (simp add: ga_ok_def)
  qed
qed simp

subsection \<open>Properties\<close>

text \<open>
  [C29] When the scores of a generation are complete and some of the space is unvisited, an update that
  succeeds keeps the tuner well-formed and replaces the generation by as many new individuals as the
  population size or the unvisited part allows; their points are distinct, none was visited before,
  and exactly they are added to the visited set.
\<close>

theorem ga_update_generation:
  assumes "ga_ok N t" and "np_ok argpartition choose2"
    and "length (ga_genes t) \<le> length (ga_scores t) + length results" and "int (length (ga_visited t)) < N"
    and "ga_update rnd argpartition choose2 flop results t = Some (Inr (), t')"
  shows "ga_ok N t' \<and> int (length (ga_genes t')) = min (ga_pop_size t) (N - int (length (ga_visited t))) \<and>
         distinct (map (\<lambda>g. knob2point g (ga_dims t)) (ga_genes t')) \<and>
         set (map (\<lambda>g. knob2point g (ga_dims t)) (ga_genes t')) \<inter> set (ga_visited t) = {} \<and>
         set (ga_visited t') = set (map (\<lambda>g. knob2point g (ga_dims t)) (ga_genes t')) \<union> set (ga_visited t)"
proof -
  define t1 where "t1 = t\<lparr>ga_scores := ga_scores t @ map (flops_of flop) results\<rparr>"
  have "ga_ok N t1" using assms(1) by (simp add: t1_def)
  then obtain sp where sp: "cs_len (ga_space t1) = (Inr N, sp)" "ga_ok N (t1\<lparr>ga_space := sp\<rparr>)" using ga_ok_len by blast
  have "ga_breed rnd argpartition choose2 N (t1\<lparr>ga_space := sp\<rparr>) = Some (Inr (), t')"
    using assms(3-5) sp(1) by (simp add: ga_update_def t1_def Let_def)
  from ga_breed_ok [OF sp(2) assms(2) _ this] assms(3) show ?thesis by (simp add: t1_def)
qed

text \<open>A tuner over the six points of the demonstration space, with one point left to visit.\<close>

definition demo_ga :: ga_tuner where
  "demo_ga = \<lparr>ga_space = demo_space, ga_pop_size = 2, ga_elite_num = 1, ga_mutation_prob = 0,
     ga_dim_keys = [''a'', ''b''], ga_dims = [2, 3], ga_visited = [0, 1, 2, 3, 4],
     ga_genes = [[1, 1], [0, 2]], ga_scores = [], ga_elites = [], ga_elite_scores = [], ga_trial_pt = 2, ga_pos = 0\<rparr>"

definition demo_argpartition :: "fl list \<Rightarrow> int \<Rightarrow> nat list" where
  "demo_argpartition sc k = [0..<length sc]"

definition demo_choose2 :: "fl list \<Rightarrow> nat \<Rightarrow> (nat \<times> nat) res" where
  "demo_choose2 p q = (if 2 \<le> length p then Inr (0, 1) else Inl ValueError)"

lemma demo_ga_ok: "ga_ok 6 demo_ga"
  by (simp add: ga_ok_def demo_ga_def cs_ready_def demo_space_simps space_len_def space_entities_def knob_ok_def)

lemma demo_np_ok: "np_ok demo_argpartition demo_choose2"
  by (auto simp: np_ok_def demo_argpartition_def demo_choose2_def split: if_splits)

lemma demo_knob_points: "knob2point [1, 2] [2, 3] = 5" "knob2point [0, 2] [2, 3] = 4" "knob2point [1, 1] [2, 3] = 3"
  by (simp_all add: knob2point_def np_prod_def wrap64_def upt_rec numeral_2_eq_2)

lemma demo_ga_breeds:
  "\<exists>t'. ga_update (\<lambda>k. 1) demo_argpartition demo_choose2 1
     (replicate 2 \<lparr>mr_error_no = 0, mr_costs = [1], mr_errors = []\<rparr>) demo_ga = Some (Inr (), t')"
proof -
  have len: "cs_len demo_space = (Inr 6, demo_space\<lparr>cs_length := Some 6\<rparr>)"
    by (simp add: cs_len_def demo_space_simps np_prod_def wrap64_def Let_def space_len_def space_entities_def)
  have r: "randint (\<lambda>k. 1) pos 2 = 1" for pos by (simp add: randint_def)
  have m: "ga_mutate_knobs (\<lambda>k. 1) 0 (zip [0..<length [2, 3]] [2, 3]) [1, 2] pos = ([1, 2], pos + 2)" for pos
    by (simp add: rand01_def)
  have e: "ga_escape (\<lambda>k. 1) [2, 3] [0, 1, 2, 3, 4] [1, 2] pos = Some ([1, 2], pos)" for pos
    by (subst ga_escape.simps) (simp add: demo_knob_points)
  have mu: "\<exists>v p. ga_mutate (\<lambda>k. 1) 0 [2, 3] 6 [[1, 2], [1, 2]] [0, 1, 2, 3, 4] pos = Some ([[1, 2]], v, p)" for pos
    using m e by (simp add: demo_knob_points)
  have cr: "ga_crossover (\<lambda>k. 1) demo_choose2 [[1, 1], [0, 2]] probs 2 2 pos = (Inr [[1, 2], [1, 2]], pos + 4)"
    if "length probs = 2" for probs pos
    using that r by (simp add: numeral_2_eq_2 demo_choose2_def)
  show ?thesis
    using mu [of 4] cr
    by (auto simp: ga_update_def ga_breed_def demo_ga_def len Let_def numeral_2_eq_2)
qed

theorem ga_update_generation_witness:
  "\<exists>t'. ga_update (\<lambda>k. 1) demo_argpartition demo_choose2 1
     (replicate 2 \<lparr>mr_error_no = 0, mr_costs = [1], mr_errors = []\<rparr>) demo_ga = Some (Inr (), t') \<and>
     length (ga_genes t') = 1 \<and> ga_ok 6 t'"
proof -
  obtain t' where t': "ga_update (\<lambda>k. 1) demo_argpartition demo_choose2 1
     (replicate 2 \<lparr>mr_error_no = 0, mr_costs = [1], mr_errors = []\<rparr>) demo_ga = Some (Inr (), t')"
    using demo_ga_breeds by blast
  from ga_update_generation [OF demo_ga_ok demo_np_ok _ _ t'] t' show ?thesis by (auto simp: demo_ga_def)
qed

text \<open>
  [C40] The last generation can be smaller than the population size, and then asking for more
  configurations than it has raises \<^verbatim>\<open>IndexError\<close>: \<^verbatim>\<open>next_batch\<close> takes the position modulo the population
  size, not modulo the size of the generation.
\<close>

theorem ga_last_generation_fails:
  assumes "ga_ok N t" and "np_ok argpartition choose2"
    and "length (ga_genes t) \<le> length (ga_scores t) + length results" and "int (length (ga_visited t)) < N"
    and "ga_update rnd argpartition choose2 flop results t = Some (Inr (), t')"
    and "N - int (length (ga_visited t)) < ga_pop_size t" and "N - int (length (ga_visited t)) < int batch_size"
  shows "fst (ga_next_batch batch_size t') = Inl IndexError"
proof -
  define t1 where "t1 = t\<lparr>ga_scores := ga_scores t @ map (flops_of flop) results\<rparr>"
  have "ga_ok N t1" using assms(1) by (simp add: t1_def)
  then obtain sp where sp: "cs_len (ga_space t1) = (Inr N, sp)" "ga_ok N (t1\<lparr>ga_space := sp\<rparr>)" using ga_ok_len by blast
  have "ga_breed rnd argpartition choose2 N (t1\<lparr>ga_space := sp\<rparr>) = Some (Inr (), t')"
    using assms(3-5) sp(1) by (simp add: ga_update_def t1_def Let_def)
  from ga_breed_ok [OF sp(2) assms(2) _ this] assms(3)
  have t': "ga_ok N t'" "int (length (ga_genes t')) = min (ga_pop_size t) (N - int (length (ga_visited t)))"
    "ga_pop_size t' = ga_pop_size t" "ga_trial_pt t' = 0" by (simp_all add: t1_def)
  then show ?thesis using assms(6,7) by (intro ga_next_batch_index_error) auto
qed

theorem ga_last_generation_fails_witness:
  "\<exists>t'. ga_update (\<lambda>k. 1) demo_argpartition demo_choose2 1
     (replicate 2 \<lparr>mr_error_no = 0, mr_costs = [1], mr_errors = []\<rparr>) demo_ga = Some (Inr (), t') \<and>
     fst (ga_next_batch 2 t') = Inl IndexError"
proof -
  obtain t' where t': "ga_update (\<lambda>k. 1) demo_argpartition demo_choose2 1
     (replicate 2 \<lparr>mr_error_no = 0, mr_costs = [1], mr_errors = []\<rparr>) demo_ga = Some (Inr (), t')"
    using demo_ga_breeds by blast
  from ga_last_generation_fails [OF demo_ga_ok demo_np_ok _ _ t', of 2] t' show ?thesis by (auto simp: demo_ga_def)
qed

end
