(* ===== verification/Json.thy ===== *)
theory Json
  imports Prelude
begin

section \<open>The JSON text format\<close>

text \<open>
  The part of Python's \<^verbatim>\<open>json\<close> module that the RPC layer and the tuning logs go through: \<^verbatim>\<open>dumps\<close> with its
  default separators and \<^verbatim>\<open>ensure_ascii\<close>, and \<^verbatim>\<open>loads\<close> with the grammar of its scanner.  A \<^verbatim>\<open>str\<close> is
  represented by its UTF-8 bytes; a float by the text of its literal.  The literals \<^verbatim>\<open>NaN\<close> and
  \<^verbatim>\<open>Infinity\<close>, which \<^verbatim>\<open>loads\<close> accepts beyond the format, are left out.
\<close>

datatype json =
    JNull
  | JBool bool
  | JNum int
  | JFloat string
  | JStr string
  | JArr "json list"
  | JObj "(string \<times> json) list"

subsection \<open>UTF-8\<close>

definition byte :: "nat \<Rightarrow> char" where
  "byte b = char_of b"

definition is_cont :: "char \<Rightarrow> bool" where
  "is_cont c \<longleftrightarrow> 128 \<le> (of_char c :: nat) \<and> (of_char c :: nat) < 192"

definition cont_bits :: "char \<Rightarrow> nat" where
  "cont_bits c = of_char c - 128"

text \<open>The code points of a byte string; \<open>strict\<close> refuses surrogates, as decoding does.\<close>

fun utf8_points :: "bool \<Rightarrow> string \<Rightarrow> nat list option" where
  "utf8_points strict [] = Some []"
| "utf8_points strict (c # cs) =
     (let b = of_char c :: nat
      in if b < 128 then map_option (\<lambda>ps. b # ps) (utf8_points strict cs)
         else if 194 \<le> b \<and> b < 224 then
           (case cs of
              c1 # cs1 \<Rightarrow>
                if is_cont c1
                then map_option (\<lambda>ps. ((b - 192) * 64 + cont_bits c1) # ps) (utf8_points strict cs1)
                else None
            | _ \<Rightarrow> None)
         else if 224 \<le> b \<and> b < 240 then
           (case cs of
              c1 # c2 # cs2 \<Rightarrow>
                let p = (b - 224) * 4096 + cont_bits c1 * 64 + cont_bits c2
                in if is_cont c1 \<and> is_cont c2 \<and> 2048 \<le> p \<and> \<not> (strict \<and> 55296 \<le> p \<and> p < 57344)
                   then map_option (\<lambda>ps. p # ps) (utf8_points strict cs2)
                   else None
            | _ \<Rightarrow> None)
         else if 240 \<le> b \<and> b < 245 then
           (case cs of
              c1 # c2 # c3 # cs3 \<Rightarrow>
                let p = (b - 240) * 262144 + cont_bits c1 * 4096 + cont_bits c2 * 64 + cont_bits c3
                in if is_cont c1 \<and> is_cont c2 \<and> is_cont c3 \<and> 65536 \<le> p \<and> p < 1114112
                   then map_option (\<lambda>ps. p # ps) (utf8_points strict cs3)
                   else None
            | _ \<Rightarrow> None)
         else None)"

definition utf8_encode :: "nat \<Rightarrow> string" where
  "utf8_encode p =
     (if p < 128 then [byte p]
      else if p < 2048 then [byte (192 + p div 64), byte (128 + p mod 64)]
      else if p < 65536 then [byte (224 + p div 4096), byte (128 + p div 64 mod 64), byte (128 + p mod 64)]
      else [byte (240 + p div 262144), byte (128 + p div 4096 mod 64), byte (128 + p div 64 mod 64), byte (128 + p mod 64)])"

text \<open>\<^verbatim>\<open>py_str\<close> of \<^verbatim>\<open>_ffi/base.py\<close>: \<^verbatim>\<open>bytes.decode("utf-8")\<close>, whose error is a \<^verbatim>\<open>ValueError\<close>.\<close>

definition py_str :: "string \<Rightarrow> string res" where
  "py_str bs = (if utf8_points True bs = None then Inl ValueError else Inr bs)"

subsection \<open>Printing\<close>

definition hex_digit :: "nat \<Rightarrow> char" where
  "hex_digit d = (if d < 10 then char_of (48 + d) else char_of (87 + d))"

definition hex4 :: "nat \<Rightarrow> string" where
  "hex4 p = [hex_digit (p div 4096 mod 16), hex_digit (p div 256 mod 16), hex_digit (p div 16 mod 16), hex_digit (p mod 16)]"

definition u_escape :: "nat \<Rightarrow> string" where
  "u_escape p = CHR 0x5C # CHR ''u'' # hex4 p"

definition escape_point :: "nat \<Rightarrow> string" where
  "escape_point p =
     (if p = 34 then [CHR 0x5C, CHR 0x22]
      else if p = 92 then [CHR 0x5C, CHR 0x5C]
      else if p = 10 then [CHR 0x5C, CHR ''n'']
      else if p = 13 then [CHR 0x5C, CHR ''r'']
      else if p = 9 then [CHR 0x5C, CHR ''t'']
      else if p = 8 then [CHR 0x5C, CHR ''b'']
      else if p = 12 then [CHR 0x5C, CHR ''f'']
      else if 32 \<le> p \<and> p \<le> 126 then [byte p]
      else if p < 65536 then u_escape p
      else u_escape (55296 + (p - 65536) div 1024) @ u_escape (56320 + (p - 65536) mod 1024))"

definition dump_str :: "string \<Rightarrow> string" where
  "dump_str s =
     CHR 0x22 # concat (map escape_point (case utf8_points False s of Some ps \<Rightarrow> ps | None \<Rightarrow> [])) @ [CHR 0x22]"

definition int_str :: "int \<Rightarrow> string" where
  "int_str n = (if n < 0 then CHR ''-'' # nat_str (nat (- n)) else nat_str (nat n))"

fun join :: "string \<Rightarrow> string list \<Rightarrow> string" where
  "join sep [] = []"
| "join sep [s] = s"
| "join sep (s # t # ss) = s @ sep @ join sep (t # ss)"

fun dumps :: "json \<Rightarrow> string" where
  "dumps JNull = ''null''"
| "dumps (JBool b) = (if b then ''true'' else ''false'')"
| "dumps (JNum n) = int_str n"
| "dumps (JFloat t) = t"
| "dumps (JStr s) = dump_str s"
| "dumps (JArr vs) = ''['' @ join '', '' (map dumps vs) @ '']''"
| "dumps (JObj kvs) = ''{'' @ join '', '' (map (\<lambda>(k, v). dump_str k @ '': '' @ dumps v) kvs) @ ''}''"

subsection \<open>Scanning\<close>

definition is_ws :: "char \<Rightarrow> bool" where
  "is_ws c \<longleftrightarrow> c \<in> {CHR '' '', CHR 0x09, CHR 0x0A, CHR 0x0D}"

abbreviation skip_ws :: "string \<Rightarrow> string" where
  "skip_ws s \<equiv> dropWhile is_ws s"

definition is_digit :: "char \<Rightarrow> bool" where
  "is_digit c \<longleftrightarrow> 48 \<le> (of_char c :: nat) \<and> (of_char c :: nat) < 58"

definition hex_value :: "char \<Rightarrow> nat option" where
  "hex_value c =
     (let b = of_char c :: nat
      in if 48 \<le> b \<and> b < 58 then Some (b - 48)
         else if 97 \<le> b \<and> b < 103 then Some (b - 87)
         else if 65 \<le> b \<and> b < 71 then Some (b - 55)
         else None)"

fun scan_hex4 :: "string \<Rightarrow> (nat \<times> string) option" where
  "scan_hex4 (a # b # c # d # r) =
     (case (hex_value a, hex_value b, hex_value c, hex_value d) of
        (Some w, Some x, Some y, Some z) \<Rightarrow> Some (w * 4096 + x * 256 + y * 16 + z, r)
      | _ \<Rightarrow> None)"
| "scan_hex4 _ = None"

text \<open>A \<^verbatim>\<open>\u\<close> escape, joined with a following low surrogate when it is a high one.\<close>

definition scan_u :: "string \<Rightarrow> (nat \<times> string) option" where
  "scan_u s =
     (case scan_hex4 s of
        None \<Rightarrow> None
      | Some (p, r) \<Rightarrow>
          if 55296 \<le> p \<and> p < 56320 \<and> take 2 r = [CHR 0x5C, CHR ''u''] then
            (case scan_hex4 (drop 2 r) of
               None \<Rightarrow> None
             | Some (q, r2) \<Rightarrow>
                 if 56320 \<le> q \<and> q < 57344 then Some (65536 + (p - 55296) * 1024 + (q - 56320), r2) else Some (p, r))
          else Some (p, r))"

definition unescape :: "char \<Rightarrow> char option" where
  "unescape c =
     map_of [(CHR 0x22, CHR 0x22), (CHR 0x5C, CHR 0x5C), (CHR ''/'', CHR ''/''), (CHR ''b'', CHR 0x08),
             (CHR ''f'', CHR 0x0C), (CHR ''n'', CHR 0x0A), (CHR ''r'', CHR 0x0D), (CHR ''t'', CHR 0x09)] c"

text \<open>The rest of a string after its opening quote; each step consumes input, which bounds the fuel.\<close>

fun scan_string :: "nat \<Rightarrow> string \<Rightarrow> (string \<times> string) option" where
  "scan_string (Suc n) (c # r) =
     (if c = CHR 0x22 then Some ([], r)
      else if (of_char c :: nat) < 32 then None
      else if c = CHR 0x5C then
        (case r of
           [] \<Rightarrow> None
         | e # r1 \<Rightarrow>
             if e = CHR ''u'' then
               (case scan_u r1 of
                  None \<Rightarrow> None
                | Some (p, r2) \<Rightarrow> map_option (\<lambda>(t, r3). (utf8_encode p @ t, r3)) (scan_string n r2))
             else
               (case unescape e of
                  None \<Rightarrow> None
                | Some d \<Rightarrow> map_option (\<lambda>(t, r3). (d # t, r3)) (scan_string n r1)))
      else map_option (\<lambda>(t, r3). (c # t, r3)) (scan_string n r))"
| "scan_string _ _ = None"

definition digits_value :: "string \<Rightarrow> nat" where
  "digits_value ds = foldl (\<lambda>n c. n * 10 + (of_char c - 48)) 0 ds"

definition scan_frac :: "string \<Rightarrow> string" where
  "scan_frac r =
     (case r of
        c # r2 \<Rightarrow> if c = CHR ''.'' \<and> takeWhile is_digit r2 \<noteq> [] then c # takeWhile is_digit r2 else []
      | [] \<Rightarrow> [])"

definition exp_sign :: "string \<Rightarrow> string" where
  "exp_sign r = (if take 1 r \<in> {''+'', ''-''} then take 1 r else [])"

definition scan_exp :: "string \<Rightarrow> string" where
  "scan_exp r =
     (case r of
        c # r2 \<Rightarrow>
          let ds = takeWhile is_digit (drop (length (exp_sign r2)) r2)
          in if (c = CHR ''e'' \<or> c = CHR ''E'') \<and> ds \<noteq> [] then c # exp_sign r2 @ ds else []
      | [] \<Rightarrow> [])"

definition scan_number :: "string \<Rightarrow> (json \<times> string) option" where
  "scan_number s =
     (let neg = (take 1 s = ''-'');
          r = (if neg then drop 1 s else s);
          ds = (if take 1 r = ''0'' then ''0'' else takeWhile is_digit r);
          r1 = drop (length ds) r;
          fr = scan_frac r1;
          ex = scan_exp (drop (length fr) r1);
          n = int (digits_value ds)
      in if ds = [] then None
         else Some (if fr = [] \<and> ex = [] then JNum (if neg then - n else n)
                    else JFloat ((if neg then ''-'' else []) @ ds @ fr @ ex),
                    drop (length ex) (drop (length fr) r1)))"

definition scan_word :: "string \<Rightarrow> (json \<times> string) option" where
  "scan_word s =
     (if take 4 s = ''null'' then Some (JNull, drop 4 s)
      else if take 4 s = ''true'' then Some (JBool True, drop 4 s)
      else if take 5 s = ''false'' then Some (JBool False, drop 5 s)
      else None)"

text \<open>The value scanner; the fuel bounds the nesting of calls, each of which consumes input.\<close>

fun scan_value :: "nat \<Rightarrow> string \<Rightarrow> (json \<times> string) option"
  and scan_elems :: "nat \<Rightarrow> string \<Rightarrow> (json list \<times> string) option"
  and scan_pairs :: "nat \<Rightarrow> string \<Rightarrow> ((string \<times> json) list \<times> string) option" where
  "scan_value (Suc n) (c # r) =
     (if c = CHR 0x22 then map_option (\<lambda>(t, r'). (JStr t, r')) (scan_string (length r) r)
      else if c = CHR ''['' then
        (if take 1 (skip_ws r) = '']'' then Some (JArr [], drop 1 (skip_ws r))
         else map_option (\<lambda>(vs, r'). (JArr vs, r')) (scan_elems n (skip_ws r)))
      else if c = CHR ''{'' then
        (if take 1 (skip_ws r) = ''}'' then Some (JObj [], drop 1 (skip_ws r))
         else map_option (\<lambda>(kvs, r'). (JObj (fold (\<lambda>(k, v). AList.update k v) kvs []), r')) (scan_pairs n (skip_ws r)))
      else if c = CHR ''-'' \<or> is_digit c then scan_number (c # r)
      else scan_word (c # r))"
| "scan_value _ _ = None"
| "scan_elems (Suc n) s =
     (case scan_value n s of
        None \<Rightarrow> None
      | Some (v, r) \<Rightarrow>
          if take 1 (skip_ws r) = '']'' then Some ([v], drop 1 (skip_ws r))
          else if take 1 (skip_ws r) = '','' then
            map_option (\<lambda>(vs, r'). (v # vs, r')) (scan_elems n (skip_ws (drop 1 (skip_ws r))))
          else None)"
| "scan_elems _ _ = None"
| "scan_pairs (Suc n) s =
     (if take 1 s = [CHR 0x22] then
        (case scan_string (length s - 1) (drop 1 s) of
           None \<Rightarrow> None
         | Some (k, r) \<Rightarrow>
             if take 1 (skip_ws r) = '':'' then
               (case scan_value n (skip_ws (drop 1 (skip_ws r))) of
                  None \<Rightarrow> None
                | Some (v, r2) \<Rightarrow>
                    if take 1 (skip_ws r2) = ''}'' then Some ([(k, v)], drop 1 (skip_ws r2))
                    else if take 1 (skip_ws r2) = '','' then
                      map_option (\<lambda>(kvs, r'). ((k, v) # kvs, r')) (scan_pairs n (skip_ws (drop 1 (skip_ws r2))))
                    else None)
             else None)
      else None)"
| "scan_pairs _ _ = None"

text \<open>\<^verbatim>\<open>JSONDecodeError\<close> is a \<^verbatim>\<open>ValueError\<close>.\<close>

definition loads :: "string \<Rightarrow> json res" where
  "loads s =
     (case scan_value (2 * length s) (skip_ws s) of
        Some (v, r) \<Rightarrow> if skip_ws r = [] then Inr v else Inl ValueError
      | None \<Rightarrow> Inl ValueError)"

subsection \<open>Numbers\<close>

text \<open>The exact value of a float literal, and the values that Python computes with as numbers.\<close>

definition float_value :: "string \<Rightarrow> rat" where
  "float_value t =
     (let neg = (take 1 t = ''-'');
          u = (if neg then drop 1 t else t);
          ds = takeWhile is_digit u;
          fr = scan_frac (drop (length ds) u);
          ex = drop 1 (scan_exp (drop (length fr) (drop (length ds) u)));
          e = digits_value (filter is_digit ex);
          m = of_nat (digits_value ds) + of_nat (digits_value (drop 1 fr)) / 10 ^ (length fr - 1);
          x = (if take 1 ex = ''-'' then m / 10 ^ e else m * 10 ^ e)
      in if neg then - x else x)"

fun json_num :: "json \<Rightarrow> rat option" where
  "json_num (JNum n) = Some (of_int n)"
| "json_num (JBool b) = Some (if b then 1 else 0)"
| "json_num (JFloat t) = Some (float_value t)"
| "json_num v = None"

subsection \<open>Scanning what was printed\<close>

definition ascii :: "string \<Rightarrow> bool" where
  "ascii s \<longleftrightarrow> list_all (\<lambda>c. (of_char c :: nat) < 128) s"

text \<open>Values that the text represents faithfully: ASCII strings, floats in the form of the grammar and
  objects without duplicate keys.\<close>

fun json_ok :: "json \<Rightarrow> bool" where
  "json_ok (JFloat t) \<longleftrightarrow> scan_number t = Some (JFloat t, [])"
| "json_ok (JStr s) \<longleftrightarrow> ascii s"
| "json_ok (JArr vs) \<longleftrightarrow> list_all json_ok vs"
| "json_ok (JObj kvs) \<longleftrightarrow> list_all (\<lambda>(k, v). ascii k \<and> json_ok v) kvs \<and> distinct (map fst kvs)"
| "json_ok v \<longleftrightarrow> True"

lemma utf8_points_ascii: "ascii s \<Longrightarrow> utf8_points strict s = Some (map of_char s)"
  by (induction s) (auto simp: ascii_def Let_def)

lemma hex_value_digit: "d < 16 \<Longrightarrow> hex_value (hex_digit d) = Some d"
  by (auto simp: hex_value_def hex_digit_def Let_def)

lemma scan_hex4_hex4:
  assumes p: "p < 65536"
  shows "scan_hex4 (hex4 p @ r) = Some (p, r)"
proof -
  have sum: "a * 4096 + b * 256 + c * 16 + d = q" if "q = x * 16 + d" "x = y * 16 + c" "y = a * 16 + b"
    for a b c d q x y :: nat using that by simp
  have "p div 256 = p div 16 div 16" "p div 4096 = p div 16 div 16 div 16" by (simp_all add: div_mult2_eq [symmetric])
  then have "p div 4096 * 4096 + p div 256 mod 16 * 256 + p div 16 mod 16 * 16 + p mod 16 = p"
    by (intro sum [where x = "p div 16" and y = "p div 256"]) (simp_all only: div_mult_mod_eq)
  then show ?thesis using p by (simp add: hex4_def hex_value_digit)
qed

lemma scan_escape:
  assumes "(of_char c :: nat) < 128"
  shows "scan_string (Suc n) (escape_point (of_char c) @ r) = map_option (\<lambda>(t, r3). (c # t, r3)) (scan_string n r)"
proof -
  let ?p = "of_char c :: nat"
  have c: "byte ?p = c" by (simp add: byte_def)
  have u: "scan_u (hex4 ?p @ r) = Some (?p, r)" using assms by (simp add: scan_u_def scan_hex4_hex4)
  consider "?p = 34" | "?p = 92" | "?p = 10" | "?p = 13" | "?p = 9" | "?p = 8" | "?p = 12"
    | "32 \<le> ?p" "?p \<le> 126" "?p \<noteq> 34" "?p \<noteq> 92"
    | "?p \<noteq> 34" "?p \<noteq> 92" "?p \<noteq> 10" "?p \<noteq> 13" "?p \<noteq> 9" "?p \<noteq> 8" "?p \<noteq> 12" "\<not> (32 \<le> ?p \<and> ?p \<le> 126)"
    by blast
  then show ?thesis
  proof cases
    case 1
    then have "of_char c = (of_char (CHR 0x22) :: nat)" by simp
    then have "c = CHR 0x22" by (simp only: of_char_eq_iff)
    then show ?thesis by (simp add: escape_point_def unescape_def)
  next
    case 2
    then have "of_char c = (of_char (CHR 0x5C) :: nat)" by simp
    then have "c = CHR 0x5C" by (simp only: of_char_eq_iff)
    then show ?thesis by (simp add: escape_point_def unescape_def)
  next
    case 3
    then have "of_char c = (of_char (CHR 0x0A) :: nat)" by simp
    then have "c = CHR 0x0A" by (simp only: of_char_eq_iff)
    then show ?thesis by (simp add: escape_point_def unescape_def)
  next
    case 4
    then have "of_char c = (of_char (CHR 0x0D) :: nat)" by simp
    then have "c = CHR 0x0D" by (simp only: of_char_eq_iff)
    then show ?thesis by (simp add: escape_point_def unescape_def)
  next
    case 5
    then have "of_char c = (of_char (CHR 0x09) :: nat)" by simp
    then have "c = CHR 0x09" by (simp only: of_char_eq_iff)
    then show ?thesis by (simp add: escape_point_def unescape_def)
  next
    case 6
    then have "of_char c = (of_char (CHR 0x08) :: nat)" by simp
    then have "c = CHR 0x08" by (simp only: of_char_eq_iff)
    then show ?thesis by (simp add: escape_point_def unescape_def)
  next
    case 7
    then have "of_char c = (of_char (CHR 0x0C) :: nat)" by simp
    then have "c = CHR 0x0C" by (simp only: of_char_eq_iff)
    then show ?thesis by (simp add: escape_point_def unescape_def)
  next
    case 8
    then have "c \<noteq> CHR 0x22" "c \<noteq> CHR 0x5C" by auto
    with 8 c show ?thesis by (simp add: escape_point_def)
  next
    case 9
    then have "escape_point ?p = CHR 0x5C # CHR ''u'' # hex4 ?p" using assms by (simp add: escape_point_def u_escape_def)
    with u c assms show ?thesis by (simp add: utf8_encode_def)
  qed
qed

lemma scan_dump_str:
  assumes "ascii s" and "length s < n"
  shows "scan_string n (concat (map (\<lambda>c. escape_point (of_char c)) s) @ CHR 0x22 # r) = Some (s, r)"
  using assms
proof (induction s arbitrary: n)
  case Nil
  then show ?case by (cases n) auto
next
  case (Cons c s)
  then obtain m where n: "n = Suc m" by (cases n) auto
  have "(of_char c :: nat) < 128" "ascii s" using Cons.prems by (auto simp: ascii_def)
  with Cons n show ?case by (simp add: scan_escape)
qed

lemma dump_str_ascii: "ascii s \<Longrightarrow> dump_str s = CHR 0x22 # concat (map (\<lambda>c. escape_point (of_char c)) s) @ [CHR 0x22]"
  by (simp add: dump_str_def utf8_points_ascii comp_def)

lemma escape_point_pos: "0 < length (escape_point p)"
  by (simp add: escape_point_def u_escape_def)

lemma length_escapes: "length s \<le> length (concat (map (\<lambda>c. escape_point (of_char c)) s))"
proof (induction s)
  case (Cons c s)
  have "1 \<le> length (escape_point (of_char c))" using escape_point_pos [of "of_char c"] by linarith
  with Cons show ?case by simp
qed simp

definition no_num :: "string \<Rightarrow> bool" where
  "no_num r \<longleftrightarrow> r = [] \<or> hd r \<in> {CHR '','', CHR '']'', CHR ''}''}"

lemma no_num_simps:
  "no_num r \<Longrightarrow> takeWhile is_digit r = []" "no_num r \<Longrightarrow> scan_frac r = []" "no_num r \<Longrightarrow> scan_exp r = []"
  by (cases r; auto simp: no_num_def is_digit_def scan_frac_def scan_exp_def Let_def)+

lemma takeWhile_no_num: "no_num r \<Longrightarrow> takeWhile is_digit (x @ r) = takeWhile is_digit x"
  by (induction x) (auto simp: no_num_simps)

lemma is_digit_char: "(d :: nat) < 10 \<Longrightarrow> is_digit (char_of (48 + d))"
  by (simp add: is_digit_def)

lemma nat_str_digits: "list_all is_digit (nat_str n)"
  by (induction n rule: nat_str.induct) (subst nat_str.simps, simp add: is_digit_char)

lemma nat_str_not_Nil: "nat_str n \<noteq> []"
  by (subst nat_str.simps) simp

lemma hd_nat_str: "0 < n \<Longrightarrow> hd (nat_str n) \<noteq> CHR ''0''"
proof (induction n rule: nat_str.induct)
  case (1 n)
  show ?case
  proof (cases "n < 10")
    case True
    have "char_of (48 + n) \<noteq> CHR ''0''"
    proof
      assume "char_of (48 + n) = CHR ''0''"
      then have "of_char (char_of (48 + n)) = (of_char (CHR ''0'') :: nat)" by simp
      with True 1(2) show False by simp
    qed
    with True show ?thesis by (subst nat_str.simps) simp
  next
    case False
    with 1(1) show ?thesis by (subst nat_str.simps) (simp add: nat_str_not_Nil)
  qed
qed

lemma digits_value_nat_str: "digits_value (nat_str n) = n"
proof (induction n rule: nat_str.induct)
  case (1 n)
  then show ?case by (subst nat_str.simps) (auto simp: digits_value_def)
qed

lemma scan_nat_str:
  assumes "no_num r"
  shows "(if take 1 (nat_str n @ r) = ''0'' then ''0'' else takeWhile is_digit (nat_str n @ r)) = nat_str n"
proof (cases "n = 0")
  case True
  have "of_char (char_of (48 :: nat)) = (of_char (CHR ''0'') :: nat)" by simp
  then have "char_of (48 :: nat) = CHR ''0''" by (simp only: of_char_eq_iff)
  then have "nat_str 0 = ''0''" by (subst nat_str.simps) simp
  with True show ?thesis by simp
next
  case False
  then have "take 1 (nat_str n @ r) \<noteq> ''0''" using hd_nat_str [of n] nat_str_not_Nil [of n] by (cases "nat_str n") auto
  moreover have "takeWhile is_digit (nat_str n @ r) = nat_str n"
    using nat_str_digits [of n] assms by (simp add: no_num_simps list_all_iff)
  ultimately show ?thesis by simp
qed

lemma scan_digits:
  assumes r: "no_num r" and s: "s = (if neg then CHR ''-'' # nat_str k @ r else nat_str k @ r)"
  shows "scan_number s = Some (JNum (if neg then - int k else int k), r)"
proof -
  have "hd (nat_str k) \<noteq> CHR ''-''"
    using nat_str_digits [of k] nat_str_not_Nil [of k] by (cases "nat_str k") (auto simp: is_digit_def)
  then have "take 1 (nat_str k @ r) \<noteq> ''-''" using nat_str_not_Nil [of k] by (cases "nat_str k") simp_all
  then have neg: "(take 1 s = ''-'') = neg" and rest: "(if neg then drop 1 s else s) = nat_str k @ r"
    using s by (cases neg; simp)+
  show ?thesis
    unfolding scan_number_def Let_def neg rest scan_nat_str [OF r]
    using nat_str_not_Nil [of k] by (simp add: digits_value_nat_str no_num_simps [OF r])
qed

lemma scan_int_str:
  assumes "no_num r"
  shows "scan_number (int_str n @ r) = Some (JNum n, r)"
  using scan_digits [OF assms, of _ "n < 0" "nat \<bar>n\<bar>"] by (cases "n < 0") (simp_all add: int_str_def)


lemma no_num_hd: "no_num r \<Longrightarrow> take 1 r \<noteq> ''-''" "no_num r \<Longrightarrow> take 1 r \<noteq> ''0''" "no_num r \<Longrightarrow> take 1 r \<noteq> ''.''"
  by (cases r; auto simp: no_num_def)+

lemma scan_frac_append: "no_num r \<Longrightarrow> scan_frac (x @ r) = scan_frac x"
  by (cases x) (auto simp: no_num_simps takeWhile_no_num, auto simp: scan_frac_def takeWhile_no_num)

lemma scan_exp_append:
  assumes "no_num r"
  shows "scan_exp (x @ r) = scan_exp x"
proof (cases x)
  case Nil
  then show ?thesis using assms by (simp add: no_num_simps) (simp add: scan_exp_def)
next
  case (Cons c y)
  have "exp_sign (y @ r) = exp_sign y"
    using assms by (cases y; cases r) (auto simp: exp_sign_def no_num_def)
  moreover have "length (exp_sign y) \<le> length y" by (simp add: exp_sign_def)
  ultimately show ?thesis
    using Cons assms by (simp add: scan_exp_def takeWhile_no_num Let_def)
qed

lemma scan_frac_le: "length (scan_frac r) \<le> length r"
  by (cases r) (auto simp: scan_frac_def length_takeWhile_le)

lemma scan_exp_le: "length (scan_exp r) \<le> length r"
proof (cases r)
  case (Cons c y)
  have "length (exp_sign y) \<le> length y" by (simp add: exp_sign_def)
  moreover have "length (takeWhile is_digit (drop (length (exp_sign y)) y)) \<le> length y - length (exp_sign y)"
    by (rule order_trans [OF length_takeWhile_le]) simp
  ultimately show ?thesis using Cons by (auto simp: scan_exp_def Let_def)
qed (simp add: scan_exp_def)

lemma scan_number_append:
  assumes t: "scan_number t = Some (v, [])" and r: "no_num r"
  shows "scan_number (t @ r) = Some (v, r)"
proof -
  define neg where "neg \<longleftrightarrow> take 1 t = ''-''"
  define u where "u = (if neg then drop 1 t else t)"
  define ds where "ds = (if take 1 u = ''0'' then ''0'' else takeWhile is_digit u)"
  define fr where "fr = scan_frac (drop (length ds) u)"
  define ex where "ex = scan_exp (drop (length fr) (drop (length ds) u))"
  have ne: "ds \<noteq> []" and v: "v = (if fr = [] \<and> ex = [] then JNum (if neg then - int (digits_value ds) else int (digits_value ds))
       else JFloat ((if neg then ''-'' else []) @ ds @ fr @ ex))" and e: "drop (length ex) (drop (length fr) (drop (length ds) u)) = []"
    using t unfolding scan_number_def Let_def neg_def [symmetric] u_def [symmetric] ds_def [symmetric]
      fr_def [symmetric] ex_def [symmetric] by (auto split: if_splits)
  have u: "u \<noteq> []" using ne by (auto simp: ds_def)
  then have "t \<noteq> []" by (auto simp: u_def split: if_splits)
  then have neg': "(take 1 (t @ r) = ''-'') = neg" and u': "(if neg then drop 1 (t @ r) else t @ r) = u @ r"
    by (cases t; auto simp: neg_def u_def)+
  have ds': "(if take 1 (u @ r) = ''0'' then ''0'' else takeWhile is_digit (u @ r)) = ds"
    using u r by (cases u) (auto simp: ds_def takeWhile_no_num)
  have "length ds \<le> length u" using u by (cases u) (auto simp: ds_def length_takeWhile_le)
  then have d1: "drop (length ds) (u @ r) = drop (length ds) u @ r" by simp
  have fr': "scan_frac (drop (length ds) u @ r) = fr" using r by (simp add: scan_frac_append fr_def)
  have "length fr \<le> length (drop (length ds) u)" unfolding fr_def by (rule scan_frac_le)
  then have d2: "drop (length fr) (drop (length ds) u @ r) = drop (length fr) (drop (length ds) u) @ r" by simp
  have ex': "scan_exp (drop (length fr) (drop (length ds) u) @ r) = ex" using r by (simp add: scan_exp_append ex_def)
  have "length ex \<le> length (drop (length fr) (drop (length ds) u))"
    unfolding ex_def by (rule scan_exp_le)
  then have d3: "drop (length ex) (drop (length fr) (drop (length ds) u) @ r) = r" using e by simp
  show ?thesis
    unfolding scan_number_def Let_def neg' u' ds' d1 fr' d2 ex' d3 using ne v by simp
qed


lemma dumps_hd:
  assumes "json_ok v"
  obtains c t where "dumps v = c # t" and "\<not> is_ws c" and "c \<notin> {CHR '']'', CHR ''}'', CHR '',''}"
proof -
  have "\<exists>c t. dumps v = c # t \<and> \<not> is_ws c \<and> c \<notin> {CHR '']'', CHR ''}'', CHR '',''}"
  proof (cases v)
    case (JNum n)
    have d: "\<exists>c t. nat_str k = c # t \<and> is_digit c" for k
      using nat_str_digits [of k] nat_str_not_Nil [of k] by (cases "nat_str k") auto
    show ?thesis
      using d [of "nat \<bar>n\<bar>"] JNum by (cases "n < 0") (auto simp: int_str_def is_ws_def is_digit_def)
  next
    case (JFloat t)
    then have t: "scan_number t = Some (JFloat t, [])" using assms by simp
    then have "t \<noteq> []" by (auto simp: scan_number_def Let_def)
    then obtain c u where c: "t = c # u" by (cases t) auto
    have "c = CHR ''-'' \<or> is_digit c"
      using t c by (auto simp: scan_number_def Let_def is_digit_def split: if_splits)
    with c JFloat show ?thesis by (auto simp: is_ws_def is_digit_def)
  qed (auto simp: dump_str_def is_ws_def)
  then show thesis using that by blast
qed

lemma scan_quoted:
  assumes "ascii s" and "r = concat (map (\<lambda>c. escape_point (of_char c)) s) @ CHR 0x22 # r'"
  shows "scan_string (length r) r = Some (s, r')"
proof -
  have "length s < length r" using length_escapes [of s] assms(2) by simp
  then show ?thesis using scan_dump_str [OF assms(1)] assms(2) by simp
qed

lemma scan_elems_dumps:
  assumes "\<And>v n r. v \<in> set vs \<Longrightarrow> no_num r \<Longrightarrow> 2 * length (dumps v) \<le> n \<Longrightarrow> scan_value n (dumps v @ r) = Some (v, r)"
    and "list_all json_ok vs" and "vs \<noteq> []" and "2 * length (join '', '' (map dumps vs)) < n"
  shows "scan_elems n (join '', '' (map dumps vs) @ CHR '']'' # r) = Some (vs, r)"
  using assms
proof (induction vs arbitrary: n)
  case (Cons v vs)
  obtain m where n: "n = Suc m" using Cons.prems(4) by (cases n) auto
  show ?case
  proof (cases vs)
    case Nil
    have "scan_value m (dumps v @ CHR '']'' # r) = Some (v, CHR '']'' # r)"
      using Cons.prems(4) n Nil by (intro Cons.prems(1)) (auto simp: no_num_def)
    then show ?thesis using Nil n by (simp add: is_ws_def)
  next
    case (Cons w ws)
    let ?j = "join '', '' (map dumps vs)"
    have j: "join '', '' (map dumps (v # vs)) = dumps v @ '', '' @ ?j" using Cons by simp
    then have len: "2 * length (dumps v) \<le> m" "2 * length ?j < m" using Cons.prems(4) n by simp_all
    have "json_ok w" using Cons.prems(2) Cons by simp
    then obtain c t where c: "dumps w = c # t" "\<not> is_ws c" by (rule dumps_hd)
    then have ws: "skip_ws (?j @ x) = ?j @ x" for x using Cons by (cases ws) simp_all
    have v: "scan_value m (dumps v @ '', '' @ ?j @ CHR '']'' # r) = Some (v, '', '' @ ?j @ CHR '']'' # r)"
      using len by (intro Cons.prems(1)) (auto simp: no_num_def)
    have "scan_elems m (?j @ CHR '']'' # r) = Some (vs, r)"
      using Cons.prems Cons len by (intro Cons.IH) auto
    with v ws show ?thesis unfolding j n by (simp add: is_ws_def)
  qed
qed simp


lemma scan_pairs_dumps:
  assumes "\<And>k v n r. (k, v) \<in> set kvs \<Longrightarrow> no_num r \<Longrightarrow> 2 * length (dumps v) \<le> n \<Longrightarrow> scan_value n (dumps v @ r) = Some (v, r)"
    and "list_all (\<lambda>(k, v). ascii k \<and> json_ok v) kvs" and "kvs \<noteq> []"
    and "2 * length (join '', '' (map (\<lambda>(k, v). dump_str k @ '': '' @ dumps v) kvs)) < n"
  shows "scan_pairs n (join '', '' (map (\<lambda>(k, v). dump_str k @ '': '' @ dumps v) kvs) @ CHR ''}'' # r) = Some (kvs, r)"
  using assms
proof (induction kvs arbitrary: n)
  case (Cons kv kvs)
  obtain k v where kv: "kv = (k, v)" by (cases kv)
  obtain m where n: "n = Suc m" using Cons.prems(4) by (cases n) auto
  have ok: "ascii k" "json_ok v" using Cons.prems(2) kv by auto
  from ok(2) obtain c t where c: "dumps v = c # t" "\<not> is_ws c" by (rule dumps_hd)
  let ?e = "concat (map (\<lambda>c. escape_point (of_char c)) k)"
  have pairs: "scan_pairs (Suc m) (dump_str k @ '': '' @ dumps v @ x) =
      (case scan_value m (dumps v @ x) of None \<Rightarrow> None
       | Some (v, r2) \<Rightarrow>
           if take 1 (skip_ws r2) = ''}'' then Some ([(k, v)], drop 1 (skip_ws r2))
           else if take 1 (skip_ws r2) = '','' then
             map_option (\<lambda>(kvs, r'). ((k, v) # kvs, r')) (scan_pairs m (skip_ws (drop 1 (skip_ws r2))))
           else None)" for x
    using scan_quoted [OF ok(1) refl, of "'': '' @ dumps v @ x"] c
    by (simp add: dump_str_ascii [OF ok(1)] is_ws_def)
  show ?case
  proof (cases kvs)
    case Nil
    have "scan_value m (dumps v @ CHR ''}'' # r) = Some (v, CHR ''}'' # r)"
      using Cons.prems(4) n Nil kv by (intro Cons.prems(1)) (auto simp: no_num_def)
    with pairs [of "CHR ''}'' # r"] show ?thesis using Nil n kv by (simp add: is_ws_def)
  next
    case (Cons kw ws)
    let ?j = "join '', '' (map (\<lambda>(k, v). dump_str k @ '': '' @ dumps v) kvs)"
    have j: "join '', '' (map (\<lambda>(k, v). dump_str k @ '': '' @ dumps v) (kv # kvs)) = dump_str k @ '': '' @ dumps v @ '', '' @ ?j"
      using Cons kv by simp
    then have len: "2 * length (dumps v) \<le> m" "2 * length ?j < m" using Cons.prems(4) n by simp_all
    have ws: "skip_ws (?j @ x) = ?j @ x" for x
      using Cons by (cases ws; cases kw) (simp_all add: dump_str_def is_ws_def)
    have v: "scan_value m (dumps v @ '', '' @ ?j @ CHR ''}'' # r) = Some (v, '', '' @ ?j @ CHR ''}'' # r)"
      using len kv by (intro Cons.prems(1)) (auto simp: no_num_def)
    have "scan_pairs m (?j @ CHR ''}'' # r) = Some (kvs, r)"
      using Cons.prems Cons len by (intro Cons.IH) auto
    with v ws pairs [of "'', '' @ ?j @ CHR ''}'' # r"] kv show ?thesis unfolding j n by (simp add: is_ws_def)
  qed
qed simp

lemma fold_update_distinct:
  "distinct (map fst (acc @ kvs)) \<Longrightarrow> fold (\<lambda>(k, v). AList.update k v) kvs acc = acc @ kvs"
proof (induction kvs arbitrary: acc)
  case (Cons kv kvs)
  have "AList.update k v acc = acc @ [(k, v)]" if "k \<notin> fst ` set acc" for k v
    using that by (induction acc) auto
  then have "AList.update (fst kv) (snd kv) acc = acc @ [kv]" using Cons.prems by auto
  then show ?case using Cons by (simp add: case_prod_beta)
qed simp

lemma scan_dumps:
  "json_ok v \<Longrightarrow> no_num r \<Longrightarrow> 2 * length (dumps v) \<le> n \<Longrightarrow> scan_value n (dumps v @ r) = Some (v, r)"
proof (induction v arbitrary: n r rule: dumps.induct)
  case 1
  then show ?case by (cases n) (simp_all add: scan_word_def is_digit_def)
next
  case (2 b)
  then show ?case by (cases n; cases b) (simp_all add: scan_word_def is_digit_def)
next
  case (3 k)
  obtain c t where c: "int_str k = c # t" "c = CHR ''-'' \<or> is_digit c"
    using nat_str_digits [of "nat \<bar>k\<bar>"] nat_str_not_Nil [of "nat \<bar>k\<bar>"]
    by (cases "k < 0"; cases "nat_str (nat \<bar>k\<bar>)") (auto simp: int_str_def)
  obtain m where n: "n = Suc m" using 3 c by (cases n) auto
  from c(2) have "c \<notin> {CHR 0x22, CHR ''['', CHR ''{''}" by (auto simp: is_digit_def)
  with scan_int_str [OF 3(2), of k] c n show ?case by auto
next
  case (4 t)
  then have s: "scan_number (t @ r) = Some (JFloat t, r)" by (intro scan_number_append) simp_all
  have "t \<noteq> []" using 4(1) by (auto simp: scan_number_def Let_def)
  then obtain c u where c: "t = c # u" by (cases t) auto
  have d: "c = CHR ''-'' \<or> is_digit c"
    using 4(1) c by (auto simp: scan_number_def Let_def is_digit_def split: if_splits)
  then have "c \<notin> {CHR 0x22, CHR ''['', CHR ''{''}" by (auto simp: is_digit_def)
  moreover obtain m where n: "n = Suc m" using 4 c by (cases n) auto
  ultimately show ?case using s c d by auto
next
  case (5 s)
  then obtain m where n: "n = Suc m" by (cases n) (auto simp: dump_str_def)
  with scan_quoted [of s _ r] 5 show ?case by (simp add: dump_str_ascii)
next
  case (6 vs)
  then obtain m where n: "n = Suc m" by (cases n) auto
  show ?case
  proof (cases vs)
    case (Cons w ws)
    let ?j = "join '', '' (map dumps vs)"
    have "json_ok w" using 6(2) Cons by simp
    then obtain c t where c: "dumps w = c # t" "\<not> is_ws c" "c \<notin> {CHR '']'', CHR ''}'', CHR '',''}" by (rule dumps_hd)
    then obtain u where j: "?j = c # u" using Cons by (cases ws) simp_all
    have "scan_elems m (?j @ CHR '']'' # r) = Some (vs, r)"
      using 6 Cons n by (intro scan_elems_dumps) (auto simp: list_all_iff)
    with j c n show ?thesis by simp
  qed (use n in \<open>simp add: is_ws_def\<close>)
next
  case (7 kvs)
  then obtain m where n: "n = Suc m" by (cases n) auto
  show ?case
  proof (cases kvs)
    case (Cons kw ws)
    let ?j = "join '', '' (map (\<lambda>(k, v). dump_str k @ '': '' @ dumps v) kvs)"
    obtain u where j: "?j = CHR 0x22 # u" using Cons by (cases ws; cases kw) (simp_all add: dump_str_def)
    have "scan_pairs m (?j @ CHR ''}'' # r) = Some (kvs, r)"
      using 7 Cons n by (intro scan_pairs_dumps) (fastforce simp: list_all_iff)+
    with j n show ?thesis using fold_update_distinct [of "[]" kvs] 7(2) by (simp add: is_ws_def)
  qed (use n in \<open>simp add: is_ws_def\<close>)
qed

lemma loads_dumps:
  assumes "json_ok v"
  shows "loads (dumps v) = Inr v"
proof -
  obtain c t where c: "dumps v = c # t" "\<not> is_ws c" using assms by (rule dumps_hd)
  have "scan_value (2 * length (dumps v)) (dumps v @ []) = Some (v, [])"
    using assms by (intro scan_dumps) (auto simp: no_num_def)
  with c show ?thesis by (simp add: loads_def)
qed

lemma ascii_append [simp]: "ascii (s @ t) \<longleftrightarrow> ascii s \<and> ascii t"
  by (simp add: ascii_def)

lemma ascii_Cons [simp]: "ascii (c # t) \<longleftrightarrow> (of_char c :: nat) < 128 \<and> ascii t"
  by (simp add: ascii_def)

lemma ascii_Nil [simp]: "ascii []"
  by (simp add: ascii_def)

lemma ascii_digits: "list_all is_digit s \<Longrightarrow> ascii s"
  by (induction s) (auto simp: is_digit_def)

lemma ascii_takeWhile: "ascii (takeWhile is_digit s)"
  by (rule ascii_digits) (auto simp: list_all_iff dest: set_takeWhileD)

lemma ascii_hex4: "ascii (hex4 p)"
proof -
  have "(of_char (hex_digit d) :: nat) < 128" if "d < 16" for d using that by (simp add: hex_digit_def)
  then show ?thesis by (simp add: hex4_def)
qed

lemma ascii_escape: "ascii (escape_point p)"
  by (simp add: escape_point_def u_escape_def ascii_hex4 byte_def)

lemma ascii_dump_str: "ascii (dump_str s)"
proof -
  have "ascii (concat (map escape_point ps))" for ps by (induction ps) (simp_all add: ascii_escape)
  then show ?thesis by (simp add: dump_str_def)
qed

lemma ascii_join: "ascii sep \<Longrightarrow> list_all ascii ss \<Longrightarrow> ascii (join sep ss)"
  by (induction sep ss rule: join.induct) auto

lemma ascii_number:
  assumes "scan_number t = Some (JFloat u, r)"
  shows "ascii u"
proof -
  have "ascii (scan_frac x)" for x by (auto simp: scan_frac_def ascii_takeWhile split: list.splits)
  moreover have "ascii (scan_exp x)" for x
    by (auto simp: scan_exp_def exp_sign_def ascii_takeWhile Let_def split: list.splits)
  ultimately show ?thesis
    using assms by (auto simp: scan_number_def Let_def ascii_takeWhile split: if_splits)
qed

lemma ascii_dumps: "json_ok v \<Longrightarrow> ascii (dumps v)"
proof (induction v rule: dumps.induct)
  case (3 n)
  then show ?case by (simp add: int_str_def ascii_digits nat_str_digits)
next
  case (4 t)
  then show ?case using ascii_number [of t t "[]"] by simp
next
  case (6 vs)
  then have "ascii (join '', '' (map dumps vs))" by (intro ascii_join) (auto simp: list_all_iff)
  then show ?case by simp
next
  case (7 kvs)
  then have "ascii (join '', '' (map (\<lambda>(k, v). dump_str k @ '': '' @ dumps v) kvs))"
    by (intro ascii_join) (auto simp: list_all_iff ascii_dump_str)
  then show ?case by simp
qed (simp_all add: ascii_dump_str)

lemma py_str_ascii: "ascii s \<Longrightarrow> py_str s = Inr s"
  by (simp add: py_str_def utf8_points_ascii)

lemma dumps_not_Nil: "json_ok v \<Longrightarrow> dumps v \<noteq> []"
  by (metis dumps_hd list.distinct(1))

end
