(* ===== verification/RPC_Base.thy ===== *)
theory RPC_Base
  imports Json
begin

section \<open>The base of the RPC layer\<close>

text \<open>
  \<^verbatim>\<open>src/python/tvm/rpc/base.py\<close>: the tracker's codes, length-prefixed JSON messages over a stream socket
  and the connection loop.  What a socket has received but not delivered is a list of chunks: one \<^verbatim>\<open>recv\<close>
  returns bytes of one chunk only, an exhausted list is a closed peer.
\<close>

subsection \<open>Codes\<close>

datatype tracker_code =
    TC_FAIL | TC_SUCCESS | TC_PING | TC_STOP | TC_PUT | TC_REQUEST | TC_UPDATE_INFO | TC_SUMMARY | TC_GET_PENDING_MATCHKEYS

fun code_num :: "tracker_code \<Rightarrow> int" where
  "code_num TC_FAIL = -1"
| "code_num TC_SUCCESS = 0"
| "code_num TC_PING = 1"
| "code_num TC_STOP = 2"
| "code_num TC_PUT = 3"
| "code_num TC_REQUEST = 4"
| "code_num TC_UPDATE_INFO = 5"
| "code_num TC_SUMMARY = 6"
| "code_num TC_GET_PENDING_MATCHKEYS = 7"

definition rpc_tracker_magic :: int where
  "rpc_tracker_magic = 0x2F271"

subsection \<open>Four-byte integers\<close>

text \<open>\<^verbatim>\<open>struct.pack("<i", n)\<close> and \<^verbatim>\<open>struct.unpack("<i", b)[0]\<close>: two's complement, least significant byte first.\<close>

definition pack_i :: "int \<Rightarrow> string res" where
  "pack_i n =
     (if - (2 ^ 31) \<le> n \<and> n < 2 ^ 31 then Inr (map char_of (digits [256, 256, 256, 256] (nat (n mod 2 ^ 32))))
      else Inl StructError)"

definition unpack_i :: "string \<Rightarrow> int res" where
  "unpack_i b =
     (if length b = 4 then
        let u = int (undigits [256, 256, 256, 256] (map of_char b))
        in Inr (if u < 2 ^ 31 then u else u - 2 ^ 32)
      else Inl StructError)"

subsection \<open>Messages\<close>

fun sock_recv :: "nat \<Rightarrow> string list \<Rightarrow> string \<times> string list" where
  "sock_recv k [] = ([], [])"
| "sock_recv k (c # cs) = (take k c, if length c \<le> k then cs else drop k c # cs)"

function recvall :: "nat \<Rightarrow> string list \<Rightarrow> (string list, string) outcome" where
  "recvall nbytes inbox =
     (if nbytes = 0 then (Inr [], inbox)
      else case sock_recv (min nbytes 1024) inbox of
        (chunk, inbox') \<Rightarrow>
          if chunk = [] then (Inl OSError, inbox')
          else bindO (recvall (nbytes - length chunk) inbox') (\<lambda>rest s. (Inr (chunk @ rest), s)))"
  by pat_completeness auto
termination by (relation "measure fst") auto

declare recvall.simps [simp del]

definition sendjson :: "(string \<Rightarrow> 'n \<Rightarrow> ('n, unit) outcome) \<Rightarrow> json \<Rightarrow> 'n \<Rightarrow> ('n, unit) outcome" where
  "sendjson sendall v net =
     (let data = dumps v
      in case pack_i (int (length data)) of
           Inl e \<Rightarrow> (Inl e, net)
         | Inr hdr \<Rightarrow> bindO (sendall hdr net) (\<lambda>_ net1. sendall data net1))"

definition recvjson :: "string list \<Rightarrow> (string list, json) outcome" where
  "recvjson inbox =
     bindO (recvall 4 inbox) (\<lambda>b inbox1.
       case unpack_i b of
         Inl e \<Rightarrow> (Inl e, inbox1)
       | Inr sz \<Rightarrow> bindO (recvall (nat sz) inbox1) (\<lambda>d inbox2. (bindE (py_str d) loads, inbox2)))"

subsection \<open>Keys and connections\<close>

text \<open>\<^verbatim>\<open>str(random.random())\<close> is the stream \<open>rand\<close>; an empty or absent map is not consulted.\<close>

partial_function (option) random_key :: "string \<Rightarrow> string list \<Rightarrow> (nat \<Rightarrow> string) \<Rightarrow> nat \<Rightarrow> (string \<times> nat) option" where
  "random_key prefix cmap rand pos =
     (if prefix @ rand pos \<in> set cmap then random_key prefix cmap rand (Suc pos)
      else Some (prefix @ rand pos, Suc pos))"

text \<open>\<^verbatim>\<open>AF_INET\<close> is preferred among the families the resolver lists.\<close>

definition get_addr_family :: "'f \<Rightarrow> 'f list \<Rightarrow> 'f res" where
  "get_addr_family af_inet res = (if af_inet \<in> set res then Inr af_inet else py_get res 0)"

datatype connect_result = Connected | Refused | ConnectError

text \<open>\<open>attempt k\<close> is what the \<open>k\<close>-th \<^verbatim>\<open>connect\<close> does and \<open>elapsed k\<close> the time passed after it; the result is
  the number of the attempt that succeeded.\<close>

partial_function (option) connect_with_retry ::
    "(nat \<Rightarrow> connect_result) \<Rightarrow> (nat \<Rightarrow> rat) \<Rightarrow> rat \<Rightarrow> nat \<Rightarrow> nat res option" where
  "connect_with_retry attempt elapsed timeout k =
     (case attempt k of
        Connected \<Rightarrow> Some (Inr k)
      | ConnectError \<Rightarrow> Some (Inl OSError)
      | Refused \<Rightarrow>
          if elapsed k > timeout then Some (Inl RuntimeError)
          else connect_with_retry attempt elapsed timeout (Suc k))"

subsection \<open>Round trips\<close>

lemma unpack_pack_i:
  assumes "pack_i n = Inr b"
  shows "unpack_i b = Inr n \<and> length b = 4"
proof -
  define m where "m = nat (n mod 2 ^ 32)"
  have n: "- (2 ^ 31) \<le> n" "n < 2 ^ 31" and b: "b = map char_of (digits [256, 256, 256, 256] m)"
    using assms by (auto simp: pack_i_def m_def split: if_splits)
  have "m < prod_list [256, 256, 256, 256]" by (simp add: m_def nat_less_iff)
  then have m: "undigits [256, 256, 256, 256] (digits [256, 256, 256, 256] m) = m" by (rule undigits_digits)
  have "map of_char b = digits [256, 256, 256, 256] m" by (simp add: b)
  moreover have "(if int m < 2 ^ 31 then int m else int m - 2 ^ 32) = n"
  proof (cases "n < 0")
    case True
    then have "n mod 2 ^ 32 = (n + 2 ^ 32) mod 2 ^ 32" by simp
    also have "\<dots> = n + 2 ^ 32" using n True by (intro mod_pos_pos_trivial) auto
    finally show ?thesis using n True by (simp add: m_def)
  next
    case False
    then show ?thesis using n by (simp add: m_def)
  qed
  moreover have "length b = 4" by (simp add: b)
  ultimately show ?thesis using m by (simp add: unpack_i_def)
qed

lemma pack_i_ok: "0 \<le> n \<Longrightarrow> n < 2 ^ 31 \<Longrightarrow> \<exists>b. pack_i n = Inr b"
  by (simp add: pack_i_def)

lemma recvall_exact:
  assumes "list_all (\<lambda>c. c \<noteq> []) inbox" and "concat inbox = data @ rest"
  shows "\<exists>inbox'. recvall (length data) inbox = (Inr data, inbox') \<and> concat inbox' = rest \<and> list_all (\<lambda>c. c \<noteq> []) inbox'"
  using assms
proof (induction "length data" arbitrary: data inbox rule: less_induct)
  case less
  show ?case
  proof (cases "data = []")
    case True
    then show ?thesis using less.prems by (subst recvall.simps) auto
  next
    case False
    then obtain c cs where ib: "inbox = c # cs" using less.prems(2) by (cases inbox) auto
    define k where "k = min (length data) 1024"
    define chunk where "chunk = take k c"
    define inbox' where "inbox' = (if length c \<le> k then cs else drop k c # cs)"
    have k: "0 < k" "k \<le> length data" using False by (auto simp: k_def)
    have c: "c \<noteq> []" using less.prems(1) ib by simp
    then have ch: "chunk \<noteq> []" using k(1) by (simp add: chunk_def)
    have "length chunk \<le> length data" using k by (simp add: chunk_def)
    moreover have whole: "chunk @ concat inbox' = data @ rest"
      using less.prems(2) ib append_take_drop_id [of k c] by (simp add: chunk_def inbox'_def flip: append_assoc)
    ultimately obtain d where d: "data = chunk @ d" "concat inbox' = d @ rest"
      by (auto simp: append_eq_append_conv_if dest: arg_cong [where f = length])
         (metis append_eq_append_conv2 append_eq_append_conv_if append_take_drop_id)
    have ne: "list_all (\<lambda>c. c \<noteq> []) inbox'" using less.prems(1) ib by (auto simp: inbox'_def)
    have "length d < length data" using d(1) ch by simp
    from less.hyps [OF this ne d(2)] obtain ib2 where
      ib2: "recvall (length d) inbox' = (Inr d, ib2)" "concat ib2 = rest" "list_all (\<lambda>c. c \<noteq> []) ib2" by blast
    have "sock_recv k inbox = (chunk, inbox')" by (simp add: ib chunk_def inbox'_def)
    then have "recvall (length data) inbox = bindO (recvall (length data - length chunk) inbox') (\<lambda>rest s. (Inr (chunk @ rest), s))"
      using False ch by (subst recvall.simps) (simp add: k_def)
    with ib2 d(1) show ?thesis by simp
  qed
qed

lemma random_key_returns:
  assumes "prefix @ rand (pos + n) \<notin> set cmap"
  shows "\<exists>j. pos \<le> j \<and> j \<le> pos + n \<and> random_key prefix cmap rand pos = Some (prefix @ rand j, Suc j) \<and> prefix @ rand j \<notin> set cmap"
  using assms
proof (induction n arbitrary: pos)
  case 0
  then show ?case by (subst random_key.simps) auto
next
  case (Suc n)
  show ?case
  proof (cases "prefix @ rand pos \<in> set cmap")
    case True
    from Suc.prems have "prefix @ rand (Suc pos + n) \<notin> set cmap" by simp
    from Suc.IH [OF this] True show ?thesis by (subst random_key.simps) (metis Suc_leD add_Suc_shift)
  next
    case False
    then show ?thesis by (subst random_key.simps) auto
  qed
qed

lemma connect_loop:
  assumes "attempt (k + n) \<noteq> Refused \<or> elapsed (k + n) > timeout"
  shows "\<exists>j. k \<le> j \<and> j \<le> k + n \<and> (\<forall>i. k \<le> i \<and> i < j \<longrightarrow> attempt i = Refused \<and> elapsed i \<le> timeout) \<and>
             connect_with_retry attempt elapsed timeout k =
               Some (case attempt j of Connected \<Rightarrow> Inr j | ConnectError \<Rightarrow> Inl OSError | Refused \<Rightarrow> Inl RuntimeError)"
  using assms
proof (induction n arbitrary: k)
  case 0
  then show ?case by (subst connect_with_retry.simps) (auto intro!: exI [of _ k] split: connect_result.splits)
next
  case (Suc n)
  show ?case
  proof (cases "attempt k = Refused \<and> elapsed k \<le> timeout")
    case True
    from Suc.prems have "attempt (Suc k + n) \<noteq> Refused \<or> elapsed (Suc k + n) > timeout" by simp
    from Suc.IH [OF this] obtain j where
      j: "Suc k \<le> j" "j \<le> Suc k + n" "\<forall>i. Suc k \<le> i \<and> i < j \<longrightarrow> attempt i = Refused \<and> elapsed i \<le> timeout"
        "connect_with_retry attempt elapsed timeout (Suc k) =
           Some (case attempt j of Connected \<Rightarrow> Inr j | ConnectError \<Rightarrow> Inl OSError | Refused \<Rightarrow> Inl RuntimeError)" by blast
    have "attempt i = Refused \<and> elapsed i \<le> timeout" if "k \<le> i \<and> i < j" for i
      using that True j(3) by (cases "i = k") auto
    moreover have "connect_with_retry attempt elapsed timeout k = connect_with_retry attempt elapsed timeout (Suc k)"
      using True by (subst connect_with_retry.simps) simp
    ultimately show ?thesis using j by (intro exI [of _ j]) auto
  next
    case False
    then show ?thesis by (subst connect_with_retry.simps) (auto intro!: exI [of _ k] split: connect_result.splits)
  qed
qed

subsection \<open>Properties\<close>

text \<open>
  [C20] A value sent with \<^verbatim>\<open>sendjson\<close> is what \<^verbatim>\<open>recvjson\<close> returns at the other end, however the network splits
  the bytes into chunks; the bytes of later messages stay in the socket.
\<close>

theorem json_message_roundtrip:
  assumes "json_ok v" and "length (dumps v) < 2 ^ 31"
  shows "\<exists>out. sendjson (\<lambda>b sent. (Inr (), sent @ b)) v [] = (Inr (), out) \<and>
          (\<forall>inbox rest. list_all (\<lambda>c. c \<noteq> []) inbox \<and> concat inbox = out @ rest \<longrightarrow>
             (\<exists>inbox'. recvjson inbox = (Inr v, inbox') \<and> concat inbox' = rest))"
proof -
  let ?d = "dumps v"
  obtain hdr where hdr: "pack_i (int (length ?d)) = Inr hdr" using pack_i_ok [of "int (length ?d)"] assms(2) by auto
  have "\<exists>inbox'. recvjson inbox = (Inr v, inbox') \<and> concat inbox' = rest"
    if "list_all (\<lambda>c. c \<noteq> []) inbox" "concat inbox = (hdr @ ?d) @ rest" for inbox rest
  proof -
    have "concat inbox = hdr @ (?d @ rest)" using that(2) by simp
    from recvall_exact [OF that(1) this] obtain ib1 where
      ib1: "recvall (length hdr) inbox = (Inr hdr, ib1)" "concat ib1 = ?d @ rest" "list_all (\<lambda>c. c \<noteq> []) ib1" by blast
    from recvall_exact [OF ib1(3,2)] obtain ib2 where ib2: "recvall (length ?d) ib1 = (Inr ?d, ib2)" "concat ib2 = rest" by blast
    show ?thesis
      using unpack_pack_i [OF hdr] ib1(1) ib2 assms(1)
      by (simp add: recvjson_def py_str_ascii ascii_dumps loads_dumps)
  qed
  then show ?thesis using hdr by (auto simp: sendjson_def)
qed

theorem json_message_roundtrip_witness:
  "\<exists>out. sendjson (\<lambda>b sent. (Inr (), sent @ b)) (JArr [JNum 4, JStr ''rasp3b'']) [] = (Inr (), out) \<and>
     (\<exists>inbox'. recvjson [take 3 out, drop 3 out @ [CHR ''x'']] = (Inr (JArr [JNum 4, JStr ''rasp3b'']), inbox') \<and> concat inbox' = ''x'')"
proof -
  let ?v = "JArr [JNum 4, JStr ''rasp3b'']"
  have v: "json_ok ?v" by (simp add: ascii_def)
  have l: "length (dumps ?v) = 13" by code_simp
  then have "length (dumps ?v) < 2 ^ 31" by simp
  from json_message_roundtrip [OF v this] obtain out where
    out: "sendjson (\<lambda>b sent. (Inr (), sent @ b)) ?v [] = (Inr (), out)"
      "\<forall>inbox rest. list_all (\<lambda>c. c \<noteq> []) inbox \<and> concat inbox = out @ rest \<longrightarrow>
             (\<exists>inbox'. recvjson inbox = (Inr ?v, inbox') \<and> concat inbox' = rest)" by blast
  have "3 < length out" using out(1) l by (auto simp: sendjson_def Let_def pack_i_def)
  then have "list_all (\<lambda>c. c \<noteq> []) [take 3 out, drop 3 out @ ''x'']" "concat [take 3 out, drop 3 out @ ''x''] = out @ ''x''"
    by auto
  with out show ?thesis by blast
qed

text \<open>
  [C32] \<^verbatim>\<open>connect_with_retry\<close> returns as soon as an attempt is not refused or comes after the timeout: it then
  gives the connection of the first attempt that succeeds, and every earlier attempt was refused in time.
\<close>

theorem connect_with_retry_returns:
  assumes "attempt n \<noteq> Refused \<or> elapsed n > timeout"
  shows "\<exists>j \<le> n. (\<forall>i < j. attempt i = Refused \<and> elapsed i \<le> timeout) \<and>
             connect_with_retry attempt elapsed timeout 0 =
               Some (case attempt j of Connected \<Rightarrow> Inr j | ConnectError \<Rightarrow> Inl OSError | Refused \<Rightarrow> Inl RuntimeError)"
  using connect_loop [of attempt 0 n timeout elapsed] assms by auto

theorem connect_with_retry_returns_witness:
  "\<exists>j \<le> 13. connect_with_retry (\<lambda>k. Refused) (\<lambda>k. 5 * of_nat k) 60 0 = Some (Inl RuntimeError) \<and> (\<forall>i < j. (5 * of_nat i :: rat) \<le> 60)"
  using connect_with_retry_returns [of "\<lambda>k. Refused" 13 60 "\<lambda>k. 5 * of_nat k"] by auto

end
