(* ===== verification/RPC_Tracker.thy ===== *)
theory RPC_Tracker
  imports RPC_Base "HOL-Library.Product_Lexorder"
begin

section \<open>The RPC tracker\<close>

text \<open>
  \<^verbatim>\<open>src/python/tvm/rpc/tracker.py\<close> with the socket handler of \<^verbatim>\<open>src/python/tvm/rpc/tornado_util.py\<close>: the
  connections, the message framing, the request handler and the priority scheduler of each key.  The
  operating system's answers to \<^verbatim>\<open>send\<close> and the iteration order of Python sets are parameters.  A request's
  callback is the number of its connection; the heap of requests is the sorted list of its items, whose
  keys are distinct.  Sending can fail, which closes the connection, which withdraws its resources, which
  schedules again: the functions below are written around the scheduling function they call back.
\<close>

subsection \<open>State\<close>

type_synonym conn_id = nat

text \<open>A resource: the connection that reported it, host, port and match key.\<close>

type_synonym resource = "conn_id \<times> json \<times> json \<times> json"

text \<open>What makes two JSON values equal as keys of a \<^verbatim>\<open>dict\<close> or members of a \<^verbatim>\<open>set\<close>.\<close>

datatype hkey = HNull | HNum rat | HStr string

record conn =
  cn_open :: bool
  cn_addr :: "json list"
  cn_data :: string
  cn_msg_size :: int
  cn_init_req :: nat
  cn_info :: "(json \<times> json) list"
  cn_matchkeys :: "json list"
  cn_put_values :: "resource list"
  cn_pending_write :: "string list"
  cn_signal_close :: bool
  cn_sent :: string
  cn_nsend :: nat

record sched =
  sc_key :: json
  sc_cnt :: nat
  sc_values :: "resource list"
  sc_requests :: "(rat \<times> nat \<times> conn_id) list"

record tracker =
  tr_conn :: "conn_id \<Rightarrow> conn"
  tr_next :: conn_id
  tr_active :: "conn_id list"
  tr_scheds :: "(hkey, sched) dict"
  tr_stop_key :: string
  tr_listening :: bool

text \<open>One \<^verbatim>\<open>send\<close> of a non-empty message: \<open>Sent k\<close> takes \<open>k + 1\<close> bytes of it, or all.\<close>

datatype send_result = Sent nat | WouldBlock | SendError

record net_env =
  ne_send :: "conn_id \<Rightarrow> nat \<Rightarrow> send_result"
  ne_conn_order :: "conn_id list \<Rightarrow> conn_id list"
  ne_key_order :: "json list \<Rightarrow> json list"

definition mk_conn :: "json list \<Rightarrow> conn" where
  "mk_conn addr =
     \<lparr>cn_open = True, cn_addr = addr, cn_data = [], cn_msg_size = 0, cn_init_req = 4,
      cn_info = [(JStr ''addr'', JArr addr)], cn_matchkeys = [], cn_put_values = [],
      cn_pending_write = [], cn_signal_close = False, cn_sent = [], cn_nsend = 0\<rparr>"

definition mk_sched :: "json \<Rightarrow> sched" where
  "mk_sched key = \<lparr>sc_key = key, sc_cnt = 0, sc_values = [], sc_requests = []\<rparr>"

definition mk_tracker :: "string \<Rightarrow> tracker" where
  "mk_tracker stop_key =
     \<lparr>tr_conn = (\<lambda>c. (mk_conn [])\<lparr>cn_open := False\<rparr>), tr_next = 0, tr_active = [], tr_scheds = [], tr_stop_key = stop_key, tr_listening = True\<rparr>"

definition set_conn :: "conn_id \<Rightarrow> (conn \<Rightarrow> conn) \<Rightarrow> tracker \<Rightarrow> tracker" where
  "set_conn c f t = t\<lparr>tr_conn := (tr_conn t)(c := f (tr_conn t c))\<rparr>"

definition set_sched :: "hkey \<Rightarrow> sched \<Rightarrow> tracker \<Rightarrow> tracker" where
  "set_sched k s t = t\<lparr>tr_scheds := AList.update k s (tr_scheds t)\<rparr>"

subsection \<open>Python operations on JSON values\<close>

fun hash_key :: "json \<Rightarrow> hkey res" where
  "hash_key JNull = Inr HNull"
| "hash_key (JStr s) = Inr (HStr s)"
| "hash_key (JArr vs) = Inl TypeError"
| "hash_key (JObj kvs) = Inl TypeError"
| "hash_key v = Inr (HNum (the (json_num v)))"

text \<open>\<^verbatim>\<open>a, b = v\<close>.\<close>

fun unpack2 :: "json \<Rightarrow> (json \<times> json) res" where
  "unpack2 (JArr vs) = (if length vs = 2 then Inr (vs ! 0, vs ! 1) else Inl ValueError)"
| "unpack2 (JObj kvs) = (if length kvs = 2 then Inr (JStr (fst (kvs ! 0)), JStr (fst (kvs ! 1))) else Inl ValueError)"
| "unpack2 (JStr s) =
     (case utf8_points False s of
        Some [p, q] \<Rightarrow> Inr (JStr (utf8_encode p), JStr (utf8_encode q))
      | _ \<Rightarrow> Inl ValueError)"
| "unpack2 v = Inl TypeError"

fun info_set :: "json \<Rightarrow> json \<Rightarrow> (json \<times> json) list \<Rightarrow> (json \<times> json) list" where
  "info_set k v [] = [(k, v)]"
| "info_set k v ((k', v') # info) =
     (if hash_key k' = hash_key k then (k', v) # info else (k', v') # info_set k v info)"

text \<open>\<^verbatim>\<open>dict.update\<close> with a mapping or with a sequence of pairs.\<close>

definition info_put :: "json \<Rightarrow> (json \<times> json) list \<Rightarrow> ((json \<times> json) list, unit) outcome" where
  "info_put e info =
     (case unpack2 e of
        Inl err \<Rightarrow> (Inl err, info)
      | Inr (k, v) \<Rightarrow> (case hash_key k of Inl err \<Rightarrow> (Inl err, info) | Inr _ \<Rightarrow> (Inr (), info_set k v info)))"

fun info_update :: "json \<Rightarrow> (json \<times> json) list \<Rightarrow> ((json \<times> json) list, unit) outcome" where
  "info_update (JObj kvs) info = (Inr (), fold (\<lambda>(k, v). info_set (JStr k) v) kvs info)"
| "info_update (JArr es) info = foldO info_put es info"
| "info_update (JStr s) info = (if s = [] then (Inr (), info) else (Inl ValueError, info))"
| "info_update v info = (Inl TypeError, info)"

text \<open>\<^verbatim>\<open>s.split(":")[1]\<close>.\<close>

definition second_field :: "json \<Rightarrow> json res" where
  "second_field v =
     (case v of
        JStr s \<Rightarrow>
          (case dropWhile (\<lambda>c. c \<noteq> CHR '':'') s of
             [] \<Rightarrow> Inl IndexError
           | _ # r \<Rightarrow> Inr (JStr (takeWhile (\<lambda>c. c \<noteq> CHR '':'') r)))
      | _ \<Rightarrow> Inl AttributeError)"

subsection \<open>Writing to a connection\<close>

datatype flush_end = FDone | FBlocked | FFailed

function flush :: "(nat \<Rightarrow> send_result) \<Rightarrow> string list \<Rightarrow> string \<Rightarrow> nat \<Rightarrow> string list \<times> string \<times> nat \<times> flush_end" where
  "flush snd_at [] sent n = ([], sent, n, FDone)"
| "flush snd_at (msg # ms) sent n =
     (case snd_at n of
        WouldBlock \<Rightarrow> (msg # ms, sent, Suc n, FBlocked)
      | SendError \<Rightarrow> (msg # ms, sent, Suc n, FFailed)
      | Sent k \<Rightarrow>
          if length msg \<le> Suc k then flush snd_at ms (sent @ msg) (Suc n)
          else flush snd_at (drop (Suc k) msg # ms) (sent @ take (Suc k) msg) (Suc n))"
  by pat_completeness auto
termination by (relation "measure (\<lambda>(_, ms, _, _). sum_list (map length ms) + length ms)") auto

text \<open>\<^verbatim>\<open>TCPHandler.close\<close>; \<open>onclose\<close> is \<^verbatim>\<open>TrackerServerHandler.close\<close>.\<close>

type_synonym tracker_op = "tracker \<Rightarrow> (tracker, unit) outcome"

definition conn_close :: "(conn_id \<Rightarrow> tracker_op) \<Rightarrow> conn_id \<Rightarrow> tracker_op" where
  "conn_close onclose c t =
     (if cn_open (tr_conn t c) then onclose c (set_conn c (\<lambda>s. s\<lparr>cn_open := False\<rparr>) t) else (Inr (), t))"

definition signal_close :: "(conn_id \<Rightarrow> tracker_op) \<Rightarrow> conn_id \<Rightarrow> tracker_op" where
  "signal_close onclose c t =
     (if cn_pending_write (tr_conn t c) = [] then conn_close onclose c t
      else (Inr (), set_conn c (\<lambda>s. s\<lparr>cn_signal_close := True\<rparr>) t))"

definition update_write :: "net_env \<Rightarrow> (conn_id \<Rightarrow> tracker_op) \<Rightarrow> conn_id \<Rightarrow> tracker_op" where
  "update_write env onclose c t =
     (let s = tr_conn t c
      in if cn_open s then
           (case flush (ne_send env c) (cn_pending_write s) (cn_sent s) (cn_nsend s) of
              (ms, sent, n, e) \<Rightarrow>
                let t1 = set_conn c (\<lambda>s. s\<lparr>cn_pending_write := ms, cn_sent := sent, cn_nsend := n\<rparr>) t
                in case e of
                     FBlocked \<Rightarrow> (Inr (), t1)
                   | FFailed \<Rightarrow> conn_close onclose c t1
                   | FDone \<Rightarrow> if cn_signal_close s then conn_close onclose c t1 else (Inr (), t1))
         else if cn_pending_write s \<noteq> [] \<or> cn_signal_close s then (Inr (), t)
         else (Inl AttributeError, t))"

definition write_message :: "net_env \<Rightarrow> (conn_id \<Rightarrow> tracker_op) \<Rightarrow> conn_id \<Rightarrow> string \<Rightarrow> tracker_op" where
  "write_message env onclose c msg t =
     (if cn_open (tr_conn t c)
      then update_write env onclose c (set_conn c (\<lambda>s. s\<lparr>cn_pending_write := cn_pending_write s @ [msg]\<rparr>) t)
      else (Inl OSError, t))"

definition ret_value :: "net_env \<Rightarrow> (conn_id \<Rightarrow> tracker_op) \<Rightarrow> conn_id \<Rightarrow> json \<Rightarrow> tracker_op" where
  "ret_value env onclose c v t =
     (case pack_i (int (length (dumps v))) of
        Inl e \<Rightarrow> (Inl e, t)
      | Inr hdr \<Rightarrow> bindO (write_message env onclose c hdr t) (\<lambda>_. write_message env onclose c (dumps v)))"

text \<open>The callback of a request: the resource is consumed unless the connection is gone.\<close>

definition request_cb :: "net_env \<Rightarrow> (conn_id \<Rightarrow> tracker_op) \<Rightarrow> conn_id \<Rightarrow> json list \<Rightarrow> tracker \<Rightarrow> (tracker, bool) outcome" where
  "request_cb env onclose c value t =
     (if cn_open (tr_conn t c) then
        (case ret_value env onclose c (JArr [JNum (code_num TC_SUCCESS), JArr value]) t of
           (Inr _, t1) \<Rightarrow> (Inr True, t1)
         | (Inl e, t1) \<Rightarrow> if e = OSError then (Inr False, t1) else (Inl e, t1))
      else (Inr False, t))"

subsection \<open>Scheduling\<close>

definition value_tail :: "resource \<Rightarrow> json list" where
  "value_tail v = (case v of (c, host, port, matchkey) \<Rightarrow> [host, port, matchkey])"

text \<open>\<^verbatim>\<open>value[0].pending_matchkeys.remove(value[-1])\<close>.\<close>

definition consume :: "resource \<Rightarrow> tracker_op" where
  "consume v t =
     (case v of (c, host, port, matchkey) \<Rightarrow>
        if hash_key matchkey \<in> hash_key ` set (cn_matchkeys (tr_conn t c))
        then (Inr (), set_conn c (\<lambda>s. s\<lparr>cn_matchkeys := filter (\<lambda>m. hash_key m \<noteq> hash_key matchkey) (cn_matchkeys s)\<rparr>) t)
        else (Inl KeyError, t))"

text \<open>After the callback: the match key is used up, or the resource goes back to the end of the queue.\<close>

definition settle :: "hkey \<Rightarrow> resource \<Rightarrow> bool \<Rightarrow> tracker_op" where
  "settle k v consumed t =
     (if consumed then consume v t
      else case map_of (tr_scheds t) k of
             None \<Rightarrow> (Inl KeyError, t)
           | Some s \<Rightarrow> (Inr (), set_sched k (s\<lparr>sc_values := sc_values s @ [v]\<rparr>) t))"

definition sched_remove :: "(hkey \<Rightarrow> tracker_op) \<Rightarrow> hkey \<Rightarrow> resource \<Rightarrow> tracker_op" where
  "sched_remove reschedule k v t =
     (case map_of (tr_scheds t) k of
        None \<Rightarrow> (Inl KeyError, t)
      | Some s \<Rightarrow>
          if v \<in> set (sc_values s) then reschedule k (set_sched k (s\<lparr>sc_values := remove1 v (sc_values s)\<rparr>) t)
          else (Inr (), t))"

definition tracker_close :: "(hkey \<Rightarrow> tracker_op) \<Rightarrow> conn_id \<Rightarrow> tracker_op" where
  "tracker_close reschedule c t =
     (if c \<in> set (tr_active t) then
        let t1 = t\<lparr>tr_active := removeAll c (tr_active t)\<rparr>
        in case map_of (cn_info (tr_conn t1 c)) (JStr ''key'') of
             None \<Rightarrow> (Inr (), t1)
           | Some kv \<Rightarrow>
               (case bindE (second_field kv) hash_key of
                  Inl e \<Rightarrow> (Inl e, t1)
                | Inr k \<Rightarrow> foldO (sched_remove reschedule k) (cn_put_values (tr_conn t1 c)) t1)
      else (Inl KeyError, t))"

text \<open>
  \<^verbatim>\<open>_schedule\<close>.  Each round, also a nested one, takes a request out of a heap, so the number of waiting
  requests bounds the rounds; the first equation is never reached with the fuel of \<open>schedule\<close> below.
\<close>

primrec sched_loop :: "nat \<Rightarrow> net_env \<Rightarrow> hkey \<Rightarrow> tracker_op" where
  "sched_loop 0 = (\<lambda>env k t. (Inl RuntimeError, t))"
| "sched_loop (Suc n) = (\<lambda>env k t.
     case map_of (tr_scheds t) k of
       None \<Rightarrow> (Inl KeyError, t)
     | Some s \<Rightarrow>
         (case (sc_requests s, sc_values s) of
            ((prio, cnt, c) # reqs, v # vals) \<Rightarrow>
              bindO (request_cb env (tracker_close (sched_loop n env)) c (value_tail v)
                       (set_sched k (s\<lparr>sc_requests := reqs, sc_values := vals\<rparr>) t))
                (\<lambda>consumed t1. bindO (settle k v consumed t1) (\<lambda>_. sched_loop n env k))
          | _ \<Rightarrow> (Inr (), t)))"

definition waiting :: "tracker \<Rightarrow> nat" where
  "waiting t = sum_list (map (\<lambda>(k, s). length (sc_requests s)) (tr_scheds t))"

definition schedule :: "net_env \<Rightarrow> hkey \<Rightarrow> tracker_op" where
  "schedule env k t = sched_loop (Suc (waiting t)) env k t"

definition on_close :: "net_env \<Rightarrow> conn_id \<Rightarrow> tracker_op" where
  "on_close env = tracker_close (schedule env)"

text \<open>\<^verbatim>\<open>create_scheduler\<close> when the key is new.\<close>

definition ensure_sched :: "json \<Rightarrow> hkey \<Rightarrow> tracker \<Rightarrow> tracker" where
  "ensure_sched key k t = (if k \<in> fst ` set (tr_scheds t) then t else set_sched k (mk_sched key) t)"

definition tracker_put :: "net_env \<Rightarrow> json \<Rightarrow> resource \<Rightarrow> tracker_op" where
  "tracker_put env key v t =
     (case hash_key key of
        Inl e \<Rightarrow> (Inl e, t)
      | Inr k \<Rightarrow>
          let t1 = ensure_sched key k t; s = the (map_of (tr_scheds t1) k)
          in schedule env k (set_sched k (s\<lparr>sc_values := sc_values s @ [v]\<rparr>) t1))"

definition tracker_request :: "net_env \<Rightarrow> json \<Rightarrow> json \<Rightarrow> conn_id \<Rightarrow> tracker_op" where
  "tracker_request env key priority c t =
     (case hash_key key of
        Inl e \<Rightarrow> (Inl e, t)
      | Inr k \<Rightarrow>
          let t1 = ensure_sched key k t; s = the (map_of (tr_scheds t1) k)
          in case json_num priority of
               None \<Rightarrow> (Inl TypeError, t1)
             | Some p \<Rightarrow>
                 schedule env k (set_sched k (s\<lparr>sc_requests := insort (- p, sc_cnt s, c) (sc_requests s),
                                                sc_cnt := Suc (sc_cnt s)\<rparr>) t1))"

subsection \<open>The server handler\<close>

definition tracker_accept :: "json list \<Rightarrow> tracker \<Rightarrow> tracker" where
  "tracker_accept addr t =
     (if tr_listening t
      then t\<lparr>tr_conn := (tr_conn t)(tr_next t := mk_conn addr), tr_active := tr_active t @ [tr_next t], tr_next := Suc (tr_next t)\<rparr>
      else t)"

definition tracker_stop :: "net_env \<Rightarrow> tracker_op" where
  "tracker_stop env t =
     bindO (foldO (conn_close (on_close env)) (ne_conn_order env (tr_active t)) t)
       (\<lambda>_ t1. (Inr (), t1\<lparr>tr_listening := False\<rparr>))"

text \<open>The text of a dictionary key in \<^verbatim>\<open>json.dumps\<close>.\<close>

fun key_text :: "json \<Rightarrow> string" where
  "key_text (JStr s) = s"
| "key_text v = dumps v"

definition sched_summary :: "sched \<Rightarrow> json" where
  "sched_summary s = JObj [(''free'', JNum (int (length (sc_values s)))), (''pending'', JNum (int (length (sc_requests s))))]"

definition info_json :: "(json \<times> json) list \<Rightarrow> json" where
  "info_json info = JObj (map (\<lambda>(k, v). (key_text k, v)) info)"

text \<open>Only connections whose key starts with \<^verbatim>\<open>server\<close> are listed.\<close>

fun server_infos :: "(json \<times> json) list list \<Rightarrow> json list res" where
  "server_infos [] = Inr []"
| "server_infos (info # infos) =
     (case map_of info (JStr ''key'') of
        None \<Rightarrow> server_infos infos
      | Some (JStr s) \<Rightarrow>
          bindE (server_infos infos) (\<lambda>js. Inr (if take 6 s = ''server'' then info_json info # js else js))
      | Some _ \<Rightarrow> Inl AttributeError)"

definition tracker_summary :: "net_env \<Rightarrow> tracker \<Rightarrow> json res" where
  "tracker_summary env t =
     bindE (server_infos (map (\<lambda>c. cn_info (tr_conn t c)) (ne_conn_order env (tr_active t)))) (\<lambda>cinfo.
       Inr (JObj [(''queue_info'', JObj (map (\<lambda>(k, s). (key_text (sc_key s), sched_summary s)) (tr_scheds t))),
                  (''server_info'', JArr cinfo)]))"

subsection \<open>The connection handler\<close>

definition reply :: "net_env \<Rightarrow> conn_id \<Rightarrow> json \<Rightarrow> tracker_op" where
  "reply env = ret_value env (on_close env)"

definition code_json :: "tracker_code \<Rightarrow> json" where
  "code_json code = JNum (code_num code)"

definition add_matchkey :: "json \<Rightarrow> json list \<Rightarrow> json list" where
  "add_matchkey m ms = (if hash_key m \<in> hash_key ` set ms then ms else ms @ [m])"

definition handle_put :: "net_env \<Rightarrow> conn_id \<Rightarrow> json list \<Rightarrow> tracker_op" where
  "handle_put env c args t =
     (case bindE (py_get args 1) (\<lambda>key. bindE (py_get args 2) (\<lambda>pm. bindE (unpack2 pm) (\<lambda>(port, matchkey).
             bindE (hash_key matchkey) (\<lambda>_. Inr (key, port, matchkey))))) of
        Inl e \<Rightarrow> (Inl e, t)
      | Inr (key, port, matchkey) \<Rightarrow>
          let t1 = set_conn c (\<lambda>s. s\<lparr>cn_matchkeys := add_matchkey matchkey (cn_matchkeys s)\<rparr>) t
          in case (if length args \<ge> 4 \<and> args ! 3 \<noteq> JNull then Inr (args ! 3) else py_get (cn_addr (tr_conn t c)) 0) of
               Inl e \<Rightarrow> (Inl e, t1)
             | Inr host \<Rightarrow>
                 let value = (c, host, port, matchkey)
                 in bindO (tracker_put env key value t1) (\<lambda>_ t2.
                      reply env c (code_json TC_SUCCESS)
                        (set_conn c (\<lambda>s. s\<lparr>cn_put_values := cn_put_values s @ [value]\<rparr>) t2)))"

definition handle_request :: "net_env \<Rightarrow> conn_id \<Rightarrow> json list \<Rightarrow> tracker_op" where
  "handle_request env c args t =
     (case bindE (py_get args 1) (\<lambda>key. bindE (py_get args 2) (\<lambda>user. bindE (py_get args 3) (\<lambda>priority. Inr (key, priority)))) of
        Inl e \<Rightarrow> (Inl e, t)
      | Inr (key, priority) \<Rightarrow> tracker_request env key priority c t)"

definition handle_stop :: "net_env \<Rightarrow> conn_id \<Rightarrow> json list \<Rightarrow> tracker_op" where
  "handle_stop env c args t =
     (case py_get args 1 of
        Inl e \<Rightarrow> (Inl e, t)
      | Inr key \<Rightarrow>
          if key = JStr (tr_stop_key t) then bindO (reply env c (code_json TC_SUCCESS) t) (\<lambda>_. tracker_stop env)
          else reply env c (code_json TC_FAIL) t)"

definition handle_update_info :: "net_env \<Rightarrow> conn_id \<Rightarrow> json list \<Rightarrow> tracker_op" where
  "handle_update_info env c args t =
     (case py_get args 1 of
        Inl e \<Rightarrow> (Inl e, t)
      | Inr arg \<Rightarrow>
          (case info_update arg (cn_info (tr_conn t c)) of
             (r, info) \<Rightarrow>
               bindO (r, set_conn c (\<lambda>s. s\<lparr>cn_info := info\<rparr>) t) (\<lambda>_. reply env c (code_json TC_SUCCESS))))"

text \<open>A string or an object has no numeric first element, so the known codes all come in a list.\<close>

definition call_handler :: "net_env \<Rightarrow> conn_id \<Rightarrow> json \<Rightarrow> tracker_op" where
  "call_handler env c msg t =
     (case msg of
        JArr args \<Rightarrow>
          (case args of
             [] \<Rightarrow> (Inl IndexError, t)
           | code # _ \<Rightarrow>
               let is_code = (\<lambda>tc. json_num code = Some (of_int (code_num tc)))
               in if is_code TC_PUT then handle_put env c args t
                  else if is_code TC_REQUEST then handle_request env c args t
                  else if is_code TC_PING then reply env c (code_json TC_SUCCESS) t
                  else if is_code TC_GET_PENDING_MATCHKEYS
                    then reply env c (JArr (ne_key_order env (cn_matchkeys (tr_conn t c)))) t
                  else if is_code TC_STOP then handle_stop env c args t
                  else if is_code TC_UPDATE_INFO then handle_update_info env c args t
                  else if is_code TC_SUMMARY then
                    (case tracker_summary env t of
                       Inl e \<Rightarrow> (Inl e, t)
                     | Inr status \<Rightarrow> reply env c (JArr [code_json TC_SUCCESS, status]) t)
                  else conn_close (on_close env) c t)
      | JStr s \<Rightarrow> if s = [] then (Inl IndexError, t) else conn_close (on_close env) c t
      | JObj kvs \<Rightarrow> (Inl KeyError, t)
      | _ \<Rightarrow> (Inl TypeError, t))"

definition init_conn :: "net_env \<Rightarrow> conn_id \<Rightarrow> string \<Rightarrow> tracker_op" where
  "init_conn env c msg t =
     bindO (if length msg \<noteq> 4 then conn_close (on_close env) c t else (Inr (), t)) (\<lambda>_ t1.
       case unpack_i msg of
         Inl e \<Rightarrow> (Inl e, t1)
       | Inr magic \<Rightarrow>
           bindO (if magic \<noteq> rpc_tracker_magic then conn_close (on_close env) c t1 else (Inr (), t1)) (\<lambda>_ t2.
             case pack_i rpc_tracker_magic of
               Inl e \<Rightarrow> (Inl e, t2)
             | Inr b \<Rightarrow>
                 bindO (write_message env (on_close env) c b t2) (\<lambda>_ t3.
                   (Inr (), set_conn c (\<lambda>s. s\<lparr>cn_init_req := 0\<rparr>) t3))))"

text \<open>The end of the slice \<^verbatim>\<open>data[:k]\<close>.\<close>

definition slice_end :: "int \<Rightarrow> nat \<Rightarrow> nat" where
  "slice_end k len = (if k < 0 then nat (int len + k) else min (nat k) len)"

text \<open>The \<^verbatim>\<open>while\<close> loop of \<^verbatim>\<open>on_message\<close>: a round that goes on has removed at least five bytes of the buffer,
  whose length bounds the rounds.\<close>

primrec msg_loop :: "nat \<Rightarrow> net_env \<Rightarrow> conn_id \<Rightarrow> tracker_op" where
  "msg_loop 0 = (\<lambda>env c t. (Inr (), t))"
| "msg_loop (Suc n) = (\<lambda>env c t.
     let s = tr_conn t c; data = cn_data s
     in if cn_msg_size s = 0 \<and> length data < 4 then (Inr (), t)
        else case (if cn_msg_size s = 0 then unpack_i (take 4 data) else Inr (cn_msg_size s)) of
          Inl e \<Rightarrow> (Inl e, t)
        | Inr sz \<Rightarrow>
            let t1 = set_conn c (\<lambda>s. s\<lparr>cn_msg_size := sz\<rparr>) t
            in if sz \<noteq> 0 \<and> int (length data) \<ge> sz + 4 then
                 let stop = slice_end (4 + sz) (length data)
                 in case py_str (take (stop - 4) (drop 4 data)) of
                      Inl e \<Rightarrow> (Inl e, t1)
                    | Inr msg \<Rightarrow>
                        let t2 = set_conn c (\<lambda>s. s\<lparr>cn_data := drop stop data, cn_msg_size := 0\<rparr>) t1
                        in case loads msg of
                             Inl e \<Rightarrow> (Inl e, t2)
                           | Inr v \<Rightarrow> bindO (call_handler env c v t2) (\<lambda>_. msg_loop n env c)
               else (Inr (), t1))"

definition on_message :: "net_env \<Rightarrow> conn_id \<Rightarrow> string \<Rightarrow> tracker_op" where
  "on_message env c msg t =
     (if cn_init_req (tr_conn t c) \<noteq> 0 then init_conn env c msg t
      else
        let t1 = set_conn c (\<lambda>s. s\<lparr>cn_data := cn_data s @ msg\<rparr>) t
        in msg_loop (Suc (length (cn_data (tr_conn t1 c)))) env c t1)"

subsection \<open>The event loop\<close>

datatype recv_result = Received string | RecvBlocked | RecvError

text \<open>\<^verbatim>\<open>_update_read\<close>; an \<^verbatim>\<open>OSError\<close> of the handler closes the connection.\<close>

definition update_read :: "net_env \<Rightarrow> conn_id \<Rightarrow> recv_result \<Rightarrow> tracker \<Rightarrow> (tracker, bool) outcome" where
  "update_read env c r t =
     (let close = (\<lambda>t. bindO (conn_close (on_close env) c t) (\<lambda>_ t1. (Inr False, t1)))
      in case r of
           Received msg \<Rightarrow>
             if msg = [] then close t
             else (case on_message env c msg t of
                     (Inr _, t1) \<Rightarrow> (Inr True, t1)
                   | (Inl e, t1) \<Rightarrow> if e = OSError then close t1 else (Inl e, t1))
         | RecvBlocked \<Rightarrow> (Inr False, t)
         | RecvError \<Rightarrow> close t)"

datatype tracker_event = Accept "json list" | Readable conn_id recv_result bool | Writable conn_id

text \<open>\<^verbatim>\<open>_event_handler\<close>, registered as long as the socket is open; the flag of a read event says that the
  socket is writable as well.  An exception that leaves the handler is logged by the loop.\<close>

definition tracker_step :: "net_env \<Rightarrow> tracker_event \<Rightarrow> tracker_op" where
  "tracker_step env ev t =
     (case ev of
        Accept addr \<Rightarrow> (Inr (), tracker_accept addr t)
      | Readable c r w \<Rightarrow>
          if cn_open (tr_conn t c) then
            bindO (update_read env c r t) (\<lambda>ok t1.
              if ok \<and> w then update_write env (on_close env) c t1 else (Inr (), t1))
          else (Inr (), t)
      | Writable c \<Rightarrow>
          if cn_open (tr_conn t c) then update_write env (on_close env) c t else (Inr (), t))"

inductive tracker_reach :: "net_env \<Rightarrow> string \<Rightarrow> tracker \<Rightarrow> bool" for env stop_key where
  start: "tracker_reach env stop_key (mk_tracker stop_key)"
| step: "tracker_reach env stop_key t \<Longrightarrow> tracker_step env ev t = (r, t') \<Longrightarrow> tracker_reach env stop_key t'"

subsection \<open>Starting the tracker\<close>

datatype bind_result = Bound | AddrInUse | BindError

fun bind_port :: "(int \<Rightarrow> bind_result) \<Rightarrow> int list \<Rightarrow> int res" where
  "bind_port bind [] = Inl ValueError"
| "bind_port bind (p # ps) =
     (case bind p of
        Bound \<Rightarrow> if p = 0 then Inl ValueError else Inr p
      | AddrInUse \<Rightarrow> bind_port bind ps
      | BindError \<Rightarrow> Inl OSError)"

definition tracker_port :: "(int \<Rightarrow> bind_result) \<Rightarrow> int \<Rightarrow> int \<Rightarrow> int res" where
  "tracker_port bind port port_end = bind_port bind (py_range port port_end 1)"

end
