(* ===== verification/RPC_Tracker_Inv.thy ===== *)
theory RPC_Tracker_Inv
  imports RPC_Tracker
begin

section \<open>Invariants of the tracker\<close>

text \<open>
  What every operation of the tracker keeps, whether it returns or raises.  The operations are written
  around the function that reschedules, so a fact about them is shown once for any such function and
  then for the scheduling loop by induction on its fuel.
\<close>

named_theorems tracker_simps \<open>reading a state after an update\<close>

lemma set_conn_fields [simp, tracker_simps]:
  "tr_conn (set_conn c f t) = (tr_conn t)(c := f (tr_conn t c))" "tr_next (set_conn c f t) = tr_next t"
  "tr_active (set_conn c f t) = tr_active t" "tr_scheds (set_conn c f t) = tr_scheds t"
  "tr_stop_key (set_conn c f t) = tr_stop_key t" "tr_listening (set_conn c f t) = tr_listening t"
  by (simp_all add: set_conn_def)

lemma set_sched_fields [simp, tracker_simps]:
  "tr_conn (set_sched k s t) = tr_conn t" "tr_next (set_sched k s t) = tr_next t"
  "tr_active (set_sched k s t) = tr_active t" "tr_scheds (set_sched k s t) = AList.update k s (tr_scheds t)"
  "tr_stop_key (set_sched k s t) = tr_stop_key t" "tr_listening (set_sched k s t) = tr_listening t"
  by (simp_all add: set_sched_def)

definition keeps :: "(tracker \<Rightarrow> bool) \<Rightarrow> (tracker \<Rightarrow> (tracker, 'a) outcome) \<Rightarrow> bool" where
  "keeps P f \<longleftrightarrow> (\<forall>t. P t \<longrightarrow> P (snd (f t)))"

lemma keepsD: "keeps P f \<Longrightarrow> P t \<Longrightarrow> f t = (r, t') \<Longrightarrow> P t'"
  unfolding keeps_def by (metis snd_conv)

lemma keeps_bindO:
  assumes "P (snd m)" and "\<And>x t. fst m = Inr x \<Longrightarrow> P t \<Longrightarrow> P (snd (f x t))"
  shows "P (snd (bindO m f))"
  using assms by (cases m; cases "fst m") auto

lemma keeps_foldO: "(\<And>x. x \<in> set xs \<Longrightarrow> keeps P (f x)) \<Longrightarrow> keeps P (foldO f xs)"
proof (induction xs)
  case (Cons x xs)
  then have "keeps P (f x)" "keeps P (foldO f xs)" by auto
  then show ?case unfolding keeps_def by (auto intro: keeps_bindO)
qed (simp add: keeps_def)

subsection \<open>Predicates that the operations keep\<close>

text \<open>Closing a connection: it is no longer open and no longer listed.\<close>

definition closed_conn :: "conn_id \<Rightarrow> tracker \<Rightarrow> tracker" where
  "closed_conn c t = (set_conn c (\<lambda>s. s\<lparr>cn_open := False\<rparr>) t)\<lparr>tr_active := removeAll c (tr_active t)\<rparr>"

locale tracker_invariant =
  fixes P :: "tracker \<Rightarrow> bool"
  assumes inv_listed: "P t \<Longrightarrow> cn_open (tr_conn t c) \<Longrightarrow> c \<in> set (tr_active t)"
    and inv_write: "P t \<Longrightarrow> P (set_conn c (\<lambda>s. s\<lparr>cn_pending_write := ms, cn_sent := b, cn_nsend := n\<rparr>) t)"
    and inv_queue: "P t \<Longrightarrow> P (set_conn c (\<lambda>s. s\<lparr>cn_pending_write := h s\<rparr>) t)"
    and inv_close: "P t \<Longrightarrow> cn_open (tr_conn t c) \<Longrightarrow> P (closed_conn c t)"
    and inv_values: "P t \<Longrightarrow> map_of (tr_scheds t) k = Some s \<Longrightarrow> P (set_sched k (s\<lparr>sc_values := vs\<rparr>) t)"
    and inv_pop: "P t \<Longrightarrow> map_of (tr_scheds t) k = Some s \<Longrightarrow> sc_requests s = r # rs \<Longrightarrow> P (set_sched k (s\<lparr>sc_requests := rs\<rparr>) t)"
    and inv_matchkeys: "P t \<Longrightarrow> P (set_conn c (\<lambda>s. s\<lparr>cn_matchkeys := g s\<rparr>) t)"
begin

lemmas bindO_P = keeps_bindO [where P = P]

lemma keeps_sched_remove: "keeps P (rs k) \<Longrightarrow> keeps P (sched_remove rs k v)"
  unfolding keeps_def sched_remove_def by (auto intro: inv_values split: option.splits)

lemma conn_close_cases:
  assumes "P t"
  shows "conn_close (tracker_close rs) c t =
    (if cn_open (tr_conn t c) then
       (case map_of (cn_info (tr_conn t c)) (JStr ''key'') of
          None \<Rightarrow> (Inr (), closed_conn c t)
        | Some kv \<Rightarrow> (case bindE (second_field kv) hash_key of
              Inl e \<Rightarrow> (Inl e, closed_conn c t)
            | Inr k \<Rightarrow> foldO (sched_remove rs k) (cn_put_values (tr_conn t c)) (closed_conn c t)))
     else (Inr (), t))"
  using inv_listed [OF assms, of c]
  by (auto simp: conn_close_def tracker_close_def closed_conn_def Let_def split: option.split sum.split)

lemma keeps_conn_close:
  assumes "\<forall>k. keeps P (rs k)"
  shows "keeps P (conn_close (tracker_close rs) c)"
  unfolding keeps_def
proof (intro allI impI)
  fix t
  assume t: "P t"
  have "P (snd (foldO (sched_remove rs k) vs (closed_conn c t)))" if "cn_open (tr_conn t c)" for k vs
    using keeps_foldO [of vs P "sched_remove rs k"] keeps_sched_remove [of rs k] assms inv_close [OF t that]
    by (simp add: keeps_def)
  then show "P (snd (conn_close (tracker_close rs) c t))"
    using t inv_close [OF t, of c] by (auto simp: conn_close_cases [OF t] split: option.splits sum.splits)
qed

lemma keeps_update_write:
  assumes "\<forall>k. keeps P (rs k)"
  shows "keeps P (update_write env (tracker_close rs) c)"
  unfolding keeps_def
proof (intro allI impI)
  fix t
  assume t: "P t"
  have "P (snd (conn_close (tracker_close rs) c (set_conn c (\<lambda>s. s\<lparr>cn_pending_write := ms, cn_sent := b, cn_nsend := n\<rparr>) t)))"
    for ms b n using keeps_conn_close [OF assms] inv_write [OF t] by (simp add: keeps_def)
  then show "P (snd (update_write env (tracker_close rs) c t))"
    using t inv_write [OF t] by (auto simp: update_write_def Let_def split: prod.splits flush_end.splits)
qed

lemma keeps_write_message:
  assumes "\<forall>k. keeps P (rs k)"
  shows "keeps P (write_message env (tracker_close rs) c msg)"
  using keeps_update_write [OF assms, of env c] inv_queue [of _ c "\<lambda>s. cn_pending_write s @ [msg]"]
  unfolding keeps_def write_message_def by simp

lemma keeps_ret_value:
  assumes "\<forall>k. keeps P (rs k)"
  shows "keeps P (ret_value env (tracker_close rs) c v)"
  unfolding keeps_def
proof (intro allI impI)
  fix t
  assume t: "P t"
  have w: "P (snd (write_message env (tracker_close rs) c msg t))" if "P t" for msg t
    using keeps_write_message [OF assms] that by (simp add: keeps_def)
  show "P (snd (ret_value env (tracker_close rs) c v t))"
  proof (cases "pack_i (int (length (dumps v)))")
    case (Inr hdr)
    have "P (snd (bindO (write_message env (tracker_close rs) c hdr t) (\<lambda>_. write_message env (tracker_close rs) c (dumps v))))"
      by (rule bindO_P) (use w t in auto)
    with Inr show ?thesis by (simp add: ret_value_def)
  qed (use t in \<open>simp add: ret_value_def\<close>)
qed

lemma keeps_request_cb:
  assumes "\<forall>k. keeps P (rs k)"
  shows "keeps P (request_cb env (tracker_close rs) c w)"
  unfolding keeps_def request_cb_def
  by (auto split: prod.splits sum.splits intro: keepsD [OF keeps_ret_value [OF assms]])

lemma keeps_consume: "keeps P (consume v)"
  unfolding keeps_def consume_def by (auto split: prod.splits intro: inv_matchkeys)

lemma inv_take:
  assumes "P t" and "map_of (tr_scheds t) k = Some s" and "sc_requests s = r # rs"
  shows "P (set_sched k (s\<lparr>sc_requests := rs, sc_values := vs\<rparr>) t)"
proof -
  let ?t = "set_sched k (s\<lparr>sc_requests := rs\<rparr>) t"
  have "P ?t" using assms by (rule inv_pop)
  then have "P (set_sched k ((s\<lparr>sc_requests := rs\<rparr>)\<lparr>sc_values := vs\<rparr>) ?t)"
    by (rule inv_values) (simp add: update_conv)
  moreover have "AList.update k y (AList.update k x m) = AList.update k y m" for x y and m :: "(hkey, sched) dict"
    by (induction m) auto
  ultimately show ?thesis by (simp add: set_sched_def)
qed

lemma keeps_settle: "keeps P (settle k v consumed)"
  using keeps_consume [of v] unfolding keeps_def settle_def by (auto intro: inv_values split: option.splits)

lemma keeps_sched_loop: "keeps P (sched_loop n env k)"
proof (induction n arbitrary: k)
  case 0
  then show ?case by (simp add: keeps_def)
next
  case (Suc n)
  have cb: "keeps P (request_cb env (tracker_close (sched_loop n env)) c w)" for c w
    by (rule keeps_request_cb) (blast intro: Suc.IH)
  have rest: "P (snd (bindO (settle k v consumed t) (\<lambda>_. sched_loop n env k)))" if "P t" for v consumed t
    using keeps_settle [of k v consumed] Suc.IH [of k] that
    by (intro bindO_P [where f = "\<lambda>_. sched_loop n env k"]) (simp_all add: keeps_def)
  show ?case
    unfolding keeps_def
  proof (intro allI impI)
    fix t
    assume t: "P t"
    show "P (snd (sched_loop (Suc n) env k t))"
    proof (cases "map_of (tr_scheds t) k")
      case (Some s)
      show ?thesis
      proof (cases "sc_requests s = [] \<or> sc_values s = []")
        case False
        then obtain p q c reqs v vals where rv: "sc_requests s = (p, q, c) # reqs" "sc_values s = v # vals"
          by (cases "sc_requests s"; cases "sc_values s") auto
        have "P (snd (request_cb env (tracker_close (sched_loop n env)) c (value_tail v)
                 (set_sched k (s\<lparr>sc_requests := reqs, sc_values := vals\<rparr>) t)))"
          using cb inv_take [OF t Some rv(1)] by (simp add: keeps_def)
        then have "P (snd (bindO (request_cb env (tracker_close (sched_loop n env)) c (value_tail v)
                 (set_sched k (s\<lparr>sc_requests := reqs, sc_values := vals\<rparr>) t))
              (\<lambda>consumed t1. bindO (settle k v consumed t1) (\<lambda>_. sched_loop n env k))))"
          by (rule bindO_P) (rule rest)
        with rv Some show ?thesis by simp
      qed (use t Some in \<open>auto split: list.splits\<close>)
    qed (use t in simp)
  qed
qed

lemma keeps_schedule: "keeps P (schedule env k)"
  using keeps_sched_loop unfolding keeps_def schedule_def by blast

lemma schedule_all: "\<forall>k. keeps P (schedule env k)"
  using keeps_schedule by blast

lemmas keeps_scheduling = keeps_schedule keeps_conn_close [OF schedule_all] keeps_update_write [OF schedule_all]
  keeps_write_message [OF schedule_all] keeps_ret_value [OF schedule_all]

end

text \<open>The handlers also change the other fields of a connection, create schedulers and add requests.\<close>

locale tracker_handler_invariant = tracker_invariant +
  assumes inv_conn: "P t \<Longrightarrow> (\<And>s. cn_open (f s) = cn_open s) \<Longrightarrow> P (set_conn c f t)"
    and inv_new: "P t \<Longrightarrow> k \<notin> fst ` set (tr_scheds t) \<Longrightarrow> P (set_sched k (mk_sched key) t)"
    and inv_push: "P t \<Longrightarrow> map_of (tr_scheds t) k = Some s \<Longrightarrow>
        P (set_sched k (s\<lparr>sc_requests := insort (p, sc_cnt s, c) (sc_requests s), sc_cnt := Suc (sc_cnt s)\<rparr>) t)"
    and inv_accept: "P t \<Longrightarrow> P (tracker_accept addr t)"
    and inv_listening: "P t \<Longrightarrow> P (t\<lparr>tr_listening := False\<rparr>)"
begin

lemma keeps_reply: "keeps P (reply env c v)"
  using keeps_scheduling(5) by (simp add: reply_def on_close_def)

lemma keeps_on_close: "keeps P (conn_close (on_close env) c)"
  using keeps_scheduling(2) by (simp add: on_close_def)

lemma ensure_sched_P:
  assumes "P t"
  shows "P (ensure_sched key k t) \<and> (\<exists>s. map_of (tr_scheds (ensure_sched key k t)) k = Some s)"
proof (cases "k \<in> fst ` set (tr_scheds t)")
  case True
  then obtain s where "map_of (tr_scheds t) k = Some s" by (metis map_of_eq_None_iff not_None_eq)
  with True assms show ?thesis by (simp add: ensure_sched_def)
next
  case False
  with assms show ?thesis by (simp add: ensure_sched_def inv_new update_conv)
qed

lemma keeps_tracker_put: "keeps P (tracker_put env key v)"
  unfolding keeps_def
proof (intro allI impI)
  fix t
  assume t: "P t"
  show "P (snd (tracker_put env key v t))"
  proof (cases "hash_key key")
    case (Inr k)
    obtain s where s: "P (ensure_sched key k t)" "map_of (tr_scheds (ensure_sched key k t)) k = Some s"
      using ensure_sched_P [OF t] by blast
    have "P (set_sched k (s\<lparr>sc_values := sc_values s @ [v]\<rparr>) (ensure_sched key k t))" using s by (rule inv_values)
    then show ?thesis using keeps_schedule Inr s(2) by (simp add: tracker_put_def keeps_def)
  qed (use t in \<open>simp add: tracker_put_def\<close>)
qed

lemma keeps_tracker_request: "keeps P (tracker_request env key priority c)"
  unfolding keeps_def
proof (intro allI impI)
  fix t
  assume t: "P t"
  show "P (snd (tracker_request env key priority c t))"
  proof (cases "hash_key key")
    case (Inr k)
    obtain s where s: "P (ensure_sched key k t)" "map_of (tr_scheds (ensure_sched key k t)) k = Some s"
      using ensure_sched_P [OF t] by blast
    then show ?thesis
      using keeps_schedule Inr s inv_push [OF s]
      by (auto simp: tracker_request_def keeps_def Let_def split: option.splits)
  qed (use t in \<open>simp add: tracker_request_def\<close>)
qed

lemma keeps_tracker_stop: "keeps P (tracker_stop env)"
  unfolding keeps_def
proof (intro allI impI)
  fix t
  assume "P t"
  then have "P (snd (foldO (conn_close (on_close env)) (ne_conn_order env (tr_active t)) t))"
    using keeps_foldO [of _ P "conn_close (on_close env)"] keeps_on_close by (simp add: keeps_def)
  then show "P (snd (tracker_stop env t))"
    unfolding tracker_stop_def by (rule bindO_P) (simp add: inv_listening)
qed

lemma keeps_handle_put: "keeps P (handle_put env c args)"
  unfolding keeps_def
proof (intro allI impI)
  fix t
  assume t: "P t"
  have m: "P (set_conn c (\<lambda>s. s\<lparr>cn_matchkeys := add_matchkey mk (cn_matchkeys s)\<rparr>) t)" for mk
    by (rule inv_conn [OF t]) simp
  have "P (snd (bindO (tracker_put env key v (set_conn c (\<lambda>s. s\<lparr>cn_matchkeys := add_matchkey mk (cn_matchkeys s)\<rparr>) t))
          (\<lambda>_ t2. reply env c (code_json TC_SUCCESS) (set_conn c (\<lambda>s. s\<lparr>cn_put_values := cn_put_values s @ [v]\<rparr>) t2))))" for key v mk
  proof (rule bindO_P)
    show "P (snd (tracker_put env key v (set_conn c (\<lambda>s. s\<lparr>cn_matchkeys := add_matchkey mk (cn_matchkeys s)\<rparr>) t)))"
      using keeps_tracker_put m by (simp add: keeps_def)
  next
    fix t2
    assume "P t2"
    then have "P (set_conn c (\<lambda>s. s\<lparr>cn_put_values := cn_put_values s @ [v]\<rparr>) t2)" by (rule inv_conn) simp
    then show "P (snd (reply env c (code_json TC_SUCCESS) (set_conn c (\<lambda>s. s\<lparr>cn_put_values := cn_put_values s @ [v]\<rparr>) t2)))"
      using keeps_reply by (simp add: keeps_def)
  qed
  then show "P (snd (handle_put env c args t))"
    using t m by (auto simp: handle_put_def Let_def split: sum.splits)
qed

lemma keeps_handlers:
  "keeps P (handle_request env c args)" "keeps P (handle_stop env c args)" "keeps P (handle_update_info env c args)"
proof -
  show "keeps P (handle_request env c args)"
    using keeps_tracker_request unfolding keeps_def handle_request_def by (auto split: sum.splits)
  have "P (snd (bindO (reply env c v t) (\<lambda>_. tracker_stop env)))" if "P t" for v t
    using keeps_reply keeps_tracker_stop that by (intro bindO_P [where f = "\<lambda>_. tracker_stop env"]) (simp_all add: keeps_def)
  then show "keeps P (handle_stop env c args)"
    using keeps_reply unfolding keeps_def handle_stop_def by (auto split: sum.splits)
  have "P (snd (bindO (r, set_conn c (\<lambda>s. s\<lparr>cn_info := info\<rparr>) t) (\<lambda>_. reply env c v)))" if "P t" for v t r info
  proof -
    have "P (set_conn c (\<lambda>s. s\<lparr>cn_info := info\<rparr>) t)" by (rule inv_conn [OF that]) simp
    then show ?thesis using keeps_reply by (cases r) (simp_all add: keeps_def)
  qed
  then show "keeps P (handle_update_info env c args)"
    unfolding keeps_def handle_update_info_def by (auto split: sum.splits prod.splits)
qed

lemma keeps_call_handler: "keeps P (call_handler env c msg)"
proof -
  have "P (snd (call_handler env c (JArr (code # args)) t))" if "P t" for code args t
    using that keeps_reply keeps_on_close keeps_handle_put keeps_handlers
    by (auto simp: call_handler_def keeps_def Let_def split: sum.splits)
  then show ?thesis
    using keeps_on_close unfolding keeps_def
    by (auto simp: call_handler_def split: json.splits list.splits)
qed

lemma keeps_init_conn: "keeps P (init_conn env c msg)"
  unfolding keeps_def
proof (intro allI impI)
  fix t
  assume t: "P t"
  have cl: "P (snd (if b then conn_close (on_close env) c t else (Inr (), t)))" if "P t" for b t
    using keeps_on_close that by (simp add: keeps_def)
  have wr: "P (snd (bindO (write_message env (on_close env) c b t) (\<lambda>_ t3. (Inr (), set_conn c (\<lambda>s. s\<lparr>cn_init_req := 0\<rparr>) t3))))"
    if "P t" for b t
  proof (rule bindO_P)
    show "P (snd (write_message env (on_close env) c b t))"
      using keeps_scheduling(4) that by (simp add: keeps_def on_close_def)
  next
    fix t3
    assume "P t3"
    then have "P (set_conn c (\<lambda>s. s\<lparr>cn_init_req := 0\<rparr>) t3)" by (rule inv_conn) simp
    then show "P (snd (Inr (), set_conn c (\<lambda>s. s\<lparr>cn_init_req := 0\<rparr>) t3))" by simp
  qed
  show "P (snd (init_conn env c msg t))"
    unfolding init_conn_def
  proof (rule bindO_P [OF cl [OF t]])
    fix t1
    assume t1: "P t1"
    have "P (snd (bindO (if magic \<noteq> rpc_tracker_magic then conn_close (on_close env) c t1 else (Inr (), t1)) (\<lambda>_ t2.
             case pack_i rpc_tracker_magic of
               Inl e \<Rightarrow> (Inl e, t2)
             | Inr b \<Rightarrow>
                 bindO (write_message env (on_close env) c b t2) (\<lambda>_ t3.
                   (Inr (), set_conn c (\<lambda>s. s\<lparr>cn_init_req := 0\<rparr>) t3)))))" for magic
      by (rule bindO_P [OF cl [OF t1]]) (use wr in \<open>auto split: sum.splits\<close>)
    then show "P (snd (case unpack_i msg of
         Inl e \<Rightarrow> (Inl e, t1)
       | Inr magic \<Rightarrow>
           bindO (if magic \<noteq> rpc_tracker_magic then conn_close (on_close env) c t1 else (Inr (), t1)) (\<lambda>_ t2.
             case pack_i rpc_tracker_magic of
               Inl e \<Rightarrow> (Inl e, t2)
             | Inr b \<Rightarrow>
                 bindO (write_message env (on_close env) c b t2) (\<lambda>_ t3.
                   (Inr (), set_conn c (\<lambda>s. s\<lparr>cn_init_req := 0\<rparr>) t3)))))"
      using t1 by (auto split: sum.splits)
  qed
qed

lemma keeps_msg_loop: "keeps P (msg_loop n env c)"
proof (induction n)
  case (Suc n)
  show ?case
    unfolding keeps_def
  proof (intro allI impI)
    fix t
    assume t: "P t"
    have f1: "P (set_conn c (\<lambda>s. s\<lparr>cn_msg_size := sz\<rparr>) t)" for sz by (rule inv_conn [OF t]) simp
    have f2: "P (set_conn c (\<lambda>s. s\<lparr>cn_data := d, cn_msg_size := 0\<rparr>) (set_conn c (\<lambda>s. s\<lparr>cn_msg_size := sz\<rparr>) t))" for sz d
      by (rule inv_conn [OF f1]) simp
    have "P (snd (bindO (call_handler env c v (set_conn c (\<lambda>s. s\<lparr>cn_data := d, cn_msg_size := 0\<rparr>) (set_conn c (\<lambda>s. s\<lparr>cn_msg_size := sz\<rparr>) t)))
          (\<lambda>_. msg_loop n env c)))" for v sz d
      using keeps_call_handler f2 Suc.IH by (intro bindO_P [where f = "\<lambda>_. msg_loop n env c"]) (simp_all add: keeps_def)
    then show "P (snd (msg_loop (Suc n) env c t))"
      using t f1 f2 by (auto simp: Let_def split: sum.splits)
  qed
qed (simp add: keeps_def)

lemma keeps_on_message: "keeps P (on_message env c msg)"
  unfolding keeps_def
proof (intro allI impI)
  fix t
  assume t: "P t"
  have "P (set_conn c (\<lambda>s. s\<lparr>cn_data := cn_data s @ msg\<rparr>) t)" by (rule inv_conn [OF t]) simp
  then show "P (snd (on_message env c msg t))"
    using t keeps_init_conn keeps_msg_loop by (simp add: on_message_def Let_def keeps_def del: msg_loop.simps)
qed

lemma keeps_update_read: "keeps P (update_read env c r)"
proof -
  have cl: "P (snd (bindO (conn_close (on_close env) c t) (\<lambda>_ t1. (Inr False, t1))))" if "P t" for t
    using keeps_on_close that by (intro bindO_P) (simp_all add: keeps_def)
  show ?thesis
    unfolding keeps_def update_read_def Let_def
    by (auto split: recv_result.splits prod.splits sum.splits intro: cl keepsD [OF keeps_on_message])
qed

lemma keeps_tracker_step: "keeps P (tracker_step env ev)"
proof -
  have w: "P (snd (update_write env (on_close env) c t))" if "P t" for c t
    using keeps_scheduling(3) that by (simp add: keeps_def on_close_def)
  have "P (snd (bindO (update_read env c r t) (\<lambda>ok t1. if ok \<and> b then update_write env (on_close env) c t1 else (Inr (), t1))))"
    if "P t" for c r b t
    using keeps_update_read that w by (intro bindO_P) (simp_all add: keeps_def)
  then show ?thesis
    using w inv_accept unfolding keeps_def tracker_step_def by (auto split: tracker_event.splits)
qed

lemma reach_P:
  assumes "tracker_reach env stop_key t" and "P (mk_tracker stop_key)"
  shows "P t"
  using assms by (induction rule: tracker_reach.induct) (auto dest: keepsD [OF keeps_tracker_step])

end

subsection \<open>The invariant\<close>

definition sched_ok :: "sched \<Rightarrow> bool" where
  "sched_ok s \<longleftrightarrow> sorted (sc_requests s) \<and> distinct (map (\<lambda>(p, n, c). n) (sc_requests s)) \<and>
                 list_all (\<lambda>(p, n, c). n < sc_cnt s) (sc_requests s)"

definition tracker_ok :: "tracker \<Rightarrow> bool" where
  "tracker_ok t \<longleftrightarrow>
     distinct (tr_active t) \<and> (\<forall>c. c \<in> set (tr_active t) \<longleftrightarrow> cn_open (tr_conn t c)) \<and>
     (\<forall>c. tr_next t \<le> c \<longrightarrow> \<not> cn_open (tr_conn t c)) \<and>
     distinct (map fst (tr_scheds t)) \<and> (\<forall>k s. map_of (tr_scheds t) k = Some s \<longrightarrow> sched_ok s)"

lemma sched_ok_simps:
  "sched_ok (s\<lparr>sc_values := vs\<rparr>) = sched_ok s"
  "sched_ok s \<Longrightarrow> sc_requests s = r # rs \<Longrightarrow> sched_ok (s\<lparr>sc_requests := rs\<rparr>)"
  "sched_ok (mk_sched key)"
  by (auto simp: sched_ok_def mk_sched_def)

lemma sched_ok_push:
  assumes "sched_ok s"
  shows "sched_ok (s\<lparr>sc_requests := insort (p, sc_cnt s, c) (sc_requests s), sc_cnt := Suc (sc_cnt s)\<rparr>)"
proof -
  let ?r = "(p, sc_cnt s, c)"
  have "distinct (map (\<lambda>(p, n, c). n) (insort ?r xs))"
    if "distinct (map (\<lambda>(p, n, c). n) xs)" "list_all (\<lambda>(p, n, c). n < sc_cnt s) xs" for xs
    using that by (induction xs) (auto simp: list_all_iff set_insort_key)
  with assms show ?thesis by (auto simp: sched_ok_def sorted_insort set_insort_key list_all_iff less_Suc_eq)
qed

interpretation tracker_inv: tracker_handler_invariant tracker_ok
proof
  fix t c f k s r rs p key
  assume t: "tracker_ok t"
  show "tracker_ok (set_sched k (s\<lparr>sc_values := vs\<rparr>) t)" if "map_of (tr_scheds t) k = Some s" for vs
    using t that by (auto simp: tracker_ok_def update_conv distinct_update sched_ok_simps)
  show "tracker_ok (set_sched k (s\<lparr>sc_requests := rs\<rparr>) t)" if "map_of (tr_scheds t) k = Some s" "sc_requests s = r # rs"
    using t that by (auto simp: tracker_ok_def update_conv distinct_update sched_ok_simps)
  show "tracker_ok (set_sched k (mk_sched key) t)"
    using t by (auto simp: tracker_ok_def update_conv distinct_update sched_ok_simps)
  show "tracker_ok (set_sched k (s\<lparr>sc_requests := insort (p, sc_cnt s, c) (sc_requests s), sc_cnt := Suc (sc_cnt s)\<rparr>) t)"
    if "map_of (tr_scheds t) k = Some s"
    using t that by (auto simp: tracker_ok_def update_conv distinct_update sched_ok_push)
  show "tracker_ok (tracker_accept addr t)" for addr
    using t by (auto simp: tracker_ok_def tracker_accept_def mk_conn_def)
qed (auto simp: tracker_ok_def closed_conn_def distinct_removeAll)

lemma mk_tracker_ok: "tracker_ok (mk_tracker stop_key)"
  by (simp add: tracker_ok_def mk_tracker_def)

end
