(* ===== verification/RPC_Scheduling.thy ===== *)
theory RPC_Scheduling
  imports RPC_Tracker_Inv
begin

section \<open>Scheduling of requests\<close>

text \<open>
  The scheduling loop of the tracker ends, whatever the nested closing of connections does; it leaves no
  resource idle while a request waits, and serves the requests in the order of their priority.
\<close>

subsection \<open>The scheduling loop ends\<close>

lemma waiting_set_sched:
  assumes "distinct (map fst (tr_scheds t))" and "map_of (tr_scheds t) k = Some s"
  shows "waiting (set_sched k s' t) + length (sc_requests s) = waiting t + length (sc_requests s')"
proof -
  have "sum_list (map (\<lambda>(k, s). length (sc_requests s)) (AList.update k s' xs)) + length (sc_requests s) =
        sum_list (map (\<lambda>(k, s). length (sc_requests s)) xs) + length (sc_requests s')"
    if "distinct (map fst xs)" "map_of xs k = Some s" for xs
    using that
  proof (induction xs)
    case (Cons x xs)
    then show ?case by (cases x) (auto split: if_splits)
  qed simp
  from this [OF assms] show ?thesis by (simp add: waiting_def)
qed

lemma waiting_same [simp]:
  "waiting (set_conn c f t) = waiting t" "waiting (closed_conn c t) = waiting t"
  by (simp_all add: waiting_def closed_conn_def)

abbreviation bounded :: "nat \<Rightarrow> tracker \<Rightarrow> bool" where
  "bounded W t \<equiv> tracker_ok t \<and> waiting t \<le> W"

interpretation waiting_bound: tracker_invariant "bounded W" for W
proof
  fix t k s vs r rs
  assume t: "bounded W t" and s: "map_of (tr_scheds t) k = Some s"
  have d: "distinct (map fst (tr_scheds t))" using t by (simp add: tracker_ok_def)
  show "bounded W (set_sched k (s\<lparr>sc_values := vs\<rparr>) t)"
    using t s tracker_inv.inv_values waiting_set_sched [OF d s, of "s\<lparr>sc_values := vs\<rparr>"] by simp
  show "bounded W (set_sched k (s\<lparr>sc_requests := rs\<rparr>) t)" if "sc_requests s = r # rs"
    using t s that tracker_inv.inv_pop waiting_set_sched [OF d s, of "s\<lparr>sc_requests := rs\<rparr>"] by simp
qed (auto intro: tracker_inv.inv_listed tracker_inv.inv_write tracker_inv.inv_queue tracker_inv.inv_close tracker_inv.inv_matchkeys)

lemma foldO_cong_keeps:
  assumes "\<And>x t. P t \<Longrightarrow> f x t = g x t" and "\<And>x. keeps P (f x)" and "P t"
  shows "foldO f xs t = foldO g xs t"
  using assms(3)
proof (induction xs arbitrary: t)
  case (Cons x xs)
  obtain r t1 where r: "f x t = (r, t1)" by (cases "f x t")
  then have "P t1" using keepsD [OF assms(2) Cons.prems] by blast
  with Cons.IH r assms(1) [OF Cons.prems, of x] show ?case by (cases r) auto
qed simp

text \<open>Two rescheduling functions that agree on the states with at most \<open>W\<close> waiting requests.\<close>

definition agree :: "nat \<Rightarrow> (hkey \<Rightarrow> tracker_op) \<Rightarrow> (hkey \<Rightarrow> tracker_op) \<Rightarrow> bool" where
  "agree W f g \<longleftrightarrow> (\<forall>k. keeps (bounded W) (f k) \<and> (\<forall>t. bounded W t \<longrightarrow> f k t = g k t))"

lemma agree_conn_close:
  assumes fg: "agree W f g" and t: "bounded W t"
  shows "conn_close (tracker_close f) c t = conn_close (tracker_close g) c t"
proof -
  have "foldO (sched_remove f k) vs u = foldO (sched_remove g k) vs u" if "bounded W u" for k vs u
  proof (rule foldO_cong_keeps [where P = "bounded W"])
    show "sched_remove f k v u = sched_remove g k v u" if "bounded W u" for v u
      using fg waiting_bound.inv_values [OF that] unfolding agree_def sched_remove_def by (auto split: option.splits)
    show "keeps (bounded W) (sched_remove f k v)" for v
      using fg by (intro waiting_bound.keeps_sched_remove) (simp add: agree_def)
    show "bounded W u" by (rule that)
  qed
  then show ?thesis
    using waiting_bound.inv_close [OF t, of c]
    by (simp add: waiting_bound.conn_close_cases [OF t] split: option.split sum.split)
qed

lemma agree_write_message:
  assumes fg: "agree W f g" and t: "bounded W t"
  shows "write_message env (tracker_close f) c msg t = write_message env (tracker_close g) c msg t"
proof -
  let ?t = "set_conn c (\<lambda>s. s\<lparr>cn_pending_write := cn_pending_write s @ [msg]\<rparr>) t"
  have q: "bounded W ?t" by (rule waiting_bound.inv_queue [OF t])
  have "conn_close (tracker_close f) c (set_conn c (\<lambda>s. s\<lparr>cn_pending_write := ms, cn_sent := b, cn_nsend := n\<rparr>) ?t) =
        conn_close (tracker_close g) c (set_conn c (\<lambda>s. s\<lparr>cn_pending_write := ms, cn_sent := b, cn_nsend := n\<rparr>) ?t)" for ms b n
    by (rule agree_conn_close [OF fg waiting_bound.inv_write [OF q]])
  then show ?thesis by (simp add: write_message_def update_write_def Let_def split: prod.split flush_end.split)
qed

lemma agree_request_cb:
  assumes fg: "agree W f g" and t: "bounded W t"
  shows "request_cb env (tracker_close f) c w t = request_cb env (tracker_close g) c w t"
proof -
  have "bindO (write_message env (tracker_close f) c m1 t) (\<lambda>_. write_message env (tracker_close f) c m2) =
        bindO (write_message env (tracker_close g) c m1 t) (\<lambda>_. write_message env (tracker_close g) c m2)" for m1 m2
  proof (cases "write_message env (tracker_close g) c m1 t")
    case (Pair r t1)
    have k: "\<forall>k. keeps (bounded W) (f k)" using fg by (simp add: agree_def)
    have "bounded W t1"
      using keepsD [OF waiting_bound.keeps_write_message [OF k] t] Pair agree_write_message [OF fg t] by metis
    then show ?thesis
      using Pair agree_write_message [OF fg t] agree_write_message [OF fg] by (cases r) simp_all
  qed
  then show ?thesis by (simp add: request_cb_def ret_value_def split: sum.split)
qed

lemma waiting_take:
  assumes "tracker_ok t" and "map_of (tr_scheds t) k = Some s" and "sc_requests s = r # reqs"
  shows "Suc (waiting (set_sched k (s\<lparr>sc_requests := reqs, sc_values := vals\<rparr>) t)) = waiting t"
  using waiting_set_sched [of t k s "s\<lparr>sc_requests := reqs, sc_values := vals\<rparr>"] assms by (simp add: tracker_ok_def)

lemma sched_loop_fuel:
  assumes "tracker_ok t" and "waiting t < n" and "waiting t < m"
  shows "sched_loop n env k t = sched_loop m env k t"
  using assms
proof (induction "waiting t" arbitrary: n m t k rule: less_induct)
  case less
  obtain n' m' where nm: "n = Suc n'" "m = Suc m'" using less.prems by (cases n; cases m) auto
  show ?case
  proof (cases "map_of (tr_scheds t) k")
    case (Some s)
    show ?thesis
    proof (cases "sc_requests s = [] \<or> sc_values s = []")
      case False
      then obtain p q c reqs v vals where rv: "sc_requests s = (p, q, c) # reqs" "sc_values s = v # vals"
        by (cases "sc_requests s"; cases "sc_values s") auto
      let ?t = "set_sched k (s\<lparr>sc_requests := reqs, sc_values := vals\<rparr>) t"
      have w: "Suc (waiting ?t) = waiting t" by (rule waiting_take [OF less.prems(1) Some rv(1)])
      have ok: "bounded (waiting ?t) ?t" using tracker_inv.inv_take [OF less.prems(1) Some rv(1)] by simp
      have ag: "agree (waiting ?t) (sched_loop n' env) (sched_loop m' env)"
        unfolding agree_def
      proof (intro allI conjI impI)
        show "keeps (bounded (waiting ?t)) (sched_loop n' env k)" for k by (rule waiting_bound.keeps_sched_loop)
        show "sched_loop n' env k u = sched_loop m' env k u" if "bounded (waiting ?t) u" for k u
          using that w less.prems nm by (intro less.hyps) auto
      qed
      have cb: "request_cb env (tracker_close (sched_loop n' env)) c (value_tail v) ?t =
                request_cb env (tracker_close (sched_loop m' env)) c (value_tail v) ?t"
        by (rule agree_request_cb [OF ag ok])
      have rest: "bindO (settle k v b t1) (\<lambda>_. sched_loop n' env k) = bindO (settle k v b t1) (\<lambda>_. sched_loop m' env k)"
        if "bounded (waiting ?t) t1" for b t1
      proof (cases "settle k v b t1")
        case (Pair r t2)
        have "bounded (waiting ?t) t2" using keepsD [OF waiting_bound.keeps_settle that Pair] .
        then show ?thesis using ag Pair by (cases r) (auto simp: agree_def)
      qed
      have "\<forall>k. keeps (bounded (waiting ?t)) (sched_loop m' env k)" using waiting_bound.keeps_sched_loop by blast
      then have "bounded (waiting ?t) t1" if "request_cb env (tracker_close (sched_loop m' env)) c (value_tail v) ?t = (r, t1)" for r t1
        using keepsD [OF waiting_bound.keeps_request_cb ok that] by blast
      then have "bindO (request_cb env (tracker_close (sched_loop m' env)) c (value_tail v) ?t) (\<lambda>b t1. bindO (settle k v b t1) (\<lambda>_. sched_loop n' env k)) =
            bindO (request_cb env (tracker_close (sched_loop m' env)) c (value_tail v) ?t) (\<lambda>b t1. bindO (settle k v b t1) (\<lambda>_. sched_loop m' env k))"
        using rest by (cases "request_cb env (tracker_close (sched_loop m' env)) c (value_tail v) ?t"; cases "fst (request_cb env (tracker_close (sched_loop m' env)) c (value_tail v) ?t)") auto
      with Some rv cb nm show ?thesis by simp
    qed (use Some nm in \<open>auto split: list.splits\<close>)
  qed (use nm in simp)
qed

definition schedule_body :: "net_env \<Rightarrow> hkey \<Rightarrow> tracker_op" where
  "schedule_body env k t =
     (case map_of (tr_scheds t) k of
        None \<Rightarrow> (Inl KeyError, t)
      | Some s \<Rightarrow>
          (case (sc_requests s, sc_values s) of
             ((prio, cnt, c) # reqs, v # vals) \<Rightarrow>
               bindO (request_cb env (on_close env) c (value_tail v) (set_sched k (s\<lparr>sc_requests := reqs, sc_values := vals\<rparr>) t))
                 (\<lambda>consumed t1. bindO (settle k v consumed t1) (\<lambda>_. schedule env k))
           | _ \<Rightarrow> (Inr (), t)))"

lemma schedule_unfold:
  assumes t: "tracker_ok t"
  shows "schedule env k t = schedule_body env k t"
proof (cases "map_of (tr_scheds t) k")
  case (Some s)
  show ?thesis
  proof (cases "sc_requests s = [] \<or> sc_values s = []")
    case False
    then obtain p q c reqs v vals where rv: "sc_requests s = (p, q, c) # reqs" "sc_values s = v # vals"
      by (cases "sc_requests s"; cases "sc_values s") auto
    let ?t = "set_sched k (s\<lparr>sc_requests := reqs, sc_values := vals\<rparr>) t"
    let ?n = "waiting t"
    have w: "Suc (waiting ?t) = ?n" by (rule waiting_take [OF t Some rv(1)])
    have ok: "bounded (waiting ?t) ?t" using tracker_inv.inv_take [OF t Some rv(1)] by simp
    have same: "sched_loop ?n env k u = schedule env k u" if "bounded (waiting ?t) u" for k u
      unfolding schedule_def using that w by (intro sched_loop_fuel) auto
    have ag: "agree (waiting ?t) (sched_loop ?n env) (schedule env)"
      unfolding agree_def using same waiting_bound.keeps_sched_loop by blast
    have cb: "request_cb env (tracker_close (sched_loop ?n env)) c (value_tail v) ?t = request_cb env (on_close env) c (value_tail v) ?t"
      unfolding on_close_def by (rule agree_request_cb [OF ag ok])
    have rest: "bindO (settle k v b t1) (\<lambda>_. sched_loop ?n env k) = bindO (settle k v b t1) (\<lambda>_. schedule env k)"
      if "bounded (waiting ?t) t1" for b t1
    proof (cases "settle k v b t1")
      case (Pair r t2)
      have "bounded (waiting ?t) t2" using keepsD [OF waiting_bound.keeps_settle that Pair] .
      then show ?thesis using same Pair by (cases r) auto
    qed
    have "bounded (waiting ?t) t1" if "request_cb env (on_close env) c (value_tail v) ?t = (r, t1)" for r t1
      using keepsD [OF waiting_bound.keeps_request_cb [OF waiting_bound.schedule_all] ok] that by (simp add: on_close_def)
    then have "bindO (request_cb env (on_close env) c (value_tail v) ?t) (\<lambda>b t1. bindO (settle k v b t1) (\<lambda>_. sched_loop ?n env k)) =
            bindO (request_cb env (on_close env) c (value_tail v) ?t) (\<lambda>b t1. bindO (settle k v b t1) (\<lambda>_. schedule env k))"
      using rest by (cases "request_cb env (on_close env) c (value_tail v) ?t"; cases "fst (request_cb env (on_close env) c (value_tail v) ?t)") auto
    with Some rv cb show ?thesis by (simp add: schedule_def schedule_body_def)
  qed (use Some in \<open>auto simp: schedule_def schedule_body_def split: list.splits\<close>)
qed (simp add: schedule_def schedule_body_def)

subsection \<open>No resource is idle while a request waits\<close>

definition idle_except :: "hkey set \<Rightarrow> tracker \<Rightarrow> bool" where
  "idle_except K t \<longleftrightarrow> (\<forall>k s. k \<notin> K \<longrightarrow> map_of (tr_scheds t) k = Some s \<longrightarrow> sc_values s = [] \<or> sc_requests s = [])"

text \<open>An outcome that the handlers above go on from: a result, or the \<^verbatim>\<open>OSError\<close> that they catch.\<close>

definition caught :: "'a res \<Rightarrow> bool" where
  "caught r \<longleftrightarrow> (case r of Inl e \<Rightarrow> e = OSError | Inr x \<Rightarrow> True)"

lemma caught_simps [simp]: "caught (Inr x)" "caught (Inl e) \<longleftrightarrow> e = OSError"
  by (simp_all add: caught_def)

definition fine :: "(tracker \<Rightarrow> bool) \<Rightarrow> (tracker \<Rightarrow> (tracker, 'a) outcome) \<Rightarrow> bool" where
  "fine P f \<longleftrightarrow> (\<forall>t r t'. P t \<longrightarrow> f t = (r, t') \<longrightarrow> caught r \<longrightarrow> P t')"

definition quiesces :: "(hkey \<Rightarrow> tracker_op) \<Rightarrow> bool" where
  "quiesces rs \<longleftrightarrow> (\<forall>K k t r t'. idle_except K t \<longrightarrow> rs k t = (r, t') \<longrightarrow> caught r \<longrightarrow> idle_except (K - {k}) t')"

lemma fineD: "fine P f \<Longrightarrow> P t \<Longrightarrow> f t = (r, t') \<Longrightarrow> caught r \<Longrightarrow> P t'"
  unfolding fine_def by blast

lemma fine_bindO:
  assumes "fine P m" and "\<And>x. fine P (f x)"
  shows "fine P (\<lambda>t. bindO (m t) f)"
  unfolding fine_def
proof (intro allI impI)
  fix t r t'
  assume P: "P t" and e: "bindO (m t) f = (r, t')" and c: "caught r"
  obtain r1 t1 where m: "m t = (r1, t1)" by (cases "m t")
  show "P t'"
  proof (cases r1)
    case (Inl x)
    then show ?thesis using e m c fineD [OF assms(1) P m] by auto
  next
    case (Inr x)
    then have "P t1" using fineD [OF assms(1) P m] by simp
    then show ?thesis using e m Inr c fineD [OF assms(2)] by simp
  qed
qed

lemma fine_foldO: "(\<And>x. fine P (f x)) \<Longrightarrow> fine P (foldO f xs)"
proof (induction xs)
  case (Cons x xs)
  have "fine P (\<lambda>t. bindO (f x t) (\<lambda>_. foldO f xs))" using Cons by (intro fine_bindO) auto
  then show ?case by (simp add: fine_def)
qed (auto simp: fine_def)

lemma idle_except_conn [simp]:
  "idle_except K (set_conn c f t) = idle_except K t" "idle_except K (t\<lparr>tr_active := a\<rparr>) = idle_except K t"
  "idle_except K (t\<lparr>tr_listening := b\<rparr>) = idle_except K t"
  by (simp_all add: idle_except_def)

lemma idle_except_mono: "idle_except K t \<Longrightarrow> K \<subseteq> L \<Longrightarrow> idle_except L t"
  unfolding idle_except_def by blast

lemma idle_except_sched:
  "idle_except K t \<Longrightarrow> idle_except (insert k K) (set_sched k s t)"
  "idle_except K t \<Longrightarrow> map_of (tr_scheds t) k = Some s \<Longrightarrow> set vs \<subseteq> set (sc_values s) \<Longrightarrow> idle_except K (set_sched k (s\<lparr>sc_values := vs\<rparr>) t)"
  by (auto simp: idle_except_def update_conv)

lemma fine_sched_remove:
  assumes "quiesces rs"
  shows "fine (idle_except K) (sched_remove rs k v)"
  unfolding fine_def
proof (intro allI impI)
  fix t r t'
  assume t: "idle_except K t" and e: "sched_remove rs k v t = (r, t')" and c: "caught r"
  show "idle_except K t'"
  proof (cases "map_of (tr_scheds t) k")
    case None
    then show ?thesis using t e by (simp add: sched_remove_def)
  next
    case (Some s)
    let ?t = "set_sched k (s\<lparr>sc_values := remove1 v (sc_values s)\<rparr>) t"
    have "idle_except K ?t" using t Some by (intro idle_except_sched(2)) (simp_all add: set_remove1_subset)
    then have "idle_except (K - {k}) t'" if "rs k ?t = (r, t')"
      using assms that c unfolding quiesces_def by blast
    then show ?thesis using t e Some idle_except_mono by (fastforce simp: sched_remove_def split: if_splits)
  qed
qed

lemma fine_conn_close:
  assumes "quiesces rs"
  shows "fine (idle_except K) (conn_close (tracker_close rs) c)"
  unfolding fine_def
proof (intro allI impI)
  fix t r t'
  assume t: "idle_except K t" and e: "conn_close (tracker_close rs) c t = (r, t')" and c: "caught r"
  have f: "idle_except K t'" if "foldO (sched_remove rs k) vs u = (r, t')" "idle_except K u" for k vs u
    using fineD [OF fine_foldO [OF fine_sched_remove [OF assms]] that(2,1) c] .
  show "idle_except K t'"
    using t e by (auto simp: conn_close_def tracker_close_def Let_def intro: f split: if_splits option.splits sum.splits)
qed

lemma fine_update_write:
  assumes "quiesces rs"
  shows "fine (idle_except K) (update_write env (tracker_close rs) c)"
proof -
  have "fine (idle_except K) (\<lambda>t. conn_close (tracker_close rs) c (set_conn c f t))" for f
    using fine_conn_close [OF assms, of K c] unfolding fine_def by (metis idle_except_conn(1))
  then show ?thesis
    unfolding fine_def update_write_def
    by (auto simp: Let_def split: if_splits prod.splits flush_end.splits)
qed

lemma fine_write_message:
  assumes "quiesces rs"
  shows "fine (idle_except K) (write_message env (tracker_close rs) c msg)"
  using fine_update_write [OF assms, of K env c] unfolding fine_def write_message_def
  by (metis (no_types, lifting) Pair_inject idle_except_conn(1))

lemma fine_ret_value:
  assumes "quiesces rs"
  shows "fine (idle_except K) (ret_value env (tracker_close rs) c v)"
proof (cases "pack_i (int (length (dumps v)))")
  case (Inr hdr)
  have "fine (idle_except K) (\<lambda>t. bindO (write_message env (tracker_close rs) c hdr t) (\<lambda>_. write_message env (tracker_close rs) c (dumps v)))"
    by (intro fine_bindO fine_write_message assms)
  with Inr show ?thesis by (simp add: fine_def ret_value_def)
qed (auto simp: fine_def ret_value_def)

lemma fine_request_cb:
  assumes "quiesces rs"
  shows "fine (idle_except K) (request_cb env (tracker_close rs) c w)"
  using fine_ret_value [OF assms, of K env c] unfolding fine_def request_cb_def
  by (fastforce split: if_splits prod.splits sum.splits)

lemma idle_settle:
  assumes "settle k v b t = (r, t')" and "idle_except (insert k K) t"
  shows "idle_except (insert k K) t'"
  using assms idle_except_sched(1) [of "insert k K" t k]
  by (auto simp: settle_def consume_def split: if_splits prod.splits option.splits)

lemma quiesces_sched_loop: "quiesces (sched_loop n env)"
proof (induction n)
  case 0
  then show ?case by (simp add: quiesces_def)
next
  case (Suc n)
  show ?case
    unfolding quiesces_def
  proof (intro allI impI)
    fix K k t r t'
    assume t: "idle_except K t" and e: "sched_loop (Suc n) env k t = (r, t')" and c: "caught r"
    have fin: "idle_except (K - {k}) t" if "\<forall>s. map_of (tr_scheds t) k = Some s \<longrightarrow> sc_values s = [] \<or> sc_requests s = []"
      using t that by (auto simp: idle_except_def)
    show "idle_except (K - {k}) t'"
    proof (cases "\<exists>s. map_of (tr_scheds t) k = Some s \<and> sc_requests s \<noteq> [] \<and> sc_values s \<noteq> []")
      case False
      then have "t' = t" using e by (auto split: option.splits list.splits)
      with fin False show ?thesis by blast
    next
      case True
      then obtain s p q d reqs v vals where s: "map_of (tr_scheds t) k = Some s"
        and rv: "sc_requests s = (p, q, d) # reqs" "sc_values s = v # vals"
        by (metis list.exhaust prod_cases3)
      let ?t = "set_sched k (s\<lparr>sc_requests := reqs, sc_values := vals\<rparr>) t"
      have t0: "idle_except (insert k K) ?t" using t by (rule idle_except_sched(1))
      obtain r1 t1 where cb: "request_cb env (tracker_close (sched_loop n env)) d (value_tail v) ?t = (r1, t1)"
        by (cases "request_cb env (tracker_close (sched_loop n env)) d (value_tail v) ?t")
      obtain b where b: "r1 = Inr b"
        using e c s rv cb by (cases r1) (auto simp: request_cb_def split: if_splits prod.splits sum.splits)
      have t1: "idle_except (insert k K) t1" using fineD [OF fine_request_cb [OF Suc.IH] t0 cb] b by simp
      obtain r2 t2 where st: "settle k v b t1 = (r2, t2)" by (cases "settle k v b t1")
      have t2: "idle_except (insert k K) t2" by (rule idle_settle [OF st t1])
      obtain u where "r2 = Inr u"
        using e c s rv cb b st by (cases r2) (auto simp: settle_def consume_def split: if_splits prod.splits option.splits)
      then have "sched_loop n env k t2 = (r, t')" using e s rv cb b st by simp
      then have "idle_except (insert k K - {k}) t'" using Suc.IH t2 c unfolding quiesces_def by blast
      then show ?thesis by (rule idle_except_mono) auto
    qed
  qed
qed

lemma quiesces_schedule: "quiesces (schedule env)"
  using quiesces_sched_loop unfolding quiesces_def schedule_def by blast

abbreviation no_idle :: "tracker \<Rightarrow> bool" where
  "no_idle \<equiv> idle_except {}"

lemma fine_closing: "fine no_idle (conn_close (on_close env) c)" "fine no_idle (update_write env (on_close env) c)"
  "fine no_idle (write_message env (on_close env) c msg)" "fine no_idle (reply env c v)"
  using fine_conn_close [OF quiesces_schedule] fine_update_write [OF quiesces_schedule]
    fine_write_message [OF quiesces_schedule] fine_ret_value [OF quiesces_schedule]
  by (simp_all add: on_close_def reply_def)

lemma fine_pure: "(\<And>t. no_idle t \<Longrightarrow> no_idle (f t)) \<Longrightarrow> fine no_idle m \<Longrightarrow> fine no_idle (\<lambda>t. m (f t))"
  unfolding fine_def by blast

lemma no_idle_schedule: "no_idle t \<Longrightarrow> schedule env k (set_sched k s t) = (r, t') \<Longrightarrow> caught r \<Longrightarrow> no_idle t'"
  using quiesces_schedule idle_except_sched(1) [of "{}" t k s] unfolding quiesces_def by fastforce

lemma no_idle_ensure: "no_idle t \<Longrightarrow> no_idle (ensure_sched key k t)"
  by (auto simp: ensure_sched_def idle_except_def update_conv mk_sched_def)

lemma fine_put: "fine no_idle (tracker_put env key v)"
  unfolding fine_def tracker_put_def
  by (auto simp: Let_def intro: no_idle_schedule no_idle_ensure split: sum.splits)

lemma fine_request: "fine no_idle (tracker_request env key priority c)"
  unfolding fine_def tracker_request_def
  by (auto simp: Let_def intro: no_idle_schedule no_idle_ensure split: sum.splits option.splits)

lemma fine_case_res: "(\<And>e. r = Inl e \<Longrightarrow> fine P (f e)) \<Longrightarrow> (\<And>x. r = Inr x \<Longrightarrow> fine P (g x)) \<Longrightarrow>
    fine P (\<lambda>t. case r of Inl e \<Rightarrow> f e t | Inr x \<Rightarrow> g x t)"
  by (cases r) auto

lemma fine_return: "fine P (\<lambda>t. (r, t))"
  by (simp add: fine_def)

lemma fine_set_conn: "fine no_idle (\<lambda>t. (r, set_conn c f t))"
  by (simp add: fine_def)

lemma fine_if: "fine P f \<Longrightarrow> fine P g \<Longrightarrow> fine P (\<lambda>t. if b t then f t else g t)"
  unfolding fine_def
proof (intro allI impI)
  fix t r t'
  assume fg: "\<forall>t r t'. P t \<longrightarrow> f t = (r, t') \<longrightarrow> caught r \<longrightarrow> P t'" "\<forall>t r t'. P t \<longrightarrow> g t = (r, t') \<longrightarrow> caught r \<longrightarrow> P t'"
    and t: "P t" "(if b t then f t else g t) = (r, t')" "caught r"
  show "P t'"
  proof (cases "b t")
    case True
    then have "f t = (r, t')" using t(2) by simp
    with fg(1) t(1,3) show ?thesis by blast
  next
    case False
    then have "g t = (r, t')" using t(2) by simp
    with fg(2) t(1,3) show ?thesis by blast
  qed
qed

lemma fine_case_state: "(\<And>x. fine P (g x)) \<Longrightarrow> fine P (\<lambda>t. case r t of Inl e \<Rightarrow> (Inl e, t) | Inr x \<Rightarrow> g x t)"
  by (auto simp: fine_def split: sum.splits)

lemma fine_reply_state: "fine no_idle (\<lambda>t. reply env c (v t) t)"
  using fine_closing(4) unfolding fine_def by blast

lemma fine_handle_put: "fine no_idle (handle_put env c args)"
proof -
  have "fine no_idle (\<lambda>t. bindO (tracker_put env key v (set_conn c f t)) (\<lambda>_ t2. reply env c w (set_conn c g t2)))" for key v w f g
    by (intro fine_bindO fine_pure [OF _ fine_put] fine_pure [OF _ fine_closing(4)]) simp_all
  then show ?thesis unfolding fine_def handle_put_def by (auto simp: Let_def split: sum.splits)
qed

lemma fine_handlers:
  "fine no_idle (handle_request env c args)" "fine no_idle (handle_stop env c args)" "fine no_idle (handle_update_info env c args)"
proof -
  show "fine no_idle (handle_request env c args)"
    unfolding handle_request_def by (intro fine_case_res fine_return) (auto simp: fine_request)
  have "fine no_idle (tracker_stop env)"
  proof -
    have "fine no_idle (\<lambda>t. bindO (foldO (conn_close (on_close env)) cs t) (\<lambda>_ t1. (Inr (), t1\<lparr>tr_listening := False\<rparr>)))" for cs
      by (intro fine_bindO fine_foldO fine_closing) (simp add: fine_def)
    then show ?thesis unfolding fine_def tracker_stop_def by blast
  qed
  then show "fine no_idle (handle_stop env c args)"
    unfolding handle_stop_def by (intro fine_case_res fine_return fine_if fine_bindO fine_closing)
  show "fine no_idle (handle_update_info env c args)"
    unfolding fine_def
  proof (intro allI impI)
    fix t r t'
    assume t: "no_idle t" and e: "handle_update_info env c args t = (r, t')" and c: "caught r"
    show "no_idle t'"
    proof (cases "py_get args 1")
      case (Inl x)
      then show ?thesis using t e by (simp add: handle_update_info_def)
    next
      case (Inr arg)
      obtain r1 info where i: "info_update arg (cn_info (tr_conn t c)) = (r1, info)" by (cases "info_update arg (cn_info (tr_conn t c))")
      have "fine no_idle (\<lambda>t. bindO (r1, set_conn c (\<lambda>s. s\<lparr>cn_info := info\<rparr>) t) (\<lambda>_. reply env c (code_json TC_SUCCESS)))"
        by (intro fine_bindO fine_closing(4)) (simp add: fine_def)
      from fineD [OF this t _ c] e Inr i show ?thesis by (simp add: handle_update_info_def)
    qed
  qed
qed

lemma fine_call_handler: "fine no_idle (call_handler env c msg)"
proof -
  have args: "fine no_idle (call_handler env c (JArr (code # args)))" for code args
    unfolding call_handler_def json.case list.case Let_def
    by (intro fine_if fine_handle_put fine_handlers fine_closing(1) fine_case_state fine_reply_state)
  show ?thesis
  proof (cases msg)
    case (JArr xs)
    then show ?thesis using args by (cases xs) (simp_all add: fine_def call_handler_def [of _ _ "JArr []"])
  next
    case (JStr s)
    then show ?thesis using fine_closing(1) by (cases s) (simp_all add: call_handler_def fine_def)
  qed (simp_all add: call_handler_def fine_def)
qed

lemma fine_init_conn: "fine no_idle (init_conn env c msg)"
  unfolding init_conn_def
  by (intro fine_bindO fine_if fine_closing fine_return fine_case_res fine_set_conn)

lemma fine_msg_loop: "fine no_idle (msg_loop n env c)"
proof (induction n)
  case (Suc n)
  show ?case
    unfolding fine_def
  proof (intro allI impI)
    fix t r t'
    assume t: "no_idle t" and e: "msg_loop (Suc n) env c t = (r, t')" and c: "caught r"
    have "fine no_idle (\<lambda>t. bindO (call_handler env c v t) (\<lambda>_. msg_loop n env c))" for v
      by (intro fine_bindO fine_call_handler Suc.IH)
    then have h: "no_idle t'" if "bindO (call_handler env c v u) (\<lambda>_. msg_loop n env c) = (r, t')" "no_idle u" for v u
      using fineD that c by blast
    show "no_idle t'"
      using t e by (auto simp: Let_def intro: h split: if_splits sum.splits)
  qed
qed (simp add: fine_def)

lemma fine_on_message: "fine no_idle (on_message env c msg)"
  unfolding fine_def
proof (intro allI impI)
  fix t r t'
  assume t: "no_idle t" and e: "on_message env c msg t = (r, t')" and c: "caught r"
  show "no_idle t'"
  proof (cases "cn_init_req (tr_conn t c) = 0")
    case True
    let ?u = "set_conn c (\<lambda>s. s\<lparr>cn_data := cn_data s @ msg\<rparr>) t"
    have "msg_loop (Suc (length (cn_data (tr_conn ?u c)))) env c ?u = (r, t')"
      using e True by (simp only: on_message_def Let_def simp_thms if_False)
    from fineD [OF fine_msg_loop _ this c] t show ?thesis by simp
  next
    case False
    then have "init_conn env c msg t = (r, t')" using e by (simp only: on_message_def simp_thms if_True)
    from fineD [OF fine_init_conn t this c] show ?thesis .
  qed
qed

lemma fine_update_read: "fine no_idle (update_read env c r)"
proof -
  have cl: "fine no_idle (\<lambda>t. bindO (conn_close (on_close env) c t) (\<lambda>_ t1. (Inr False, t1)))"
    by (intro fine_bindO fine_closing fine_return)
  show ?thesis
  proof (cases r)
    case (Received msg)
    show ?thesis
      unfolding fine_def
    proof (intro allI impI)
      fix t x t'
      assume t: "no_idle t" and e: "update_read env c r t = (x, t')" and x: "caught x"
      obtain y t1 where m: "on_message env c msg t = (y, t1)" by (cases "on_message env c msg t")
      have t1: "no_idle t1" if "caught y" using fineD [OF fine_on_message t m that] .
      show "no_idle t'"
        using e Received m t1 fineD [OF cl t _ x] fineD [OF cl _ _ x] x
        by (cases y) (auto simp: update_read_def Let_def split: if_splits)
    qed
  next
    case RecvError
    have "update_read env c RecvError = (\<lambda>t. bindO (conn_close (on_close env) c t) (\<lambda>_ t1. (Inr False, t1)))"
      by (rule ext) (simp add: update_read_def)
    then show ?thesis using cl RecvError by (simp only:)
  qed (simp add: update_read_def fine_def)
qed

lemma fine_tracker_step: "fine no_idle (tracker_step env ev)"
proof (cases ev)
  case (Accept addr)
  then show ?thesis by (auto simp: fine_def tracker_step_def tracker_accept_def idle_except_def)
next
  case (Readable c r w)
  have "fine no_idle (\<lambda>t. bindO (update_read env c r t) (\<lambda>ok t1. if ok \<and> w then update_write env (on_close env) c t1 else (Inr (), t1)))"
    by (intro fine_bindO fine_update_read fine_if fine_closing fine_return)
  then show ?thesis unfolding Readable tracker_step_def tracker_event.case by (intro fine_if fine_return)
next
  case (Writable c)
  show ?thesis unfolding Writable tracker_step_def tracker_event.case by (intro fine_if fine_return fine_closing)
qed

subsection \<open>The order of service\<close>

text \<open>The bytes written to a connection: those sent and those queued.\<close>

definition conn_out :: "tracker \<Rightarrow> conn_id \<Rightarrow> string" where
  "conn_out t c = cn_sent (tr_conn t c) @ concat (cn_pending_write (tr_conn t c))"

lemma flush_out: "flush f ms sent n = (ms', sent', n', e) \<Longrightarrow> sent' @ concat ms' = sent @ concat ms"
proof (induction f ms sent n rule: flush.induct)
  case (2 f msg ms sent n)
  have "take (Suc k) msg @ drop (Suc k) msg @ concat ms = msg @ concat ms" for k by (simp flip: append_assoc)
  then show ?case using 2 by (auto split: send_result.splits if_splits)
qed simp

lemma flush_works: "(\<And>n. f n \<noteq> SendError) \<Longrightarrow> flush f ms sent n = (ms', sent', n', e) \<Longrightarrow> e \<noteq> FFailed"
  by (induction f ms sent n rule: flush.induct) (auto split: send_result.splits if_splits)

text \<open>Connections that take what is written to them.\<close>

definition writable :: "net_env \<Rightarrow> tracker \<Rightarrow> conn_id \<Rightarrow> bool" where
  "writable env t c \<longleftrightarrow> (\<forall>n. ne_send env c n \<noteq> SendError) \<and> cn_open (tr_conn t c) \<and> \<not> cn_signal_close (tr_conn t c)"

lemma write_message_works:
  assumes "writable env t c"
  shows "\<exists>ms b n. write_message env oc c msg t = (Inr (), set_conn c (\<lambda>s. s\<lparr>cn_pending_write := ms, cn_sent := b, cn_nsend := n\<rparr>) t) \<and>
                  b @ concat ms = conn_out t c @ msg"
proof -
  let ?s = "tr_conn t c"
  obtain ms b n e where f: "flush (ne_send env c) (cn_pending_write ?s @ [msg]) (cn_sent ?s) (cn_nsend ?s) = (ms, b, n, e)"
    by (cases "flush (ne_send env c) (cn_pending_write ?s @ [msg]) (cn_sent ?s) (cn_nsend ?s)")
  have "e \<noteq> FFailed" using flush_works [OF _ f] assms by (simp add: writable_def)
  moreover have "b @ concat ms = conn_out t c @ msg" using flush_out [OF f] by (simp add: conn_out_def)
  moreover have "set_conn c (\<lambda>s. s\<lparr>cn_pending_write := ms, cn_sent := b, cn_nsend := n\<rparr>) (set_conn c (\<lambda>s. s\<lparr>cn_pending_write := q s\<rparr>) t) =
      set_conn c (\<lambda>s. s\<lparr>cn_pending_write := ms, cn_sent := b, cn_nsend := n\<rparr>) t" for q by (simp add: set_conn_def)
  ultimately show ?thesis
    using assms f by (intro exI [of _ ms] exI [of _ b] exI [of _ n], cases e)
      (simp_all add: write_message_def update_write_def writable_def Let_def)
qed

definition frame :: "json \<Rightarrow> string" where
  "frame v = (case pack_i (int (length (dumps v))) of Inl e \<Rightarrow> [] | Inr hdr \<Rightarrow> hdr @ dumps v)"

lemma ret_value_works:
  assumes "writable env t c" and "length (dumps v) < 2 ^ 31"
  shows "\<exists>ms b n. ret_value env oc c v t = (Inr (), set_conn c (\<lambda>s. s\<lparr>cn_pending_write := ms, cn_sent := b, cn_nsend := n\<rparr>) t) \<and>
                  b @ concat ms = conn_out t c @ frame v"
proof -
  obtain hdr where hdr: "pack_i (int (length (dumps v))) = Inr hdr" using pack_i_ok assms(2) by force
  obtain ms b n where w1: "write_message env oc c hdr t = (Inr (), set_conn c (\<lambda>s. s\<lparr>cn_pending_write := ms, cn_sent := b, cn_nsend := n\<rparr>) t)"
    "b @ concat ms = conn_out t c @ hdr" using write_message_works [OF assms(1)] by blast
  let ?t = "set_conn c (\<lambda>s. s\<lparr>cn_pending_write := ms, cn_sent := b, cn_nsend := n\<rparr>) t"
  have "writable env ?t c" using assms(1) by (simp add: writable_def)
  from write_message_works [OF this, of oc "dumps v"] obtain ms2 b2 n2 where
    w2: "write_message env oc c (dumps v) ?t = (Inr (), set_conn c (\<lambda>s. s\<lparr>cn_pending_write := ms2, cn_sent := b2, cn_nsend := n2\<rparr>) ?t)"
      "b2 @ concat ms2 = conn_out ?t c @ dumps v" by blast
  have "conn_out ?t c = conn_out t c @ hdr" using w1(2) by (simp add: conn_out_def)
  moreover have "set_conn c (\<lambda>s. s\<lparr>cn_pending_write := ms2, cn_sent := b2, cn_nsend := n2\<rparr>) ?t =
      set_conn c (\<lambda>s. s\<lparr>cn_pending_write := ms2, cn_sent := b2, cn_nsend := n2\<rparr>) t" by (simp add: set_conn_def)
  ultimately show ?thesis
    using hdr w1(1) w2 by (intro exI [of _ ms2] exI [of _ b2] exI [of _ n2]) (simp add: ret_value_def frame_def)
qed

definition grant :: "resource \<Rightarrow> json" where
  "grant v = JArr [JNum (code_num TC_SUCCESS), JArr (value_tail v)]"

text \<open>A resource whose match key is still pending at its server.\<close>

definition pending_at :: "tracker \<Rightarrow> resource \<Rightarrow> bool" where
  "pending_at t v \<longleftrightarrow> (case v of (c, host, port, matchkey) \<Rightarrow>
     hash_key matchkey \<in> hash_key ` set (cn_matchkeys (tr_conn t c)) \<and> length (dumps (grant v)) < 2 ^ 31)"

definition res_key :: "resource \<Rightarrow> conn_id \<times> hkey res" where
  "res_key v = (case v of (c, host, port, matchkey) \<Rightarrow> (c, hash_key matchkey))"

lemma one_grant:
  assumes "writable env t c" and "pending_at t v"
  shows "\<exists>t'. bindO (request_cb env oc c (value_tail v) t) (\<lambda>b t1. settle k v b t1) = (Inr (), t') \<and>
     tr_scheds t' = tr_scheds t \<and>
     (\<forall>d. conn_out t' d = (if d = c then conn_out t d @ frame (grant v) else conn_out t d)) \<and>
     (\<forall>d. writable env t' d = writable env t d) \<and>
     (\<forall>w. res_key w \<noteq> res_key v \<longrightarrow> pending_at t w \<longrightarrow> pending_at t' w)"
proof -
  obtain sv host port mk where v: "v = (sv, host, port, mk)" by (cases v)
  have "length (dumps (grant v)) < 2 ^ 31" using assms(2) v by (simp add: pending_at_def)
  from ret_value_works [OF assms(1) this, of oc] obtain ms b n where
    r: "ret_value env oc c (grant v) t = (Inr (), set_conn c (\<lambda>s. s\<lparr>cn_pending_write := ms, cn_sent := b, cn_nsend := n\<rparr>) t)"
      "b @ concat ms = conn_out t c @ frame (grant v)" by blast
  let ?t1 = "set_conn c (\<lambda>s. s\<lparr>cn_pending_write := ms, cn_sent := b, cn_nsend := n\<rparr>) t"
  let ?t2 = "set_conn sv (\<lambda>s. s\<lparr>cn_matchkeys := filter (\<lambda>m. hash_key m \<noteq> hash_key mk) (cn_matchkeys s)\<rparr>) ?t1"
  have "cn_matchkeys (tr_conn ?t1 d) = cn_matchkeys (tr_conn t d)" for d by simp
  then have "settle k v True ?t1 = (Inr (), ?t2)"
    using assms(2) v by (simp add: settle_def consume_def pending_at_def)
  moreover have "request_cb env oc c (value_tail v) t = (Inr True, ?t1)"
    using r(1) assms(1) by (simp add: request_cb_def writable_def grant_def)
  moreover have "pending_at ?t2 w" if "res_key w \<noteq> res_key v" "pending_at t w" for w
    using that v by (cases w) (auto simp: pending_at_def res_key_def)
  ultimately show ?thesis
    using r(2) by (intro exI [of _ ?t2]) (auto simp: conn_out_def writable_def)
qed

text \<open>What the first requests, in their order, receive of the first resources, in theirs.\<close>

definition granted :: "(rat \<times> nat \<times> conn_id) list \<Rightarrow> resource list \<Rightarrow> conn_id \<Rightarrow> string" where
  "granted reqs vals c = concat (map (\<lambda>((p, n, d), v). if d = c then frame (grant v) else []) (zip reqs vals))"

lemma sched_loop_serves:
  assumes "map_of (tr_scheds t) k = Some s"
    and "list_all (\<lambda>(p, n, c). writable env t c) (take (length (sc_values s)) (sc_requests s))"
    and "list_all (pending_at t) (sc_values s)" and "distinct (map res_key (sc_values s))" and "length (sc_requests s) < fuel"
  shows "\<exists>t'. sched_loop fuel env k t = (Inr (), t') \<and>
     map_of (tr_scheds t') k = Some (s\<lparr>sc_requests := drop (length (sc_values s)) (sc_requests s),
                                        sc_values := drop (length (sc_requests s)) (sc_values s)\<rparr>) \<and>
     (\<forall>c. conn_out t' c = conn_out t c @ granted (sc_requests s) (sc_values s) c)"
  using assms
proof (induction fuel arbitrary: t s)
  case (Suc n)
  show ?case
  proof (cases "sc_requests s = [] \<or> sc_values s = []")
    case True
    then show ?thesis using Suc.prems(1) by (auto simp: granted_def split: list.splits)
  next
    case False
    then obtain p q c reqs v vals where rv: "sc_requests s = (p, q, c) # reqs" "sc_values s = v # vals"
      by (cases "sc_requests s"; cases "sc_values s") auto
    let ?s = "s\<lparr>sc_requests := reqs, sc_values := vals\<rparr>"
    let ?t = "set_sched k ?s t"
    have same: "writable env ?t = writable env t" "pending_at ?t = pending_at t" "conn_out ?t = conn_out t"
      by (auto simp: fun_eq_iff writable_def pending_at_def conn_out_def)
    obtain t1 where t1: "bindO (request_cb env (tracker_close (sched_loop n env)) c (value_tail v) ?t) (\<lambda>b t1. settle k v b t1) = (Inr (), t1)"
      "tr_scheds t1 = tr_scheds ?t" "\<forall>d. conn_out t1 d = (if d = c then conn_out t d @ frame (grant v) else conn_out t d)"
      "\<forall>d. writable env t1 d = writable env t d" "\<forall>w. res_key w \<noteq> res_key v \<longrightarrow> pending_at t w \<longrightarrow> pending_at t1 w"
      using one_grant [of env ?t c v "tracker_close (sched_loop n env)" k] Suc.prems(2,3) rv same by auto
    have k1: "map_of (tr_scheds t1) k = Some ?s" using t1(2) by (simp add: update_conv)
    have "pending_at t1 w" if "w \<in> set vals" for w
    proof -
      have "res_key v \<notin> res_key ` set vals" using Suc.prems(4) rv by simp
      then have "res_key w \<noteq> res_key v" using that by (metis image_eqI)
      moreover have "pending_at t w" using Suc.prems(3) rv that by (simp add: list_all_iff)
      ultimately show ?thesis using t1(5) by blast
    qed
    then have "list_all (pending_at t1) (sc_values ?s)" by (simp add: list_all_iff)
    with k1 obtain t' where t': "sched_loop n env k t1 = (Inr (), t')"
      "map_of (tr_scheds t') k = Some (?s\<lparr>sc_requests := drop (length (sc_values ?s)) (sc_requests ?s),
                                        sc_values := drop (length (sc_requests ?s)) (sc_values ?s)\<rparr>)"
      "\<forall>c. conn_out t' c = conn_out t1 c @ granted (sc_requests ?s) (sc_values ?s) c"
      using Suc.IH [of t1 ?s] Suc.prems(2,4,5) rv t1(4) by auto
    obtain rb t0 where cb: "request_cb env (tracker_close (sched_loop n env)) c (value_tail v) ?t = (rb, t0)"
      by (cases "request_cb env (tracker_close (sched_loop n env)) c (value_tail v) ?t")
    have "sched_loop (Suc n) env k t = (Inr (), t')"
      using Suc.prems(1) rv t1(1) t'(1) cb by (cases rb) auto
    moreover have "conn_out t' d = conn_out t d @ granted (sc_requests s) (sc_values s) d" for d
      using t'(3) t1(3) rv by (simp add: granted_def)
    ultimately show ?thesis using t'(2) rv by auto
  qed
qed simp

end
