(* ===== verification/RPC_Framing.thy ===== *)
theory RPC_Framing
  imports RPC_Scheduling
begin

section \<open>Framing of the tracker's messages\<close>

text \<open>
  The tracker handles the messages of a connection one after the other, however the network splits the
  bytes.  The handlers neither read nor write the receive buffer of a connection, which is shown for every
  operation, so a handler can be moved before bytes that arrive after it.
\<close>

subsection \<open>Operations that do not see the receive buffer\<close>

definition buffered :: "conn_id \<Rightarrow> string \<Rightarrow> int \<Rightarrow> nat \<Rightarrow> tracker \<Rightarrow> tracker" where
  "buffered c d m i t = set_conn c (\<lambda>s. s\<lparr>cn_data := d, cn_msg_size := m, cn_init_req := i\<rparr>) t"

definition blind :: "(tracker \<Rightarrow> (tracker, 'a) outcome) \<Rightarrow> bool" where
  "blind f \<longleftrightarrow> (\<forall>c d m i t. f (buffered c d m i t) = apsnd (buffered c d m i) (f t))"

lemma buffered_reads [simp]:
  "tr_active (buffered c d m i t) = tr_active t" "tr_scheds (buffered c d m i t) = tr_scheds t"
  "tr_stop_key (buffered c d m i t) = tr_stop_key t" "tr_listening (buffered c d m i t) = tr_listening t"
  "cn_open (tr_conn (buffered c d m i t) e) = cn_open (tr_conn t e)"
  "cn_addr (tr_conn (buffered c d m i t) e) = cn_addr (tr_conn t e)"
  "cn_info (tr_conn (buffered c d m i t) e) = cn_info (tr_conn t e)"
  "cn_matchkeys (tr_conn (buffered c d m i t) e) = cn_matchkeys (tr_conn t e)"
  "cn_put_values (tr_conn (buffered c d m i t) e) = cn_put_values (tr_conn t e)"
  "cn_pending_write (tr_conn (buffered c d m i t) e) = cn_pending_write (tr_conn t e)"
  "cn_signal_close (tr_conn (buffered c d m i t) e) = cn_signal_close (tr_conn t e)"
  "cn_sent (tr_conn (buffered c d m i t) e) = cn_sent (tr_conn t e)"
  "cn_nsend (tr_conn (buffered c d m i t) e) = cn_nsend (tr_conn t e)"
  "waiting (buffered c d m i t) = waiting t"
  by (simp_all add: buffered_def)

lemma buffered_writes [simp]:
  "set_sched k s (buffered c d m i t) = buffered c d m i (set_sched k s t)"
  "(buffered c d m i t)\<lparr>tr_active := a\<rparr> = buffered c d m i (t\<lparr>tr_active := a\<rparr>)"
  "(buffered c d m i t)\<lparr>tr_listening := b\<rparr> = buffered c d m i (t\<lparr>tr_listening := b\<rparr>)"
  by (simp_all add: buffered_def set_conn_def set_sched_def)

lemma buffered_set_conn:
  assumes "\<forall>s. f (s\<lparr>cn_data := d, cn_msg_size := m, cn_init_req := i\<rparr>) = (f s)\<lparr>cn_data := d, cn_msg_size := m, cn_init_req := i\<rparr>"
  shows "set_conn e f (buffered c d m i t) = buffered c d m i (set_conn e f t)"
  using assms by (cases "e = c") (simp_all add: buffered_def set_conn_def fun_upd_twist)

lemma blindD: "blind f \<Longrightarrow> f (buffered c d m i t) = apsnd (buffered c d m i) (f t)"
  unfolding blind_def by blast

lemma blind_bindO:
  assumes "blind m" and "\<And>x. blind (f x)"
  shows "blind (\<lambda>t. bindO (m t) f)"
  unfolding blind_def
proof (intro allI)
  fix c d sz i t
  obtain r t1 where "m t = (r, t1)" by (cases "m t")
  then show "bindO (m (buffered c d sz i t)) f = apsnd (buffered c d sz i) (bindO (m t) f)"
    using blindD [OF assms(1)] blindD [OF assms(2)] by (cases r) simp_all
qed

lemma blind_foldO: "(\<And>x. blind (f x)) \<Longrightarrow> blind (foldO f xs)"
proof (induction xs)
  case (Cons x xs)
  have "blind (\<lambda>t. bindO (f x t) (\<lambda>_. foldO f xs))" using Cons by (intro blind_bindO) auto
  then show ?case by (simp add: blind_def)
qed (simp add: blind_def)

lemma blind_return: "blind (\<lambda>t. (r, t))"
  by (simp add: blind_def)

lemma blind_if: "(\<And>c d m i t. b (buffered c d m i t) = b t) \<Longrightarrow> blind f \<Longrightarrow> blind g \<Longrightarrow> blind (\<lambda>t. if b t then f t else g t)"
  by (simp add: blind_def)

lemma blind_case_res:
  "(\<And>e. blind (f e)) \<Longrightarrow> (\<And>x. blind (g x)) \<Longrightarrow> blind (\<lambda>t. case r of Inl e \<Rightarrow> f e t | Inr x \<Rightarrow> g x t)"
  by (cases r) auto

lemma blind_set_conn:
  assumes "\<forall>d m i s. f (s\<lparr>cn_data := d, cn_msg_size := m, cn_init_req := i\<rparr>) = (f s)\<lparr>cn_data := d, cn_msg_size := m, cn_init_req := i\<rparr>"
    and "blind g"
  shows "blind (\<lambda>t. g (set_conn e f t))"
proof -
  have "set_conn e f (buffered c d m i t) = buffered c d m i (set_conn e f t)" for c d m i t
    using assms(1) by (intro buffered_set_conn) blast
  then show ?thesis using blindD [OF assms(2)] by (simp add: blind_def)
qed

lemma blind_sched_remove: "blind (rs k) \<Longrightarrow> blind (sched_remove rs k v)"
  unfolding blind_def sched_remove_def by (auto split: option.splits)

lemma blind_tracker_close:
  assumes "\<And>k. blind (rs k)"
  shows "blind (tracker_close rs c)"
proof -
  have "blind (foldO (sched_remove rs k) vs)" for k vs
    by (rule blind_foldO) (rule blind_sched_remove [OF assms])
  then show ?thesis
    unfolding blind_def tracker_close_def by (auto simp: Let_def split: option.splits sum.splits)
qed

lemma blind_conn_close:
  assumes "\<And>c. blind (oc c)"
  shows "blind (conn_close oc c)"
proof -
  have "blind (\<lambda>t. oc c (set_conn c (\<lambda>s. s\<lparr>cn_open := False\<rparr>) t))" by (intro blind_set_conn assms) simp
  then show ?thesis unfolding conn_close_def by (intro blind_if blind_return) simp_all
qed

lemma blind_update_write:
  assumes "\<And>c. blind (oc c)"
  shows "blind (update_write env oc c)"
proof -
  have "blind (\<lambda>t. conn_close oc c (set_conn c (\<lambda>s. s\<lparr>cn_pending_write := ms, cn_sent := b, cn_nsend := n\<rparr>) t))" for ms b n
    by (intro blind_set_conn blind_conn_close assms) simp
  moreover have "blind (\<lambda>t. (r, set_conn c (\<lambda>s. s\<lparr>cn_pending_write := ms, cn_sent := b, cn_nsend := n\<rparr>) t))" for r :: "unit res" and ms b n
    by (intro blind_set_conn [where g = "\<lambda>t. (r, t)"] blind_return) simp
  ultimately show ?thesis
    unfolding blind_def update_write_def by (auto simp: Let_def split: prod.splits flush_end.splits)
qed

lemma blind_write_message:
  assumes "\<And>c. blind (oc c)"
  shows "blind (write_message env oc c msg)"
  unfolding write_message_def
  by (intro blind_if blind_return blind_set_conn blind_update_write assms) simp_all

lemma blind_ret_value:
  assumes "\<And>c. blind (oc c)"
  shows "blind (ret_value env oc c v)"
  unfolding ret_value_def by (intro blind_case_res blind_return blind_bindO blind_write_message assms)

lemma blind_request_cb:
  assumes "\<And>c. blind (oc c)"
  shows "blind (request_cb env oc c w)"
proof -
  have "request_cb env oc c w (buffered e d m i t) = apsnd (buffered e d m i) (request_cb env oc c w t)" for e d m i t
  proof (cases "ret_value env oc c (JArr [JNum (code_num TC_SUCCESS), JArr w]) t")
    case (Pair r t1)
    then show ?thesis using blindD [OF blind_ret_value [OF assms]] by (cases r) (simp_all add: request_cb_def)
  qed
  then show ?thesis by (simp add: blind_def)
qed

lemma blind_settle: "blind (settle k v b)"
proof -
  have "blind (consume v)"
  proof (cases v)
    case (fields c host port mk)
    have "blind (\<lambda>t. (Inr () :: unit res, set_conn c (\<lambda>s. s\<lparr>cn_matchkeys := filter (\<lambda>m. hash_key m \<noteq> hash_key mk) (cn_matchkeys s)\<rparr>) t))"
      by (intro blind_set_conn [where g = "\<lambda>t. (Inr (), t)"] blind_return) simp
    then show ?thesis unfolding fields consume_def prod.case by (intro blind_if blind_return) simp_all
  qed
  then show ?thesis unfolding blind_def settle_def by (auto split: option.splits)
qed

lemma blind_sched_loop: "blind (sched_loop n env k)"
proof (induction n arbitrary: k)
  case (Suc n)
  let ?go = "\<lambda>v c t. bindO (request_cb env (tracker_close (sched_loop n env)) c (value_tail v) t)
      (\<lambda>b t1. bindO (settle k v b t1) (\<lambda>_. sched_loop n env k))"
  have go: "blind (?go v c)" for v c
    by (intro blind_bindO blind_request_cb blind_tracker_close blind_settle Suc.IH)
  show ?case unfolding blind_def
  proof (intro allI)
    fix c d m i t
    show "sched_loop (Suc n) env k (buffered c d m i t) = apsnd (buffered c d m i) (sched_loop (Suc n) env k t)"
    proof (cases "map_of (tr_scheds t) k")
      case (Some s)
      show ?thesis
      proof (cases "sc_requests s = [] \<or> sc_values s = []")
        case True
        then show ?thesis using Some by (cases "sc_requests s") (auto split: prod.split)
      next
        case False
        then obtain p n' e rs v vs where "sc_requests s = (p, n', e) # rs" "sc_values s = v # vs"
          by (cases "sc_requests s"; cases "sc_values s") auto
        then show ?thesis using Some blindD [OF go] by simp
      qed
    qed simp
  qed
qed (simp add: blind_def)

lemma blind_schedule: "blind (schedule env k)"
  using blindD [OF blind_sched_loop] by (simp add: blind_def schedule_def del: sched_loop.simps)

lemma blind_on_close: "blind (on_close env c)"
  unfolding on_close_def by (intro blind_tracker_close blind_schedule)

lemma blind_reply: "blind (reply env c v)"
  unfolding reply_def by (intro blind_ret_value blind_on_close)


text \<open>A part of the state that the buffer does not change may be read.\<close>

lemma blind_read:
  assumes "\<forall>c d m i t. x (buffered c d m i t) = x t" and "\<And>y. blind (f y)"
  shows "blind (\<lambda>t. f (x t) t)"
  using assms(1) blindD [OF assms(2)] by (simp add: blind_def)

lemma blind_ensure_sched:
  "ensure_sched key k (buffered c d m i t) = buffered c d m i (ensure_sched key k t)"
  by (simp add: ensure_sched_def)

lemma blind_tracker_put: "blind (tracker_put env key v)"
proof -
  have "blind (\<lambda>t. let t1 = ensure_sched key k t; s = the (map_of (tr_scheds t1) k)
          in schedule env k (set_sched k (s\<lparr>sc_values := sc_values s @ [v]\<rparr>) t1))" for k
    using blindD [OF blind_schedule] by (simp add: blind_def Let_def blind_ensure_sched)
  then show ?thesis unfolding tracker_put_def [abs_def] by (intro blind_case_res blind_return)
qed

lemma blind_tracker_request: "blind (tracker_request env key p c)"
proof -
  have "blind (\<lambda>t. let t1 = ensure_sched key k t; s = the (map_of (tr_scheds t1) k)
          in case json_num p of
               None \<Rightarrow> (Inl TypeError, t1)
             | Some q \<Rightarrow>
                 schedule env k (set_sched k (s\<lparr>sc_requests := insort (- q, sc_cnt s, c) (sc_requests s),
                                                sc_cnt := Suc (sc_cnt s)\<rparr>) t1))" for k
    using blindD [OF blind_schedule] by (cases "json_num p") (simp_all add: blind_def Let_def blind_ensure_sched)
  then show ?thesis unfolding tracker_request_def [abs_def] by (intro blind_case_res blind_return)
qed

lemma blind_handle_put: "blind (handle_put env c args)"
  unfolding blind_def
proof (intro allI)
  fix e d m i t
  let ?put = "\<lambda>key v t. bindO (tracker_put env key v t) (\<lambda>_ t2. reply env c (code_json TC_SUCCESS)
               (set_conn c (\<lambda>s. s\<lparr>cn_put_values := cn_put_values s @ [v]\<rparr>) t2))"
  have put: "blind (?put key v)" for key v
    by (intro blind_bindO blind_tracker_put blind_set_conn blind_reply) simp
  have add: "set_conn c (\<lambda>s. s\<lparr>cn_matchkeys := add_matchkey mk (cn_matchkeys s)\<rparr>) (buffered e d m i t) =
      buffered e d m i (set_conn c (\<lambda>s. s\<lparr>cn_matchkeys := add_matchkey mk (cn_matchkeys s)\<rparr>) t)" for mk
    by (rule buffered_set_conn) simp
  let ?args = "bindE (py_get args 1) (\<lambda>key. bindE (py_get args 2) (\<lambda>pm. bindE (unpack2 pm) (\<lambda>(port, matchkey).
             bindE (hash_key matchkey) (\<lambda>_. Inr (key, port, matchkey)))))"
  let ?host = "if length args \<ge> 4 \<and> args ! 3 \<noteq> JNull then Inr (args ! 3) else py_get (cn_addr (tr_conn t c)) 0"
  show "handle_put env c args (buffered e d m i t) = apsnd (buffered e d m i) (handle_put env c args t)"
  proof (cases ?args)
    case (Inl err)
    then show ?thesis by (simp add: handle_put_def)
  next
    case (Inr a)
    obtain key port mk where a: "a = (key, port, mk)" by (cases a)
    show ?thesis
    proof (cases ?host)
      case h: (Inl err)
      show ?thesis unfolding handle_put_def Inr a sum.case prod.case Let_def add buffered_reads h by simp
    next
      case h: (Inr host)
      show ?thesis unfolding handle_put_def Inr a sum.case prod.case Let_def add buffered_reads h
        by (rule blindD [OF put])
    qed
  qed
qed

lemma blind_handle_request: "blind (handle_request env c args)"
  unfolding handle_request_def [abs_def]
  by (intro blind_case_res blind_return) (auto intro: blind_tracker_request split: prod.split)

lemma blind_tracker_stop: "blind (tracker_stop env)"
proof -
  let ?f = "\<lambda>xs t. bindO (foldO (conn_close (on_close env)) xs t) (\<lambda>_ t1. (Inr (), t1\<lparr>tr_listening := False\<rparr>))"
  have stop: "blind (\<lambda>t. (Inr () :: unit res, t\<lparr>tr_listening := False\<rparr>))" by (simp add: blind_def)
  have "blind (foldO (conn_close (on_close env)) xs)" for xs
    by (rule blind_foldO) (rule blind_conn_close, rule blind_on_close)
  then have "blind (?f xs)" for xs by (rule blind_bindO) (rule stop)
  then show ?thesis unfolding tracker_stop_def [abs_def]
    by (rule blind_read [where x = "\<lambda>t. ne_conn_order env (tr_active t)" and f = ?f, rotated]) simp
qed

lemma blind_handle_stop: "blind (handle_stop env c args)"
  unfolding handle_stop_def [abs_def]
  by (intro blind_case_res blind_return blind_if blind_bindO blind_reply blind_tracker_stop) simp

lemma blind_handle_update_info: "blind (handle_update_info env c args)"
proof -
  have one: "blind (\<lambda>t. bindO (r, set_conn c (\<lambda>s. s\<lparr>cn_info := info\<rparr>) t) (\<lambda>_. reply env c (code_json TC_SUCCESS)))"
    for r :: "unit res" and info
    by (rule blind_set_conn [where g = "\<lambda>t. bindO (r, t) (\<lambda>_. reply env c (code_json TC_SUCCESS))"])
      (simp, intro blind_bindO blind_return blind_reply)
  have "blind (\<lambda>t. (\<lambda>(r, info) t. bindO (r, set_conn c (\<lambda>s. s\<lparr>cn_info := info\<rparr>) t) (\<lambda>_. reply env c (code_json TC_SUCCESS)))
      (info_update arg (cn_info (tr_conn t c))) t)" for arg
    by (rule blind_read [where x = "\<lambda>t. info_update arg (cn_info (tr_conn t c))"]) (use one in \<open>auto split: prod.split\<close>)
  then show ?thesis unfolding handle_update_info_def [abs_def]
    by (intro blind_case_res blind_return) (simp add: case_prod_unfold)
qed

lemma tracker_summary_buffered: "tracker_summary env (buffered c d m i t) = tracker_summary env t"
  by (simp add: tracker_summary_def)

lemma blind_call_handler: "blind (call_handler env c msg)"
proof -
  have close: "blind (conn_close (on_close env) c)" by (intro blind_conn_close blind_on_close)
  have keys: "blind (\<lambda>t. reply env c (JArr (ne_key_order env (cn_matchkeys (tr_conn t c)))) t)"
    by (rule blind_read [where x = "\<lambda>t. JArr (ne_key_order env (cn_matchkeys (tr_conn t c)))" and f = "reply env c"])
      (simp_all add: blind_reply)
  have summary: "blind (\<lambda>t. case tracker_summary env t of Inl e \<Rightarrow> (Inl e, t)
                     | Inr status \<Rightarrow> reply env c (JArr [code_json TC_SUCCESS, status]) t)"
    by (rule blind_read [where x = "tracker_summary env" and f = "\<lambda>r t. case r of Inl e \<Rightarrow> (Inl e, t)
                     | Inr status \<Rightarrow> reply env c (JArr [code_json TC_SUCCESS, status]) t"])
      (simp add: tracker_summary_buffered, intro blind_case_res blind_return blind_reply)
  show ?thesis
  proof (cases msg)
    case (JArr args)
    then show ?thesis
      by (cases args)
        (auto simp: call_handler_def [abs_def] Let_def blind_return blind_handle_put blind_handle_request blind_reply
          keys blind_handle_stop blind_handle_update_info summary close intro!: blind_if)
  qed (auto simp: call_handler_def [abs_def] blind_return close intro!: blind_if)
qed


subsection \<open>Messages in arbitrary pieces\<close>

text \<open>Messages that the protocol can carry.\<close>

definition sendable :: "json \<Rightarrow> bool" where
  "sendable v \<longleftrightarrow> json_ok v \<and> length (dumps v) < 2 ^ 31"

lemma frame_parts:
  assumes "sendable v"
  shows "\<exists>hdr. frame v = hdr @ dumps v \<and> length hdr = 4 \<and> unpack_i hdr = Inr (int (length (dumps v))) \<and> dumps v \<noteq> []"
proof -
  obtain hdr where "pack_i (int (length (dumps v))) = Inr hdr"
    using assms pack_i_ok [of "int (length (dumps v))"] by (auto simp: sendable_def)
  then show ?thesis using unpack_pack_i assms dumps_not_Nil by (auto simp: frame_def sendable_def)
qed

text \<open>The remembered message size is zero or the one at the front of the buffer.\<close>

definition size_ok :: "string \<Rightarrow> int \<Rightarrow> bool" where
  "size_ok d m \<longleftrightarrow> m = 0 \<or> 4 \<le> length d \<and> unpack_i (take 4 d) = Inr m"

lemma set_conn_comp: "set_conn c f (set_conn c g t) = set_conn c (\<lambda>s. f (g s)) t"
  by (simp add: set_conn_def)

lemma set_conn_ext: "(\<forall>s. f s = g s) \<Longrightarrow> set_conn c f t = set_conn c g t"
  by (simp add: set_conn_def)

lemma buffered_fields [simp]:
  "cn_data (tr_conn (buffered c d m i t) c) = d" "cn_msg_size (tr_conn (buffered c d m i t) c) = m"
  "cn_init_req (tr_conn (buffered c d m i t) c) = i"
  "set_conn c (\<lambda>s. s\<lparr>cn_msg_size := m'\<rparr>) (buffered c d m i t) = buffered c d m' i t"
  "set_conn c (\<lambda>s. s\<lparr>cn_data := d', cn_msg_size := m'\<rparr>) (buffered c d m i t) = buffered c d' m' i t"
  "set_conn c (\<lambda>s. s\<lparr>cn_data := cn_data s @ e\<rparr>) (buffered c d m i t) = buffered c (d @ e) m i t"
  unfolding buffered_def set_conn_comp
  by (simp_all, (intro set_conn_ext; simp)+)

text \<open>What the loop leaves behind: the messages handled, and a rest shorter than the next message.\<close>

definition split_at :: "net_env \<Rightarrow> conn_id \<Rightarrow> json list \<Rightarrow> string \<Rightarrow> tracker \<Rightarrow> (tracker, unit) outcome \<Rightarrow> bool" where
  "split_at env c vs rest t out \<longleftrightarrow>
     (\<exists>vs1 vs2 t1 d m. vs = vs1 @ vs2 \<and> foldO (call_handler env c) vs1 t = (Inr (), t1) \<and>
        out = (Inr (), buffered c d m 0 t1) \<and> d @ rest = concat (map frame vs2) \<and> size_ok d m \<and>
        (vs2 \<noteq> [] \<longrightarrow> length d < length (frame (hd vs2))))"

lemma split_at_stop:
  assumes "d @ rest = concat (map frame vs)" "size_ok d m" "vs \<noteq> [] \<longrightarrow> length d < length (frame (hd vs))"
  shows "split_at env c vs rest t (Inr (), buffered c d m 0 t)"
  unfolding split_at_def using assms by (intro exI [of _ "[]"] exI [of _ vs] exI [of _ t] exI [of _ d] exI [of _ m]) simp

lemma split_at_step:
  assumes "call_handler env c v t = (Inr (), t1)" "split_at env c vs rest t1 out"
  shows "split_at env c (v # vs) rest t out"
proof -
  obtain vs1 vs2 t2 d m where "vs = vs1 @ vs2" "foldO (call_handler env c) vs1 t1 = (Inr (), t2)"
    "out = (Inr (), buffered c d m 0 t2)" "d @ rest = concat (map frame vs2)" "size_ok d m"
    "vs2 \<noteq> [] \<longrightarrow> length d < length (frame (hd vs2))"
    using assms(2) unfolding split_at_def by blast
  then show ?thesis unfolding split_at_def
    by (intro exI [of _ "v # vs1"] exI [of _ vs2] exI [of _ t2] exI [of _ d] exI [of _ m]) (simp add: assms(1))
qed

lemma msg_loop_step:
  assumes "\<not> (m = 0 \<and> length d < 4)" "(if m = 0 then unpack_i (take 4 d) else Inr m) = Inr sz"
  shows "msg_loop (Suc n) env c (buffered c d m i t) =
     (if sz \<noteq> 0 \<and> int (length d) \<ge> sz + 4 then
        (case py_str (take (slice_end (4 + sz) (length d) - 4) (drop 4 d)) of
           Inl e \<Rightarrow> (Inl e, buffered c d sz i t)
         | Inr msg \<Rightarrow>
             (case loads msg of
                Inl e \<Rightarrow> (Inl e, buffered c (drop (slice_end (4 + sz) (length d)) d) 0 i t)
              | Inr v \<Rightarrow> bindO (call_handler env c v (buffered c (drop (slice_end (4 + sz) (length d)) d) 0 i t))
                           (\<lambda>_. msg_loop n env c)))
      else (Inr (), buffered c d sz i t))"
  unfolding msg_loop.simps Let_def buffered_fields assms(2) using assms(1) by auto

lemma msg_loop_frames:
  assumes "\<forall>v \<in> set vs. sendable v" "foldO (call_handler env c) vs t = (Inr (), t')"
    and "d @ rest = concat (map frame vs)" "size_ok d m" "length d < n"
  shows "split_at env c vs rest t (msg_loop n env c (buffered c d m 0 t))"
  using assms
proof (induction n arbitrary: vs t d m)
  case (Suc n)
  show ?case
  proof (cases vs)
    case Nil
    then have "d = []" "m = 0" using Suc.prems(3,4) by (auto simp: size_ok_def)
    then show ?thesis using split_at_stop [OF Suc.prems(3,4)] Nil by (simp add: Let_def)
  next
    case (Cons v vs')
    obtain hdr where hdr: "frame v = hdr @ dumps v" "length hdr = 4"
      "unpack_i hdr = Inr (int (length (dumps v)))" "dumps v \<noteq> []"
      using frame_parts [of v] Suc.prems(1) Cons by auto
    let ?L = "int (length (dumps v))"
    have all: "d @ rest = hdr @ dumps v @ concat (map frame vs')" using Suc.prems(3) Cons hdr(1) by simp
    show ?thesis
    proof (cases "m = 0 \<and> length d < 4")
      case True
      then have "msg_loop (Suc n) env c (buffered c d m 0 t) = (Inr (), buffered c d m 0 t)"
        by (simp add: Let_def)
      then show ?thesis using split_at_stop [OF Suc.prems(3,4)] True Cons hdr by simp
    next
      case False
      then have "4 \<le> length d" using Suc.prems(4) by (auto simp: size_ok_def)
      then have "take 4 d = hdr"
        using arg_cong [OF all, of "take 4"] hdr(2) by simp
      then have size: "(if m = 0 then unpack_i (take 4 d) else Inr m) = Inr ?L"
        using hdr(3) Suc.prems(4) by (auto simp: size_ok_def)
      have ok: "size_ok d ?L" using \<open>take 4 d = hdr\<close> \<open>4 \<le> length d\<close> hdr(3) by (simp add: size_ok_def)
      show ?thesis
      proof (cases "?L + 4 \<le> int (length d)")
        case short: False
        then have "msg_loop (Suc n) env c (buffered c d m 0 t) = (Inr (), buffered c d ?L 0 t)"
          unfolding msg_loop_step [OF False size] by simp
        then show ?thesis using split_at_stop [OF Suc.prems(3) ok] short Cons hdr by simp
      next
        case full: True
        let ?d = "drop (4 + length (dumps v)) d"
        have stop: "slice_end (4 + ?L) (length d) = 4 + length (dumps v)"
          using full by (simp add: slice_end_def nat_add_distrib)
        have body: "take (length (dumps v)) (drop 4 d) = dumps v" and rest: "?d @ rest = concat (map frame vs')"
        proof -
          have "drop 4 d @ rest = dumps v @ concat (map frame vs')"
            using arg_cong [OF all, of "drop 4"] hdr(2) \<open>4 \<le> length d\<close> by simp
          from arg_cong [OF this, of "take (length (dumps v))"] show "take (length (dumps v)) (drop 4 d) = dumps v"
            using full by simp
          show "?d @ rest = concat (map frame vs')"
            using arg_cong [OF all, of "drop (4 + length (dumps v))"] hdr(2) full by simp
        qed
        obtain t1 where t1: "call_handler env c v t = (Inr (), t1)"
          "foldO (call_handler env c) vs' t1 = (Inr (), t')"
          using Suc.prems(2) Cons by (auto simp: bindO_eq_Inr)
        have v: "py_str (dumps v) = Inr (dumps v)" "loads (dumps v) = Inr v"
          using Suc.prems(1) Cons by (auto simp: sendable_def py_str_ascii ascii_dumps loads_dumps)
        have step: "msg_loop (Suc n) env c (buffered c d m 0 t) = msg_loop n env c (buffered c ?d 0 0 t1)"
          unfolding msg_loop_step [OF False size] stop
          using full body v blindD [OF blind_call_handler, of env c v c ?d 0 0 t] t1(1) hdr(4) by simp
        have "split_at env c vs' rest t1 (msg_loop n env c (buffered c ?d 0 0 t1))"
          using Suc.prems(1,5) Cons full by (intro Suc.IH [OF _ t1(2) rest]) (auto simp: size_ok_def)
        then show ?thesis unfolding step Cons by (rule split_at_step [OF t1(1)])
      qed
    qed
  qed
qed simp


lemma on_message_buffered:
  "on_message env c e (buffered c d m 0 t) = msg_loop (Suc (length (d @ e))) env c (buffered c (d @ e) m 0 t)"
  by (simp add: on_message_def Let_def del: msg_loop.simps)

lemma size_ok_append: "size_ok d m \<Longrightarrow> size_ok (d @ e) m"
  by (auto simp: size_ok_def)

lemma foldO_append: "foldO f (xs @ ys) s = bindO (foldO f xs s) (\<lambda>_. foldO f ys)"
proof (induction xs arbitrary: s)
  case (Cons x xs)
  obtain r s1 where "f x s = (r, s1)" by (cases "f x s")
  then show ?case using Cons by (cases r) simp_all
qed simp

lemma on_messages_frames:
  assumes "\<forall>v \<in> set vs. sendable v" "foldO (call_handler env c) vs t = (Inr (), t')"
    and "d @ concat chunks = concat (map frame vs)" "size_ok d m"
    and "vs \<noteq> [] \<longrightarrow> length d < length (frame (hd vs))"
  shows "foldO (on_message env c) chunks (buffered c d m 0 t) = (Inr (), buffered c [] 0 0 t')"
  using assms
proof (induction chunks arbitrary: vs t d m)
  case Nil
  have "vs = []"
  proof (rule ccontr)
    assume "vs \<noteq> []"
    then have "length (frame (hd vs)) \<le> length d" using Nil.prems(3) by (cases vs) auto
    then show False using Nil.prems(5) \<open>vs \<noteq> []\<close> by simp
  qed
  then show ?case using Nil.prems by (auto simp: size_ok_def)
next
  case (Cons e chunks)
  have "split_at env c vs (concat chunks) t (msg_loop (Suc (length (d @ e))) env c (buffered c (d @ e) m 0 t))"
    using Cons.prems(3) by (intro msg_loop_frames [OF Cons.prems(1,2) _ size_ok_append [OF Cons.prems(4)]]) simp_all
  then obtain vs1 vs2 t1 d1 m1 where s: "vs = vs1 @ vs2" "foldO (call_handler env c) vs1 t = (Inr (), t1)"
    "msg_loop (Suc (length (d @ e))) env c (buffered c (d @ e) m 0 t) = (Inr (), buffered c d1 m1 0 t1)"
    "d1 @ concat chunks = concat (map frame vs2)" "size_ok d1 m1"
    "vs2 \<noteq> [] \<longrightarrow> length d1 < length (frame (hd vs2))"
    unfolding split_at_def by blast
  have "foldO (call_handler env c) vs2 t1 = (Inr (), t')"
    using Cons.prems(2) s(1,2) by (simp add: foldO_append)
  then show ?case
    using Cons.IH [OF _ _ s(4,5,6)] Cons.prems(1) s(1,3) by (simp add: on_message_buffered del: msg_loop.simps)
qed

lemma buffered_fresh:
  assumes "cn_data (tr_conn t c) = []" "cn_msg_size (tr_conn t c) = 0" "cn_init_req (tr_conn t c) = 0"
  shows "buffered c [] 0 0 t = t"
  using assms by (cases t) (simp add: buffered_def set_conn_def fun_eq_iff)

text \<open>
  [C6] Messages in pieces.  Whatever the sizes of the pieces in which the bytes of a sequence of messages
  arrive at a connection after its handshake, reading the pieces one after the other has the same effect as
  calling the handler on the messages in order, and leaves an empty buffer; no message is lost, merged or
  handled twice.
\<close>

theorem messages_in_pieces:
  assumes "\<forall>v \<in> set vs. sendable v" and "concat chunks = concat (map frame vs)"
    and "cn_data (tr_conn t c) = []" "cn_msg_size (tr_conn t c) = 0" "cn_init_req (tr_conn t c) = 0"
    and "foldO (call_handler env c) vs t = (Inr (), t')"
  shows "foldO (on_message env c) chunks t = (Inr (), t')"
proof -
  have t: "buffered c [] 0 0 t = t" by (rule buffered_fresh [OF assms(3-5)])
  have "blind (foldO (call_handler env c) vs)" by (intro blind_foldO blind_call_handler)
  from blindD [OF this, of c "[]" 0 0 t] have t': "buffered c [] 0 0 t' = t'" using assms(6) t by simp
  have "frame v \<noteq> []" if "v \<in> set vs" for v using frame_parts [of v] that assms(1) by auto
  then have "vs \<noteq> [] \<longrightarrow> length ([] :: string) < length (frame (hd vs))" by (cases vs) auto
  then have "foldO (on_message env c) chunks (buffered c [] 0 0 t) = (Inr (), buffered c [] 0 0 t')"
    using assms(2) by (intro on_messages_frames [OF assms(1,6)]) (simp_all add: size_ok_def)
  then show ?thesis using t t' by simp
qed

definition demo_net :: net_env where
  "demo_net = \<lparr>ne_send = (\<lambda>c n. Sent 3), ne_conn_order = id, ne_key_order = id\<rparr>"

definition demo_tracker :: tracker where
  "demo_tracker = set_conn 0 (\<lambda>s. s\<lparr>cn_init_req := 0\<rparr>) (tracker_accept [JStr ''host'', JNum 9090] (mk_tracker ''stop''))"

definition demo_ping :: json where
  "demo_ping = JArr [JNum (code_num TC_PING)]"

lemma demo_sendable: "sendable demo_ping"
proof -
  have "length (dumps demo_ping) = 3" by code_simp
  then show ?thesis by (simp add: sendable_def demo_ping_def)
qed

lemma demo_ping_works:
  assumes "writable demo_net t 0"
  shows "\<exists>t'. call_handler demo_net 0 demo_ping t = (Inr (), t') \<and> writable demo_net t' 0"
proof -
  have "length (dumps (code_json TC_SUCCESS)) = 1" by code_simp
  then have "length (dumps (code_json TC_SUCCESS)) < 2 ^ 31" by simp
  from ret_value_works [OF assms this, of "on_close demo_net"] obtain ms b n where
    "reply demo_net 0 (code_json TC_SUCCESS) t =
       (Inr (), set_conn 0 (\<lambda>s. s\<lparr>cn_pending_write := ms, cn_sent := b, cn_nsend := n\<rparr>) t)"
    unfolding reply_def by blast
  then show ?thesis using assms
    by (auto simp: call_handler_def demo_ping_def writable_def set_conn_def)
qed

theorem messages_in_pieces_witness:
  "\<exists>t'. foldO (on_message demo_net 0) [take 3 (frame demo_ping), drop 3 (frame demo_ping) @ frame demo_ping]
          demo_tracker = (Inr (), t') \<and>
        foldO (call_handler demo_net 0) [demo_ping, demo_ping] demo_tracker = (Inr (), t')"
proof -
  have "writable demo_net demo_tracker 0"
    by (simp add: writable_def demo_net_def demo_tracker_def tracker_accept_def mk_tracker_def mk_conn_def set_conn_def)
  then obtain t1 where t1: "call_handler demo_net 0 demo_ping demo_tracker = (Inr (), t1)" "writable demo_net t1 0"
    using demo_ping_works by blast
  obtain t2 where t2: "call_handler demo_net 0 demo_ping t1 = (Inr (), t2)" using demo_ping_works [OF t1(2)] by blast
  have run: "foldO (call_handler demo_net 0) [demo_ping, demo_ping] demo_tracker = (Inr (), t2)"
    using t1 t2 by simp
  have "foldO (on_message demo_net 0) [take 3 (frame demo_ping), drop 3 (frame demo_ping) @ frame demo_ping]
      demo_tracker = (Inr (), t2)"
  proof (rule messages_in_pieces [OF _ _ _ _ _ run])
    show "concat [take 3 (frame demo_ping), drop 3 (frame demo_ping) @ frame demo_ping] =
        concat (map frame [demo_ping, demo_ping])" by (simp flip: append_assoc)
  qed (simp_all add: demo_sendable demo_tracker_def tracker_accept_def mk_tracker_def mk_conn_def set_conn_def)
  then show ?thesis using run by blast
qed

end
