(* ===== verification/RPC_Properties.thy ===== *)
theory RPC_Properties
  imports RPC_Framing
begin

section \<open>What the tracker guarantees\<close>

text \<open>
  The properties of the tracker as a whole, over every reachable state or every sequence of events, and
  a small run that they are applied to: a client connects, sends the magic number and requests a key.
\<close>

subsection \<open>A small run\<close>

definition demo_request :: json where
  "demo_request = JArr [JNum (code_num TC_REQUEST), JStr ''gpu'', JStr ''user'', JNum 1]"

definition demo_magic :: string where
  "demo_magic = (case pack_i rpc_tracker_magic of Inl e \<Rightarrow> [] | Inr b \<Rightarrow> b)"

definition demo_events :: "tracker_event list" where
  "demo_events = [Accept [JStr ''host'', JNum 9090], Readable 0 (Received demo_magic) False,
                  Readable 0 (Received (frame demo_request)) False]"

lemma demo_magic_ok:
  "pack_i rpc_tracker_magic = Inr demo_magic" "unpack_i demo_magic = Inr rpc_tracker_magic" "length demo_magic = 4"
proof -
  show p: "pack_i rpc_tracker_magic = Inr demo_magic"
    using pack_i_ok [of rpc_tracker_magic] by (auto simp: demo_magic_def rpc_tracker_magic_def)
  show "unpack_i demo_magic = Inr rpc_tracker_magic" "length demo_magic = 4" using unpack_pack_i [OF p] by simp_all
qed

lemma demo_request_sendable: "sendable demo_request"
proof -
  have "length (dumps demo_request) < 40" by code_simp
  then show ?thesis by (simp add: sendable_def demo_request_def ascii_def)
qed

abbreviation demo_accepted :: tracker where
  "demo_accepted \<equiv> tracker_accept [JStr ''host'', JNum 9090] (mk_tracker ''stop'')"

lemma demo_handshake:
  "\<exists>t. on_message demo_net 0 demo_magic demo_accepted = (Inr (), t) \<and> cn_open (tr_conn t 0) \<and>
       cn_data (tr_conn t 0) = [] \<and> cn_msg_size (tr_conn t 0) = 0 \<and> cn_init_req (tr_conn t 0) = 0 \<and> tr_scheds t = []"
proof -
  have w: "writable demo_net demo_accepted 0"
    by (simp add: writable_def demo_net_def tracker_accept_def mk_tracker_def mk_conn_def)
  from write_message_works [OF w, of "on_close demo_net" demo_magic] obtain ms b n where
    "write_message demo_net (on_close demo_net) 0 demo_magic demo_accepted =
       (Inr (), set_conn 0 (\<lambda>s. s\<lparr>cn_pending_write := ms, cn_sent := b, cn_nsend := n\<rparr>) demo_accepted)" by blast
  moreover have "cn_init_req (tr_conn demo_accepted 0) = 4"
    by (simp add: tracker_accept_def mk_tracker_def mk_conn_def)
  ultimately have "on_message demo_net 0 demo_magic demo_accepted = (Inr (), set_conn 0 (\<lambda>s. s\<lparr>cn_init_req := 0\<rparr>)
      (set_conn 0 (\<lambda>s. s\<lparr>cn_pending_write := ms, cn_sent := b, cn_nsend := n\<rparr>) demo_accepted))"
    by (simp add: on_message_def init_conn_def demo_magic_ok)
  then show ?thesis
    by (simp add: tracker_accept_def mk_tracker_def mk_conn_def set_conn_def)
qed

lemma demo_request_handled:
  assumes "tr_scheds t = []"
  shows "\<exists>t'. call_handler demo_net 0 demo_request t = (Inr (), t') \<and>
     map_of (tr_scheds t') (HStr ''gpu'') = Some ((mk_sched (JStr ''gpu''))\<lparr>sc_requests := [(- 1, 0, 0)], sc_cnt := 1\<rparr>)"
proof -
  have "call_handler demo_net 0 demo_request t = tracker_request demo_net (JStr ''gpu'') (JNum 1) 0 t"
    by (simp add: call_handler_def demo_request_def handle_request_def py_get_def)
  then show ?thesis using assms
    by (simp add: tracker_request_def ensure_sched_def schedule_def set_sched_def mk_sched_def)
qed

lemma demo_run:
  "\<exists>t. foldO (tracker_step demo_net) demo_events (mk_tracker ''stop'') = (Inr (), t) \<and>
       map_of (tr_scheds t) (HStr ''gpu'') = Some ((mk_sched (JStr ''gpu''))\<lparr>sc_requests := [(- 1, 0, 0)], sc_cnt := 1\<rparr>)"
proof -
  obtain t1 where t1: "on_message demo_net 0 demo_magic demo_accepted = (Inr (), t1)" "cn_open (tr_conn t1 0)"
    "cn_data (tr_conn t1 0) = []" "cn_msg_size (tr_conn t1 0) = 0" "cn_init_req (tr_conn t1 0) = 0" "tr_scheds t1 = []"
    using demo_handshake by blast
  obtain t2 where t2: "call_handler demo_net 0 demo_request t1 = (Inr (), t2)"
    "map_of (tr_scheds t2) (HStr ''gpu'') = Some ((mk_sched (JStr ''gpu''))\<lparr>sc_requests := [(- 1, 0, 0)], sc_cnt := 1\<rparr>)"
    using demo_request_handled [OF t1(6)] by blast
  have ne: "demo_magic \<noteq> []" "frame demo_request \<noteq> []"
    using demo_magic_ok(3) frame_parts [OF demo_request_sendable] by auto
  have "foldO (on_message demo_net 0) [frame demo_request] (buffered 0 [] 0 0 t1) = (Inr (), buffered 0 [] 0 0 t2)"
    using ne(2) t2(1) demo_request_sendable
    by (intro on_messages_frames [where vs = "[demo_request]"]) (simp_all add: size_ok_def)
  then have m2: "on_message demo_net 0 (frame demo_request) t1 = (Inr (), buffered 0 [] 0 0 t2)"
    unfolding buffered_fresh [OF t1(3-5)]
    by (cases "on_message demo_net 0 (frame demo_request) t1") (auto simp: bindO_eq_Inr)
  have "cn_open (tr_conn demo_accepted 0)" by (simp add: tracker_accept_def mk_tracker_def mk_conn_def)
  then have "foldO (tracker_step demo_net) demo_events (mk_tracker ''stop'') = (Inr (), buffered 0 [] 0 0 t2)"
    using t1(1,2) m2 ne by (simp add: demo_events_def tracker_step_def update_read_def Let_def)
  then show ?thesis using t2(2) by simp
qed

text \<open>A second connection, a server with a pending match key, while the request of the first one waits.\<close>

definition demo_resource :: resource where
  "demo_resource = (1, JStr ''host'', JNum 1, JStr ''m'')"

definition demo_waiting :: tracker where
  "demo_waiting = set_sched (HStr ''gpu'') ((mk_sched (JStr ''gpu''))\<lparr>sc_requests := [(- 1, 0, 0)], sc_cnt := 1\<rparr>)
     (set_conn 1 (\<lambda>s. s\<lparr>cn_matchkeys := [JStr ''m'']\<rparr>) (tracker_accept [JStr ''host'', JNum 9091] demo_accepted))"


subsection \<open>Properties\<close>

text \<open>
  [C21] In every state the tracker can reach, whatever the clients send and however the network behaves and
  also after exceptions, the listed connections are exactly the open ones, and the requests waiting for
  a key are held in the order of priority and arrival, with distinct arrival numbers.
\<close>

theorem tracker_invariant_holds:
  assumes "tracker_reach env stop_key t"
  shows "distinct (tr_active t) \<and> (\<forall>c. c \<in> set (tr_active t) \<longleftrightarrow> cn_open (tr_conn t c)) \<and>
         (\<forall>k s. map_of (tr_scheds t) k = Some s \<longrightarrow>
            sorted (sc_requests s) \<and> distinct (map (\<lambda>(p, n, c). n) (sc_requests s)))"
  using tracker_inv.reach_P [OF assms mk_tracker_ok] by (auto simp: tracker_ok_def sched_ok_def)

theorem tracker_invariant_holds_witness:
  "\<exists>t. tracker_reach demo_net ''stop'' t \<and> tr_active t = [0] \<and> cn_open (tr_conn t 0) \<and> \<not> cn_open (tr_conn t 1)"
proof -
  have "tracker_step demo_net (Accept [JStr ''host'', JNum 9090]) (mk_tracker ''stop'') = (Inr (), demo_accepted)"
    by (simp add: tracker_step_def)
  then have r: "tracker_reach demo_net ''stop'' demo_accepted"
    using tracker_reach.step [OF tracker_reach.start] by blast
  moreover have a: "tr_active demo_accepted = [0]" by (simp add: tracker_accept_def mk_tracker_def)
  ultimately show ?thesis using tracker_invariant_holds [OF r] by (intro exI [of _ demo_accepted]) auto
qed



text \<open>
  [C14] After any sequence of events that were handled without an exception, no resource of a key is idle
  while a request for that key waits.
\<close>

theorem tracker_no_idle:
  assumes "foldO (tracker_step env) evs (mk_tracker stop_key) = (Inr (), t)" and "map_of (tr_scheds t) k = Some s"
  shows "sc_values s = [] \<or> sc_requests s = []"
proof -
  have "no_idle (mk_tracker stop_key)" by (simp add: idle_except_def mk_tracker_def)
  with assms(1) have "no_idle t" using fineD [OF fine_foldO [OF fine_tracker_step]] by fastforce
  with assms(2) show ?thesis by (simp add: idle_except_def)
qed

theorem tracker_no_idle_witness:
  "\<exists>t s. foldO (tracker_step demo_net) demo_events (mk_tracker ''stop'') = (Inr (), t) \<and>
         map_of (tr_scheds t) (HStr ''gpu'') = Some s \<and> sc_requests s \<noteq> [] \<and> sc_values s = []"
  using demo_run tracker_no_idle by fastforce

text \<open>
  [C8] Resources go to the first request in the order of priority and arrival.  When a server puts a
  resource under a key for which requests wait, the connection of the first of them (which the
  invariant keeps in front) is sent exactly the reply that grants this resource, the request leaves the
  queue, the resource is not kept, and no other connection is sent anything.
\<close>

theorem put_serves_first:
  assumes "hash_key key = Inr k" "map_of (tr_scheds t) k = Some s"
    and "sc_values s = []" "sc_requests s = (p, n, c) # reqs"
    and "writable env t c" "pending_at t v"
  shows "\<exists>t'. tracker_put env key v t = (Inr (), t') \<and>
     map_of (tr_scheds t') k = Some (s\<lparr>sc_requests := reqs\<rparr>) \<and>
     conn_out t' c = conn_out t c @ frame (grant v) \<and> (\<forall>d. d \<noteq> c \<longrightarrow> conn_out t' d = conn_out t d)"
proof -
  let ?s = "s\<lparr>sc_values := [v]\<rparr>" and ?t = "set_sched k (s\<lparr>sc_values := [v]\<rparr>) t"
  have k: "map_of (tr_scheds ?t) k = Some ?s" by (simp add: update_conv)
  have same: "writable env ?t c" "pending_at ?t v" "conn_out ?t = conn_out t"
    using assms(5,6) by (auto simp: fun_eq_iff writable_def pending_at_def conn_out_def)
  have "length (sc_requests ?s) \<le> waiting ?t"
    unfolding waiting_def using map_of_SomeD [OF k] by (force intro: member_le_sum_list)
  then have "\<exists>t'. sched_loop (Suc (waiting ?t)) env k ?t = (Inr (), t') \<and>
     map_of (tr_scheds t') k = Some (?s\<lparr>sc_requests := drop (length (sc_values ?s)) (sc_requests ?s),
                                        sc_values := drop (length (sc_requests ?s)) (sc_values ?s)\<rparr>) \<and>
     (\<forall>c. conn_out t' c = conn_out ?t c @ granted (sc_requests ?s) (sc_values ?s) c)"
    using same assms(4) by (intro sched_loop_serves [OF k]) simp_all
  moreover have "k \<in> fst ` set (tr_scheds t)" using assms(2) by (metis domI dom_map_of_conv_image_fst)
  ultimately show ?thesis
    using assms(1-4) same(3)
    by (auto simp: tracker_put_def ensure_sched_def schedule_def granted_def Let_def simp del: sched_loop.simps)
qed

theorem put_serves_first_witness:
  "\<exists>t'. tracker_put demo_net (JStr ''gpu'') demo_resource demo_waiting = (Inr (), t') \<and>
     map_of (tr_scheds t') (HStr ''gpu'') = Some ((mk_sched (JStr ''gpu''))\<lparr>sc_cnt := 1\<rparr>) \<and>
     conn_out t' 0 = frame (grant demo_resource) \<and> conn_out t' 1 = []"
proof -
  let ?s = "(mk_sched (JStr ''gpu''))\<lparr>sc_requests := [(- 1, 0, 0)], sc_cnt := 1\<rparr>"
  have "length (dumps (grant demo_resource)) < 40" by code_simp
  then have "pending_at demo_waiting demo_resource"
    by (simp add: pending_at_def demo_waiting_def demo_resource_def set_conn_def)
  moreover have "writable demo_net demo_waiting 0"
    by (simp add: writable_def demo_net_def demo_waiting_def tracker_accept_def mk_tracker_def mk_conn_def set_conn_def)
  moreover have "map_of (tr_scheds demo_waiting) (HStr ''gpu'') = Some ?s" by (simp add: demo_waiting_def set_sched_def update_conv)
  moreover have "conn_out demo_waiting 0 = []" "conn_out demo_waiting 1 = []"
    by (simp_all add: conn_out_def demo_waiting_def tracker_accept_def mk_tracker_def mk_conn_def set_conn_def)
  moreover have "hash_key (JStr ''gpu'') = Inr (HStr ''gpu'')" "sc_values ?s = []" "sc_requests ?s = [(- 1, 0, 0)]"
    by (simp_all add: mk_sched_def)
  ultimately obtain t' where t': "tracker_put demo_net (JStr ''gpu'') demo_resource demo_waiting = (Inr (), t')"
    "map_of (tr_scheds t') (HStr ''gpu'') = Some (?s\<lparr>sc_requests := []\<rparr>)"
    "conn_out t' 0 = frame (grant demo_resource)" "conn_out t' 1 = []"
    using put_serves_first [of "JStr ''gpu''" "HStr ''gpu''" demo_waiting ?s "- 1" 0 0 "[]" demo_net demo_resource]
    by (metis append_Nil zero_neq_one)
  moreover have "?s\<lparr>sc_requests := []\<rparr> = (mk_sched (JStr ''gpu''))\<lparr>sc_cnt := 1\<rparr>" by (simp add: mk_sched_def)
  ultimately show ?thesis by (intro exI [of _ t']) (simp only: simp_thms)
qed

end
