(* ===== verification/Search_Policies.thy ===== *)
theory Search_Policies
  imports Prelude Json
begin

section \<open>Choosing cost models and search policies\<close>

text \<open>
  The first part of \<^verbatim>\<open>auto_scheduler/task_scheduler.py\<close>: the device table of the static analyser,
  \<^verbatim>\<open>make_search_policies\<close> and \<^verbatim>\<open>derive_similarity_tag\<close>.  The cost models themselves (XGBoost, PyTorch,
  LightGBM) and the C++ \<^verbatim>\<open>SketchPolicy\<close> are outside this code; what the function decides is which model
  is built with which arguments, what is loaded into it and in which order, and which policies come out.
  Loading a model may raise: the environment says which of these calls does.
\<close>

subsection \<open>Python strings\<close>

text \<open>The truth value of an optional string.\<close>

definition str_truthy :: "string option \<Rightarrow> bool" where
  "str_truthy s = (case s of None \<Rightarrow> False | Some cs \<Rightarrow> cs \<noteq> [])"

subsection \<open>The device table\<close>

record psa_params =
  peak_performance :: int
  glbmem_bandwidth :: int
  vec_len :: int
  active_blocks_per_sm :: int
  sm_nums :: int
  arch_sm_partition :: int
  arch_warp_size :: int

definition psamodel_params :: "(string, psa_params) dict" where
  "psamodel_params =
    [(''k80'', \<lparr>peak_performance = 8226, glbmem_bandwidth = 480, vec_len = 11,
        active_blocks_per_sm = 1, sm_nums = 26, arch_sm_partition = 4, arch_warp_size = 32\<rparr>),
     (''t4'', \<lparr>peak_performance = 8141, glbmem_bandwidth = 320, vec_len = 11,
        active_blocks_per_sm = 1, sm_nums = 40, arch_sm_partition = 4, arch_warp_size = 32\<rparr>),
     (''titanv'', \<lparr>peak_performance = 14900, glbmem_bandwidth = 651, vec_len = 11,
        active_blocks_per_sm = 1, sm_nums = 80, arch_sm_partition = 4, arch_warp_size = 32\<rparr>),
     (''orin'', \<lparr>peak_performance = 2660, glbmem_bandwidth = 204, vec_len = 11,
        active_blocks_per_sm = 1, sm_nums = 16, arch_sm_partition = 4, arch_warp_size = 32\<rparr>),
     (''a100'', \<lparr>peak_performance = 19490, glbmem_bandwidth = 1935, vec_len = 11,
        active_blocks_per_sm = 1, sm_nums = 108, arch_sm_partition = 4, arch_warp_size = 32\<rparr>),
     (''a100_40'', \<lparr>peak_performance = 19490, glbmem_bandwidth = 1555, vec_len = 11,
        active_blocks_per_sm = 1, sm_nums = 108, arch_sm_partition = 4, arch_warp_size = 32\<rparr>)]"

text \<open>\<^verbatim>\<open>psamodel_params[psa_model_params]\<close>: the key may be \<^verbatim>\<open>None\<close>, which no table row has.\<close>

definition psa_lookup :: "string option \<Rightarrow> psa_params res" where
  "psa_lookup k = (case k of None \<Rightarrow> Inl KeyError | Some s \<Rightarrow> dict_get psamodel_params s)"

subsection \<open>Cost models and policies\<close>

datatype model_kind = XGBModel | TabNetModel | PAMModel | MLPModel | LGBModel | RandomModel

text \<open>What the function does to a freshly built model; a file name may be missing.\<close>

datatype model_act =
    LoadModel "string option"
  | SetFewShot string
  | FitLocal "string option"
  | UpdateFromFile "string option"

record cost_model =
  cm_kind :: model_kind
  num_warmup_sample :: "int option"
  disable_update :: bool
  few_shot_learning :: "string option"
  cm_acts :: "model_act list"

record search_policy =
  sp_task :: nat
  sp_model :: cost_model
  sp_psa :: psa_params
  sp_params :: "(string, pyval) dict option"
  sp_verbose :: int
  sp_preload :: "string option"

text \<open>The argument \<^verbatim>\<open>search_policy\<close>: a name, a list or tuple (an item that is no \<^verbatim>\<open>SearchPolicy\<close> is
  \<^const>\<open>None\<close>), or something else.\<close>

datatype policy_arg =
    PolicyName string
  | PolicyList "search_policy option list"
  | PolicyOther

record loader_env =
  isfile :: "string \<Rightarrow> bool"
  act_raises :: "model_kind \<Rightarrow> model_act \<Rightarrow> py_error option"

definition model_do :: "loader_env \<Rightarrow> model_act \<Rightarrow> cost_model \<Rightarrow> cost_model res" where
  "model_do env a cm =
     (case act_raises env (cm_kind cm) a of
        Some e \<Rightarrow> Inl e
      | None \<Rightarrow> Inr (cm\<lparr>cm_acts := cm_acts cm @ [a]\<rparr>))"

text \<open>The pretrained model when its file exists, otherwise the log when there is one.\<close>

definition load_or_update ::
  "loader_env \<Rightarrow> string option \<Rightarrow> string option \<Rightarrow> cost_model \<Rightarrow> cost_model res" where
  "load_or_update env model_file log_file cm =
     (if str_truthy model_file \<and> isfile env (the model_file) then model_do env (LoadModel model_file) cm
      else if str_truthy log_file then model_do env (UpdateFromFile log_file) cm
      else Inr cm)"

text \<open>The models that take \<^verbatim>\<open>few_shot_learning\<close>: their constructor arguments by model name.\<close>

definition few_shot_model ::
  "string \<Rightarrow> int \<Rightarrow> bool \<Rightarrow> string \<Rightarrow> cost_model" where
  "few_shot_model model_type warmup disable few_shot =
     (if model_type \<in> {''xgb'', ''xgb-no-update''} then
        \<lparr>cm_kind = XGBModel, num_warmup_sample = Some warmup, disable_update = disable,
         few_shot_learning = Some few_shot, cm_acts = []\<rparr>
      else if model_type \<in> {''tab'', ''tab-no-update''} then
        \<lparr>cm_kind = TabNetModel, num_warmup_sample = None, disable_update = disable,
         few_shot_learning = Some few_shot, cm_acts = []\<rparr>
      else if model_type \<in> {''pam'', ''pam-no-update'', ''pam-siamese-update''} then
        \<lparr>cm_kind = PAMModel, num_warmup_sample = None, disable_update = disable,
         few_shot_learning = Some few_shot, cm_acts = []\<rparr>
      else
        \<lparr>cm_kind = MLPModel, num_warmup_sample = None, disable_update = disable,
         few_shot_learning = Some few_shot, cm_acts = []\<rparr>)"

text \<open>
  Building and loading the cost model for a model name: lines 121 to 181.  In the two few-shot modes
  \<^verbatim>\<open>plus_mix_task\<close> and \<^verbatim>\<open>plus_per_task\<close> the base model is loaded whether or not its file exists and the
  log is turned into a dataset and fitted locally.
\<close>

definition make_cost_model ::
  "loader_env \<Rightarrow> string \<Rightarrow> int \<Rightarrow> bool \<Rightarrow> string \<Rightarrow> string option \<Rightarrow> string option \<Rightarrow> cost_model res" where
  "make_cost_model env model_type warmup disable few_shot model_file log_file =
     (if model_type \<in> {''xgb'', ''xgb-no-update'', ''mlp'', ''mlp-no-update'', ''tab'', ''tab-no-update'',
                       ''pam'', ''pam-no-update'', ''pam-siamese-update''} then
        let disable' = (disable \<or> model_type \<in> {''xgb-no-update'', ''mlp-no-update'', ''tab-no-update'',
                                                 ''pam-no-update''});
            few_shot' = (if model_type = ''pam-siamese-update'' then ''siamese_update'' else few_shot);
            cm = few_shot_model model_type warmup disable' few_shot'
        in (if few_shot' = ''plus_mix_task'' \<or> few_shot' = ''plus_per_task'' then
              bindE (model_do env (LoadModel model_file) cm) (\<lambda>cm1.
              bindE (model_do env (SetFewShot few_shot') cm1) (\<lambda>cm2.
              model_do env (FitLocal log_file) cm2))
            else load_or_update env model_file log_file cm)
      else if model_type \<in> {''lgbm'', ''lgbm-no-update''} then
        load_or_update env model_file log_file
          \<lparr>cm_kind = LGBModel, num_warmup_sample = Some warmup,
           disable_update = (disable \<or> model_type = ''lgbm-no-update''),
           few_shot_learning = None, cm_acts = []\<rparr>
      else if model_type = ''random'' then
        Inr \<lparr>cm_kind = RandomModel, num_warmup_sample = None, disable_update = False,
             few_shot_learning = None, cm_acts = []\<rparr>
      else Inl ValueError)"

text \<open>
  The options shared by every call of \<^verbatim>\<open>make_search_policies\<close> within one \<^verbatim>\<open>tune\<close>; tasks are numbered.
\<close>

record policy_opts =
  po_params :: "(string, pyval) dict option"
  po_num_measures :: int
  po_verbose :: int
  po_model_file :: "string option"
  po_log_file :: "string option"
  po_disable_update :: bool
  po_psa :: "string option"
  po_few_shot :: string

definition make_search_policies ::
  "loader_env \<Rightarrow> policy_arg \<Rightarrow> nat \<Rightarrow> policy_opts \<Rightarrow> search_policy list res" where
  "make_search_policies env search_policy tasks po =
     (case search_policy of
        PolicyName name \<Rightarrow>
          (let name' = (if name = ''default'' then ''sketch.xgb'' else name)
           in case py_split CHR ''.'' name' of
                [policy_type, model_type] \<Rightarrow>
                  bindE (make_cost_model env model_type (int tasks * po_num_measures po)
                           (po_disable_update po) (po_few_shot po) (po_model_file po) (po_log_file po))
                    (\<lambda>cost_model.
                  bindE (psa_lookup (po_psa po)) (\<lambda>psa.
                  if policy_type = ''sketch'' then
                    Inr (map (\<lambda>task. \<lparr>sp_task = task, sp_model = cost_model, sp_psa = psa,
                                      sp_params = po_params po, sp_verbose = po_verbose po,
                                      sp_preload = (if str_truthy (po_log_file po) then po_log_file po
                                                    else None)\<rparr>) [0..<tasks])
                  else Inl ValueError))
              | _ \<Rightarrow> Inl ValueError)
      | PolicyList items \<Rightarrow>
          assertE (None \<notin> set items) (Inr (map the items))
      | PolicyOther \<Rightarrow> Inl AssertionError)"

subsection \<open>Similarity tags\<close>

text \<open>\<^verbatim>\<open>int(math.log(x, base))\<close> for exact \<open>x > 0\<close> and a base above one: the logarithm truncated towards
  zero.\<close>

function ilog :: "rat \<Rightarrow> rat \<Rightarrow> nat" where
  "ilog base x = (if base \<le> 1 \<or> x < base then 0 else Suc (ilog base (x / base)))"
  by auto

lemma ilog_decrease:
  fixes base x :: rat
  assumes "1 < base" "base \<le> x"
  shows "nat \<lfloor>x / base / (base - 1)\<rfloor> < nat \<lfloor>x / (base - 1)\<rfloor>"
proof -
  have pos: "0 < base - 1" "0 < base" "0 < x" using assms by simp_all
  have "x / base + (base - 1) \<le> x"
  proof -
    have "base * (base - 1) \<le> x * (base - 1)" using assms pos by simp
    then have "x + base * (base - 1) \<le> x * base" by (simp add: algebra_simps)
    then show ?thesis using pos by (simp add: field_simps)
  qed
  then have "(x / base + (base - 1)) / (base - 1) \<le> x / (base - 1)"
    using pos by (simp add: divide_right_mono)
  then have le: "x / base / (base - 1) + 1 \<le> x / (base - 1)"
    using pos by (simp add: add_divide_distrib)
  then have "\<lfloor>x / base / (base - 1)\<rfloor> + 1 \<le> \<lfloor>x / (base - 1)\<rfloor>" by linarith
  moreover have "0 \<le> \<lfloor>x / base / (base - 1)\<rfloor>" using pos by simp
  ultimately show ?thesis by linarith
qed

termination ilog
proof (relation "measure (\<lambda>(base, x). nat \<lfloor>x / (base - 1)\<rfloor>)")
  fix base x :: rat
  assume "\<not> (base \<le> 1 \<or> x < base)"
  then have "nat \<lfloor>x / base / (base - 1)\<rfloor> < nat \<lfloor>x / (base - 1)\<rfloor>" by (intro ilog_decrease) simp_all
  then show "((base, x / base), (base, x)) \<in> measure (\<lambda>(base, x). nat \<lfloor>x / (base - 1)\<rfloor>)"
    by (simp only: in_measure prod.case)
qed simp

declare ilog.simps [simp del]

definition int_log :: "rat \<Rightarrow> rat \<Rightarrow> int res" where
  "int_log x base =
     (if x \<le> 0 then Inl ValueError
      else Inr (if 1 \<le> x then int (ilog base x) else - int (ilog base (1 / x))))"

text \<open>
  A search task as the scheduler sees it: its workload key, its target as a string, the
  \<^verbatim>\<open>auto_scheduler_task_scheduler_tag\<close> of every operation of its DAG and the DAG's floating-point
  operation count (\<open>-1\<close> when the estimator gives up).
\<close>

record search_task =
  st_workload_key :: string
  st_target :: string
  st_op_tags :: "string option list"
  st_flop_ct :: rat

definition derive_similarity_tag :: "search_task \<Rightarrow> rat \<Rightarrow> string res" where
  "derive_similarity_tag task log_base =
     (let ret = concat (map (\<lambda>tag. if str_truthy tag then the tag @ ''_'' else []) (st_op_tags task))
      in if ret = [] then Inr []
         else bindE (int_log (st_flop_ct task + 1) log_base) (\<lambda>n. Inr (ret @ int_str n)))"

subsection \<open>What the chosen policies are\<close>

text \<open>The logarithm brackets its argument between consecutive powers of the base.\<close>

lemma ilog_bounds:
  assumes "1 < base" "1 \<le> x"
  shows "base ^ ilog base x \<le> x \<and> x < base ^ Suc (ilog base x)"
  using assms
proof (induction base x rule: ilog.induct)
  case (1 base x)
  show ?case
  proof (cases "x < base")
    case True
    then show ?thesis using 1 by (simp add: ilog.simps [of base x])
  next
    case False
    have x: "1 \<le> x / base" using False 1(2) by simp
    then have IH: "base ^ ilog base (x / base) \<le> x / base" "x / base < base ^ Suc (ilog base (x / base))"
      using 1 False by auto
    have step: "ilog base x = Suc (ilog base (x / base))"
      using False 1(2) by (simp add: ilog.simps [of base x])
    show ?thesis unfolding step using IH 1(2) by (simp add: field_simps)
  qed
qed

lemma make_search_policies_length:
  assumes "make_search_policies env (PolicyName name) tasks po = Inr ps"
  shows "length ps = tasks \<and> (\<forall>i < tasks. sp_task (ps ! i) = i)"
  using assms
  by (auto simp: make_search_policies_def Let_def bindE_eq_Inr split: list.splits if_splits)

end
