(* ===== verification/Task_Scheduler.thy ===== *)
theory Task_Scheduler
  imports Search_Policies
begin

section \<open>The task scheduler\<close>

text \<open>
  The class \<^verbatim>\<open>TaskScheduler\<close> of \<^verbatim>\<open>auto_scheduler/task_scheduler.py\<close> and its callbacks.  The search policies
  (C++), the record reader, the clock and the random generator are parameters collected in
  \<open>sched_env\<close>; costs are exact rationals and the gradients, which divide by measured costs, are values of
  \<^typ>\<open>fl\<close>.  \<^verbatim>\<open>tune\<close> is modelled with its two loops: the search for a live task and the main loop are
  \<open>partial_function (option)\<close>, so that not returning is \<^const>\<open>None\<close>.
\<close>

subsection \<open>Floats and their decimal forms\<close>

fun fl_sgn :: "fl \<Rightarrow> int" where
  "fl_sgn (Fin a) = (if a < 0 then -1 else if a = 0 then 0 else 1)"
| "fl_sgn PInf = 1"
| "fl_sgn NInf = -1"
| "fl_sgn NaN = 0"

fun fl_mult :: "fl \<Rightarrow> fl \<Rightarrow> fl" where
  "fl_mult (Fin a) (Fin b) = Fin (a * b)"
| "fl_mult NaN b = NaN"
| "fl_mult a NaN = NaN"
| "fl_mult a b =
     (if fl_sgn a * fl_sgn b = 0 then NaN else if fl_sgn a * fl_sgn b > 0 then PInf else NInf)"

definition fl_le :: "fl \<Rightarrow> fl \<Rightarrow> bool" where
  "fl_le a b \<longleftrightarrow> fl_less a b \<or> (a = b \<and> a \<noteq> NaN)"

text \<open>Python's \<^verbatim>\<open>max\<close> and \<^verbatim>\<open>min\<close> of a non-empty list and \<^verbatim>\<open>np.argmin\<close>: the first of equal values.\<close>

definition fl_max :: "fl list \<Rightarrow> fl" where
  "fl_max xs = foldl (\<lambda>m y. if fl_less m y then y else m) (hd xs) (tl xs)"

definition fl_min :: "fl list \<Rightarrow> fl" where
  "fl_min xs = foldl (\<lambda>m y. if fl_less y m then y else m) (hd xs) (tl xs)"

fun argmin_from :: "nat \<Rightarrow> nat \<Rightarrow> fl \<Rightarrow> fl list \<Rightarrow> nat" where
  "argmin_from i best v [] = best"
| "argmin_from i best v (x # xs) =
     (if fl_less x v then argmin_from (Suc i) i x xs else argmin_from (Suc i) best v xs)"

definition np_argmin :: "fl list \<Rightarrow> nat" where
  "np_argmin xs = (case xs of [] \<Rightarrow> 0 | x # xs' \<Rightarrow> argmin_from 1 0 x xs')"

text \<open>\<^verbatim>\<open>%.<n>f\<close> of an exact value: rounded half to even, as the C library does.\<close>

definition round_half_even :: "rat \<Rightarrow> int" where
  "round_half_even x =
     (let f = \<lfloor>x\<rfloor>; d = x - of_int f
      in if d < 1 / 2 \<or> (d = 1 / 2 \<and> even f) then f else f + 1)"

definition fixed_str :: "nat \<Rightarrow> rat \<Rightarrow> string" where
  "fixed_str n x =
     (let k = nat (round_half_even (\<bar>x\<bar> * 10 ^ n)); frac = nat_str (k mod 10 ^ n)
      in (if x < 0 then ''-'' else []) @ nat_str (k div 10 ^ n) @
         (if n = 0 then [] else ''.'' @ replicate (n - length frac) CHR ''0'' @ frac))"

fun fixed_fl :: "nat \<Rightarrow> fl \<Rightarrow> string" where
  "fixed_fl n (Fin x) = fixed_str n x"
| "fixed_fl n PInf = ''inf''"
| "fixed_fl n NInf = ''-inf''"
| "fixed_fl n NaN = ''nan''"

definition rjust :: "nat \<Rightarrow> string \<Rightarrow> string" where
  "rjust w s = replicate (w - length s) CHR '' '' @ s"

abbreviation tab :: string where
  "tab \<equiv> [CHR 0x09]"

abbreviation newline :: string where
  "newline \<equiv> [CHR 0x0A]"

subsection \<open>The state\<close>

text \<open>
  The outside: standard output, the files that the callbacks write, how often the clock has been read and
  a random number drawn, and the state behind the search policies.
\<close>

record 'p world =
  w_out :: string
  w_files :: "(string, string) dict"
  w_ticks :: nat
  w_draws :: nat
  w_policy :: 'p

datatype objective = CustomObjective "rat list \<Rightarrow> rat" | WeightedSum "rat list" | PlainSum

text \<open>\<^verbatim>\<open>ProgramMeasurer\<close> with the empty builder and runner, or with those of the tuning options.\<close>

datatype measurer = EmptyMeasurer | OptionMeasurer

record tuning_options =
  to_num_measure_trials :: int
  to_early_stopping :: int
  to_num_measures_per_round :: int
  to_verbose :: int

record round_result =
  mr_costs :: "rat list"
  mr_error_no :: int

record log_record =
  lr_target :: string
  lr_workload_key :: string
  lr_result :: round_result

text \<open>
  The attributes of a \<^verbatim>\<open>TaskScheduler\<close>.  Those that \<^verbatim>\<open>__init__\<close> sets to \<^verbatim>\<open>None\<close> are assigned by
  \<^verbatim>\<open>tune\<close> before anything reads them and start at a default here.
\<close>

record task_scheduler =
  ts_tasks :: "search_task list"
  objective_func :: objective
  strategy :: string
  load_log_file :: "string option"
  load_model_file :: "string option"
  ts_alpha :: rat
  ts_beta :: rat
  ts_gamma :: rat
  backward_window_size :: int
  task_cts :: "int list"
  task_best_cts :: "int list"
  task_costs_history :: "rat list list"
  best_costs :: "rat list"
  cur_score :: rat
  dead_tasks :: "nat set"
  task_tags :: "string option list"
  tag_to_group_id :: "(string, nat) dict"
  group_task_ids :: "nat list list"
  flop_cts :: "rat list"
  ts_tune_option :: tuning_options
  ts_measurer :: measurer
  search_policies :: "search_policy list"
  ts_ct :: int
  best_ct :: int
  best_score :: rat
  ts_tic :: rat
  num_measures_per_round :: int
  early_stopping_all :: int
  early_stopping_task :: int

record 'p ts = task_scheduler +
  ts_world :: "'p world"

text \<open>A callback object: its three methods.  They receive the scheduler itself.\<close>

record 'p callback =
  pre_tune :: "int \<Rightarrow> 'p ts \<Rightarrow> ('p ts, unit) outcome"
  post_tune :: "int \<Rightarrow> 'p ts \<Rightarrow> ('p ts, unit) outcome"
  cb_finish :: "'p ts \<Rightarrow> ('p ts, unit) outcome"

record ('p, 'i) sched_env =
  se_search :: "search_policy \<Rightarrow> int \<Rightarrow> measurer \<Rightarrow> 'p \<Rightarrow> ('p, 'i list \<times> round_result list) outcome"
  se_records :: "string \<Rightarrow> log_record list"
  se_models :: loader_env
  se_now :: "nat \<Rightarrow> rat"
  se_rnd :: rng
  se_callbacks :: "'p callback list"

definition print_line :: "string \<Rightarrow> 'p ts \<Rightarrow> 'p ts" where
  "print_line s t = t\<lparr>ts_world := (ts_world t)\<lparr>w_out := w_out (ts_world t) @ s @ newline\<rparr>\<rparr>"

definition read_clock :: "(nat \<Rightarrow> rat) \<Rightarrow> 'p ts \<Rightarrow> rat \<times> 'p ts" where
  "read_clock now t =
     (now (w_ticks (ts_world t)), t\<lparr>ts_world := (ts_world t)\<lparr>w_ticks := Suc (w_ticks (ts_world t))\<rparr>\<rparr>)"

subsection \<open>Scores\<close>

definition array_mean :: "rat list \<Rightarrow> rat res" where
  "array_mean arr = (if arr = [] then Inl ZeroDivisionError
                     else Inr (sum_list arr / of_nat (length arr)))"

fun objective_value :: "objective \<Rightarrow> rat list \<Rightarrow> rat" where
  "objective_value (CustomObjective f) costs = f costs"
| "objective_value (WeightedSum ws) costs = sum_list (map (\<lambda>(c, w). c * w) (zip costs ws))"
| "objective_value PlainSum costs = sum_list costs"

definition compute_score :: "('p, 'x) ts_scheme \<Rightarrow> rat list \<Rightarrow> rat" where
  "compute_score t costs = objective_value (objective_func t) costs"

subsection \<open>Construction\<close>

record sched_args =
  sa_tasks :: "search_task list"
  sa_task_weights :: "rat list option"
  sa_objective_func :: "(rat list \<Rightarrow> rat) option"
  sa_strategy :: string
  sa_load_model_file :: "string option"
  sa_load_log_file :: "string option"
  sa_alpha :: rat
  sa_beta :: rat
  sa_gamma :: rat
  sa_backward_window_size :: int

definition choose_objective :: "sched_args \<Rightarrow> objective" where
  "choose_objective a =
     (case sa_objective_func a of
        Some f \<Rightarrow> CustomObjective f
      | None \<Rightarrow> (case sa_task_weights a of
                   Some ws \<Rightarrow> if ws \<noteq> [] then WeightedSum ws else PlainSum
                 | None \<Rightarrow> PlainSum))"

text \<open>One round of the loop that builds the similarity groups (lines 350 to 360).\<close>

type_synonym groups = "string option list \<times> (string, nat) dict \<times> nat list list \<times> rat list"

definition add_to_groups :: "groups \<Rightarrow> nat \<times> search_task \<Rightarrow> groups res" where
  "add_to_groups g p =
     (case (g, p) of ((tags, gids, ids, flops), (i, task)) \<Rightarrow>
        bindE (derive_similarity_tag task (1618 / 1000)) (\<lambda>tag.
          let tags' = tags @ [Some tag]; flops' = flops @ [st_flop_ct task]
          in if tag = [] then Inr (tags', gids, ids, flops')
             else let (gids', ids') = (if tag \<notin> fst ` set gids
                                       then (gids @ [(tag, length gids)], ids @ [[]]) else (gids, ids));
                      k = the (map_of gids' tag)
                  in Inr (tags', gids', ids'[k := ids' ! k @ [i]], flops')))"

definition build_groups :: "search_task list \<Rightarrow> groups res" where
  "build_groups tasks = foldE add_to_groups ([], [], [], []) (enumerate 0 tasks)"

definition default_options :: tuning_options where
  "default_options = \<lparr>to_num_measure_trials = 0, to_early_stopping = 0, to_num_measures_per_round = 0,
                      to_verbose = 0\<rparr>"

definition mk_task_scheduler :: "sched_args \<Rightarrow> 'p world \<Rightarrow> 'p ts res" where
  "mk_task_scheduler a w =
     assertE (sa_tasks a \<noteq> []) (
     assertE (sa_strategy a \<in> {''round-robin'', ''gradient''}) (
     let n = length (sa_tasks a); costs = replicate n (10 ^ 10)
     in bindE (build_groups (sa_tasks a)) (\<lambda>(tags, gids, ids, flops).
        Inr \<lparr>ts_tasks = sa_tasks a, objective_func = choose_objective a, strategy = sa_strategy a,
             load_log_file = sa_load_log_file a, load_model_file = sa_load_model_file a,
             ts_alpha = sa_alpha a, ts_beta = sa_beta a, ts_gamma = sa_gamma a,
             backward_window_size = sa_backward_window_size a,
             task_cts = replicate n 0, task_best_cts = replicate n 0,
             task_costs_history = replicate n [], best_costs = costs,
             cur_score = objective_value (choose_objective a) costs, dead_tasks = {},
             task_tags = tags, tag_to_group_id = gids, group_task_ids = ids, flop_cts = flops,
             ts_tune_option = default_options, ts_measurer = OptionMeasurer, search_policies = [],
             ts_ct = 0, best_ct = 0, best_score = 0, ts_tic = 0, num_measures_per_round = 0,
             early_stopping_all = 0, early_stopping_task = 0, ts_world = w\<rparr>)))"

subsection \<open>One round of a task\<close>

definition run_callbacks :: "('p callback \<Rightarrow> 'p ts \<Rightarrow> ('p ts, unit) outcome) \<Rightarrow>
    'p callback list \<Rightarrow> 'p ts \<Rightarrow> ('p ts, unit) outcome" where
  "run_callbacks method cbs t = foldO method cbs t"

text \<open>\<^verbatim>\<open>self.search_policies[task_idx].continue_search_one_round(self.num_measures_per_round, self.measurer)\<close>\<close>

definition search_round ::
  "('p, 'i) sched_env \<Rightarrow> nat \<Rightarrow> 'p ts \<Rightarrow> ('p ts, 'i list \<times> round_result list) outcome" where
  "search_round env i t =
     (case py_get (search_policies t) (int i) of
        Inl e \<Rightarrow> (Inl e, t)
      | Inr p \<Rightarrow>
          (case se_search env p (num_measures_per_round t) (ts_measurer t) (w_policy (ts_world t)) of
             (r, p') \<Rightarrow> (r, t\<lparr>ts_world := (ts_world t)\<lparr>w_policy := p'\<rparr>\<rparr>)))"

definition record_cost :: "nat \<Rightarrow> round_result \<Rightarrow> 'p ts \<Rightarrow> ('p ts, unit) outcome" where
  "record_cost i res t =
     (case array_mean (mr_costs res) of
        Inl e \<Rightarrow> (Inl e, t)
      | Inr cost \<Rightarrow>
          (Inr (), if cost < best_costs t ! i
                   then t\<lparr>task_best_cts := (task_best_cts t)[i := task_cts t ! i],
                          best_costs := (best_costs t)[i := cost]\<rparr>
                   else t))"

definition count_round :: "nat \<Rightarrow> 'p ts \<Rightarrow> 'p ts" where
  "count_round i t = t\<lparr>task_cts := (task_cts t)[i := task_cts t ! i + 1]\<rparr>"

text \<open>The bookkeeping after the results have been read (lines 648 to 659).\<close>

definition close_round :: "nat \<Rightarrow> nat \<Rightarrow> 'p ts \<Rightarrow> 'p ts" where
  "close_round i inputs t =
     (let no_change_trials = (task_cts t ! i - task_best_cts t ! i) * num_measures_per_round t
      in t\<lparr>dead_tasks := (if inputs = 0 \<or> no_change_trials > early_stopping_task t
                          then insert i (dead_tasks t) else dead_tasks t),
           task_costs_history := (task_costs_history t)[i := task_costs_history t ! i @ [best_costs t ! i]],
           ts_ct := ts_ct t + int inputs,
           cur_score := compute_score t (best_costs t)\<rparr>)"

definition tune_task :: "('p, 'i) sched_env \<Rightarrow> nat \<Rightarrow> 'p ts \<Rightarrow> ('p ts, unit) outcome" where
  "tune_task env i t =
     bindO (run_callbacks (\<lambda>cb. pre_tune cb (int i)) (se_callbacks env) t) (\<lambda>_ t1.
     bindO (search_round env i t1) (\<lambda>(inputs, results) t2.
     bindO (foldO (record_cost i) results (count_round i t2)) (\<lambda>_ t3.
     run_callbacks (\<lambda>cb. post_tune cb (int i)) (se_callbacks env) (close_round i (length inputs) t3))))"

subsection \<open>Similarity groups\<close>

definition group_of :: "('p, 'x) ts_scheme \<Rightarrow> nat \<Rightarrow> nat option" where
  "group_of t i = (case task_tags t ! i of None \<Rightarrow> None | Some tag \<Rightarrow> map_of (tag_to_group_id t) tag)"

definition task_flops :: "('p, 'x) ts_scheme \<Rightarrow> nat \<Rightarrow> fl" where
  "task_flops t j = fl_div (Fin (flop_cts t ! j)) (Fin (best_costs t ! j))"

definition adjust_similarity_group :: "nat \<Rightarrow> 'p ts \<Rightarrow> ('p ts, unit) outcome" where
  "adjust_similarity_group i t =
     (case group_of t i of
        None \<Rightarrow> (Inr (), t)
      | Some g \<Rightarrow>
          let ids = group_task_ids t ! g
          in if length ids \<le> 1 then (Inr (), t)
             else if fl_less (task_flops t i) (fl_div (fl_max (map (task_flops t) ids)) (Fin (ts_beta t))) then
               (case filter (\<lambda>j. j \<noteq> i) ids of
                  [] \<Rightarrow> (Inl ValueError, t)
                | j # js \<Rightarrow>
                    if task_cts t ! i > 5 + foldl max (task_cts t ! j) (map (\<lambda>j. task_cts t ! j) js) then
                      (let t' = t\<lparr>task_tags := (task_tags t)[i := None]\<rparr>
                       in if i \<in> set ids
                          then (Inr (), t'\<lparr>group_task_ids := (group_task_ids t)[g := remove1 i ids]\<rparr>)
                          else (Inl ValueError, t'))
                    else (Inr (), t))
             else (Inr (), t))"

subsection \<open>Restoring a log\<close>

definition restore_record :: "string \<Rightarrow> (string \<Rightarrow> nat option) \<Rightarrow> log_record \<Rightarrow> 'p ts \<Rightarrow> ('p ts, unit) outcome" where
  "restore_record str_target task_id rec t =
     (if lr_target rec \<noteq> str_target then (Inr (), t)
      else case task_id (lr_workload_key rec) of
             None \<Rightarrow> (Inr (), t)
           | Some i \<Rightarrow>
               let t' = count_round i t
               in if mr_error_no (lr_result rec) = 0 then record_cost i (lr_result rec) t' else (Inr (), t'))"

definition round_div :: "int \<Rightarrow> int \<Rightarrow> int" where
  "round_div a n = \<lfloor>(of_int a / of_int n :: rat) + 1 / 2\<rfloor>"

definition restore_task :: "int \<Rightarrow> nat \<Rightarrow> 'p ts \<Rightarrow> 'p ts" where
  "restore_task n i t =
     t\<lparr>dead_tasks := (if task_cts t ! i - task_best_cts t ! i > early_stopping_task t
                      then insert i (dead_tasks t) else dead_tasks t),
       task_cts := (task_cts t)[i := round_div (task_cts t ! i) n],
       task_best_cts := (task_best_cts t)[i := round_div (task_best_cts t ! i) n],
       task_costs_history := (task_costs_history t)[i := task_costs_history t ! i @ [best_costs t ! i]]\<rparr>"

definition restore_status :: "('p, 'i) sched_env \<Rightarrow> string \<Rightarrow> int \<Rightarrow> 'p ts \<Rightarrow> ('p ts, unit) outcome" where
  "restore_status env log_file n t =
     (let task_id = map_of (rev (map (\<lambda>(i, task). (st_workload_key task, i)) (enumerate 0 (ts_tasks t))))
      in bindO (foldO (restore_record (st_target (hd (ts_tasks t))) task_id) (se_records env log_file) t)
           (\<lambda>_ t1. let t2 = foldl (\<lambda>s i. restore_task n i s) t1 [0..<length (ts_tasks t)]
                   in (Inr (), t2\<lparr>cur_score := compute_score t2 (best_costs t2)\<rparr>)))"

subsection \<open>Gradients\<close>

definition backward_grad :: "('p, 'x) ts_scheme \<Rightarrow> nat \<Rightarrow> fl res" where
  "backward_grad t i =
     (let h = task_costs_history t ! i; k = task_cts t ! i - 1; w = backward_window_size t
      in if k < int (length h) \<and> 0 \<le> k - w then
           bindE (py_get h k) (\<lambda>a. bindE (py_get h (k - w)) (\<lambda>b.
             Inr (fl_div (Fin (a - b)) (Fin (of_int w)))))
         else Inr (Fin 0))"

definition forward_grad :: "('p, 'x) ts_scheme \<Rightarrow> nat \<Rightarrow> fl" where
  "forward_grad t i =
     (let cost = best_costs t ! i;
          g_next_1 = fl_add (Fin cost) (fl_neg (fl_div (Fin cost) (Fin (of_int (task_cts t ! i)))));
          g_next_2 = (case group_of t i of
                        None \<Rightarrow> Fin (ts_beta t * 10 ^ 30)
                      | Some g \<Rightarrow>
                          if length (group_task_ids t ! g) > 1 then
                            fl_div (Fin (ts_beta t * flop_cts t ! i))
                                   (fl_max (map (task_flops t) (group_task_ids t ! g)))
                          else Fin (ts_beta t * 10 ^ 30));
          g_next = (if fl_less g_next_2 g_next_1 then g_next_2 else g_next_1)
      in fl_add g_next (Fin (- cost)))"

definition chain_grad :: "('p, 'x) ts_scheme \<Rightarrow> nat \<Rightarrow> rat" where
  "chain_grad t i =
     (let delta = 1 / 10000; costs = best_costs t
      in (compute_score t costs - compute_score t (costs[i := costs ! i - delta])) / delta)"

definition task_gradient :: "('p, 'x) ts_scheme \<Rightarrow> nat \<Rightarrow> fl res" where
  "task_gradient t i =
     (if i \<in> dead_tasks t then Inr (Fin 0)
      else bindE (backward_grad t i) (\<lambda>backward.
        let grad = fl_mult (Fin (chain_grad t i))
                     (fl_add (fl_mult (Fin (ts_alpha t)) backward)
                             (fl_mult (Fin (1 - ts_alpha t)) (forward_grad t i)))
        in assertE (fl_le grad (Fin 0)) (Inr grad)))"

definition gradients :: "('p, 'x) ts_scheme \<Rightarrow> fl list res" where
  "gradients t = mapE (task_gradient t) [0..<length (ts_tasks t)]"

definition pick_by_gradient :: "('p, 'i) sched_env \<Rightarrow> 'p ts \<Rightarrow> ('p ts, int) outcome" where
  "pick_by_gradient env t =
     (case gradients t of
        Inl e \<Rightarrow> (Inl e, t)
      | Inr gs \<Rightarrow>
          if fl_max gs = fl_min gs then
            (Inr (randint (se_rnd env) (w_draws (ts_world t)) (int (length gs))),
             t\<lparr>ts_world := (ts_world t)\<lparr>w_draws := Suc (w_draws (ts_world t))\<rparr>\<rparr>)
          else (Inr (int (np_argmin gs)), t))"

subsection \<open>The main loop\<close>

partial_function (option) skip_dead :: "int \<Rightarrow> nat set \<Rightarrow> int \<Rightarrow> int option" where
  "skip_dead n dead idx =
     (if nat idx \<in> dead then skip_dead n dead ((idx + 1) mod n) else Some idx)"

declare skip_dead.simps [code]

definition choose_task :: "('p, 'i) sched_env \<Rightarrow> int \<Rightarrow> 'p ts \<Rightarrow> ('p ts, int) outcome option" where
  "choose_task env idx t =
     (if strategy t = ''round-robin'' then
        map_option (\<lambda>i. (Inr i, t))
          (skip_dead (int (length (ts_tasks t))) (dead_tasks t) ((idx + 1) mod int (length (ts_tasks t))))
      else if strategy t = ''gradient'' then Some (pick_by_gradient env t)
      else Some (Inl ValueError, t))"

definition stop_message :: "'p ts \<Rightarrow> string" where
  "stop_message t =
     ''Stop early since no performance improvement in the last '' @
     (if to_early_stopping (ts_tune_option t) < 0 then ''1e+20'' else int_str (early_stopping_all t)) @
     '' measurement trials.''"

text \<open>The end of a round (lines 522 to 534): whether the loop breaks.\<close>

definition update_best :: "'p ts \<Rightarrow> bool \<times> 'p ts" where
  "update_best t =
     (if cur_score t < best_score t then (False, t\<lparr>best_score := cur_score t, best_ct := ts_ct t\<rparr>)
      else if ts_ct t - best_ct t \<ge> early_stopping_all t \<and> list_all (\<lambda>cost. cost < 10 ^ 9) (best_costs t) then
        (True, if to_verbose (ts_tune_option t) \<ge> 1 then print_line (stop_message t) t else t)
      else (False, t))"

definition tune_round :: "('p, 'i) sched_env \<Rightarrow> int \<Rightarrow> 'p ts \<Rightarrow> ('p ts, int \<times> bool) outcome option" where
  "tune_round env idx t =
     map_option (\<lambda>choice.
       bindO choice (\<lambda>i t1.
       bindO (tune_task env (nat i) t1) (\<lambda>_ t2.
       bindO (adjust_similarity_group (nat i) t2) (\<lambda>_ t3.
       case update_best t3 of (stop, t4) \<Rightarrow> (Inr (i, stop), t4)))))
     (choose_task env idx t)"

partial_function (option) sched_tune_loop ::
  "('p, 'i) sched_env \<Rightarrow> int \<Rightarrow> int \<Rightarrow> 'p ts \<Rightarrow> ('p ts, unit) outcome option" where
  "sched_tune_loop env num_measure_trials idx t =
     (if ts_ct t < num_measure_trials \<and> card (dead_tasks t) < length (ts_tasks t) then
        (case tune_round env idx t of
           None \<Rightarrow> None
         | Some (r, t') \<Rightarrow>
             (case r of
                Inl e \<Rightarrow> Some (Inl e, t')
              | Inr (idx', stop) \<Rightarrow>
                  if stop then Some (Inr (), t') else sched_tune_loop env num_measure_trials idx' t'))
      else Some (Inr (), t))"

declare sched_tune_loop.simps [code]

subsection \<open>Tuning\<close>

text \<open>The members that \<^verbatim>\<open>tune\<close> and \<^verbatim>\<open>transfer_tune\<close> initialise first, and the number of trials.\<close>

definition trials_of :: "tuning_options \<Rightarrow> nat \<Rightarrow> int" where
  "trials_of opt n = (if to_num_measure_trials opt < 0 then int n else to_num_measure_trials opt)"

definition init_members ::
  "('p, 'i) sched_env \<Rightarrow> tuning_options \<Rightarrow> int option \<Rightarrow> 'p ts \<Rightarrow> ('p ts, unit) outcome" where
  "init_members env opt per_task_early_stopping t =
     (let n = length (ts_tasks t);
          (tic, t1) = read_clock (se_now env)
            (t\<lparr>ts_tune_option := opt,
               early_stopping_all := (if to_early_stopping opt < 0 then 10 ^ 20 else to_early_stopping opt),
               early_stopping_task := (case per_task_early_stopping of None \<Rightarrow> 10 ^ 20 | Some k \<Rightarrow> k),
               ts_measurer := (if to_num_measure_trials opt < 0 then EmptyMeasurer else OptionMeasurer),
               ts_ct := 0, best_ct := 0\<rparr>);
          rounds = min (to_num_measures_per_round opt) (trials_of opt n div int n);
          t2 = t1\<lparr>ts_tic := tic, num_measures_per_round := rounds\<rparr>
      in if rounds \<le> 0 then (Inl ValueError, t2)
         else if str_truthy (load_log_file t2) then restore_status env (the (load_log_file t2)) rounds t2
         else (Inr (), t2))"

definition make_policies ::
  "('p, 'i) sched_env \<Rightarrow> policy_arg \<Rightarrow> (string, pyval) dict option \<Rightarrow> string option \<Rightarrow> string \<Rightarrow>
   'p ts \<Rightarrow> ('p ts, unit) outcome" where
  "make_policies env search_policy params psa few_shot t =
     (case make_search_policies (se_models env) search_policy (length (ts_tasks t))
             \<lparr>po_params = params, po_num_measures = num_measures_per_round t,
              po_verbose = to_verbose (ts_tune_option t), po_model_file = load_model_file t,
              po_log_file = load_log_file t,
              po_disable_update = (to_num_measure_trials (ts_tune_option t) < 0),
              po_psa = psa, po_few_shot = few_shot\<rparr> of
        Inl e \<Rightarrow> (Inl e, t)
      | Inr ps \<Rightarrow> (Inr (), t\<lparr>search_policies := ps\<rparr>))"

definition warm_up :: "('p, 'i) sched_env \<Rightarrow> 'p ts \<Rightarrow> ('p ts, unit) outcome" where
  "warm_up env t =
     bindO (foldO (\<lambda>i s. if task_cts s ! i = 0 then tune_task env i s else (Inr (), s))
              [0..<length (ts_tasks t)] t)
       (\<lambda>_ s. (Inr (), s\<lparr>best_ct := ts_ct s, best_score := cur_score s\<rparr>))"

definition sched_tune ::
  "('p, 'i) sched_env \<Rightarrow> tuning_options \<Rightarrow> policy_arg \<Rightarrow> (string, pyval) dict option \<Rightarrow> int option \<Rightarrow>
   string option \<Rightarrow> 'p ts \<Rightarrow> ('p ts, unit) outcome option" where
  "sched_tune env opt search_policy params per_task_early_stopping psa t =
     (case bindO (init_members env opt per_task_early_stopping t) (\<lambda>_ t1.
           bindO (make_policies env search_policy params psa ''base_only'' t1) (\<lambda>_ t2. warm_up env t2)) of
        (Inl e, t') \<Rightarrow> Some (Inl e, t')
      | (Inr _, t') \<Rightarrow>
          map_option (\<lambda>out. bindO out (\<lambda>_ s. run_callbacks cb_finish (se_callbacks env) s))
            (sched_tune_loop env (trials_of opt (length (ts_tasks t))) (-1) t'))"

definition transfer_tune ::
  "('p, 'i) sched_env \<Rightarrow> tuning_options \<Rightarrow> policy_arg \<Rightarrow> (string, pyval) dict option \<Rightarrow> int option \<Rightarrow>
   string option \<Rightarrow> 'p ts \<Rightarrow> ('p ts, unit) outcome" where
  "transfer_tune env opt search_policy params per_task_early_stopping psa t =
     (let n = length (ts_tasks t)
      in bindO (init_members env opt per_task_early_stopping t) (\<lambda>_ t1.
         bindO (make_policies env search_policy params (Some ''a100_40'') ''base_only'' t1) (\<lambda>_ t2.
         bindO (foldO (tune_task env) [0..<n div 2] t2) (\<lambda>_ t3.
         bindO (make_policies env search_policy params psa ''plus_mix_task''
                  (t3\<lparr>best_ct := ts_ct t3, best_score := cur_score t3\<rparr>)) (\<lambda>_ t4.
         bindO (foldO (tune_task env) [n div 2..<n] t4) (\<lambda>_ t5.
         run_callbacks cb_finish (se_callbacks env)
           (t5\<lparr>best_ct := ts_ct t5, best_score := cur_score t5\<rparr>)))))))"

end
