(* ===== verification/Scheduler_Round.thy ===== *)
theory Scheduler_Round
  imports Task_Scheduler
begin

section \<open>Rounds of the task scheduler\<close>

text \<open>
  The two callbacks that \<^verbatim>\<open>TaskScheduler\<close> installs by default, the contract of a callback (it only
  touches the outside), the invariant of the scheduler's tables and what one round does to them: the
  best cost of the tuned task becomes the minimum of all its measured means and every other task is left
  alone.  The gradients of live tasks are shown to be negative, so the assertion in \<^verbatim>\<open>tune\<close> holds.
\<close>

named_theorems sched_simps \<open>fields of the scheduler after each step\<close>

subsection \<open>Callbacks\<close>

text \<open>
  \<^verbatim>\<open>PrintTableInfo\<close>: \<open>title\<close> is the text that the foreign function \<^verbatim>\<open>PrintTitle\<close> prints.
\<close>

definition table_row :: "'p ts \<Rightarrow> nat \<Rightarrow> string" where
  "table_row t i =
     (let cost = best_costs t ! i;
          latency_str = (if cost < 10 ^ 9 then fixed_str 3 (1000 * cost) else ''-'');
          speed_str = (if cost < 10 ^ 9
                       then fixed_fl 2 (fl_div (fl_div (Fin (st_flop_ct (ts_tasks t ! i))) (Fin cost)) (Fin (10 ^ 9)))
                       else ''-'');
          trials_str = int_str (task_cts t ! i * num_measures_per_round t)
      in ''| '' @ rjust 4 (nat_str i) @ '' | '' @ rjust 12 latency_str @ '' | '' @ rjust 14 speed_str @
         '' | '' @ rjust 6 trials_str @ '' |'')"

definition print_table :: "(string \<Rightarrow> string) \<Rightarrow> (nat \<Rightarrow> rat) \<Rightarrow> int \<Rightarrow> 'p ts \<Rightarrow> ('p ts, unit) outcome" where
  "print_table title now task_id t =
     (if to_verbose (ts_tune_option t) < 1 then (Inr (), t)
      else
        let t1 = print_line (title ''Task Scheduler'') t;
            t2 = print_line ''-------------------------------------------------''
                   (print_line ''|  ID  | Latency (ms) | Speed (GFLOPS) | Trials |'' t1);
            t3 = foldl (\<lambda>s i. print_line (table_row t i) s) t2 [0..<length (ts_tasks t)];
            t4 = print_line ''-------------------------------------------------'' t3;
            total_latency_str = (if list_all (\<lambda>cost. cost < 10 ^ 9) (best_costs t)
                                 then fixed_str 3 (cur_score t * 1000) else ''-'');
            (time, t5) = read_clock now t4
        in (Inr (), print_line
              (''Estimated total latency: '' @ total_latency_str @ '' ms'' @ tab @
               ''Trials: '' @ int_str (ts_ct t) @ tab @
               ''Used time : '' @ fixed_str 0 (time - ts_tic t) @ '' s'' @ tab @
               ''Next ID: '' @ int_str task_id @ tab) t5))"

definition PrintTableInfo :: "(string \<Rightarrow> string) \<Rightarrow> (nat \<Rightarrow> rat) \<Rightarrow> 'p callback" where
  "PrintTableInfo title now =
     \<lparr>pre_tune = print_table title now, post_tune = (\<lambda>i t. (Inr (), t)),
      cb_finish = print_table title now (-1)\<rparr>"

text \<open>\<^verbatim>\<open>LogEstimatedLatency\<close>: the constructor removes an old log, every round appends a line.\<close>

definition remove_log :: "string \<Rightarrow> 'p world \<Rightarrow> 'p world" where
  "remove_log log_file w = w\<lparr>w_files := filter (\<lambda>(name, _). name \<noteq> log_file) (w_files w)\<rparr>"

definition append_file :: "string \<Rightarrow> string \<Rightarrow> 'p world \<Rightarrow> 'p world" where
  "append_file name s w =
     w\<lparr>w_files := AList.update name
         ((case map_of (w_files w) name of None \<Rightarrow> [] | Some old \<Rightarrow> old) @ s) (w_files w)\<rparr>"

definition log_latency :: "(nat \<Rightarrow> rat) \<Rightarrow> string \<Rightarrow> int \<Rightarrow> 'p ts \<Rightarrow> ('p ts, unit) outcome" where
  "log_latency now log_file task_id t =
     (let total_latency_str = (if list_all (\<lambda>cost. cost < 10 ^ 9) (best_costs t)
                               then fixed_str 3 (cur_score t * 1000) else ''N/A'');
          (time, t1) = read_clock now t
      in (Inr (), t1\<lparr>ts_world := append_file log_file
             (''ElapsedTime(s)'' @ tab @ fixed_str 0 (time - ts_tic t) @ tab @
              ''EstimatedLatency(ms)'' @ tab @ total_latency_str @ tab @
              ''Trials'' @ tab @ int_str (ts_ct t) @ newline) (ts_world t1)\<rparr>))"

definition LogEstimatedLatency :: "(nat \<Rightarrow> rat) \<Rightarrow> string \<Rightarrow> 'p callback" where
  "LogEstimatedLatency now log_file =
     \<lparr>pre_tune = (\<lambda>i t. (Inr (), t)), post_tune = log_latency now log_file,
      cb_finish = (\<lambda>t. (Inr (), t))\<rparr>"

text \<open>
  The contract: a callback returns and changes nothing but the output, the files and the clock.
\<close>

definition outside :: "'p ts \<Rightarrow> 'p ts \<Rightarrow> bool" where
  "outside t t' \<longleftrightarrow> t' = t\<lparr>ts_world := ts_world t'\<rparr> \<and> w_policy (ts_world t') = w_policy (ts_world t) \<and>
                   w_draws (ts_world t') = w_draws (ts_world t)"

definition observes :: "('p ts \<Rightarrow> ('p ts, unit) outcome) \<Rightarrow> bool" where
  "observes f \<longleftrightarrow> (\<forall>t. \<exists>t'. f t = (Inr (), t') \<and> outside t t')"

lemma outside_refl [simp]: "outside t t"
  by (simp add: outside_def)

lemma outside_trans: "outside t u \<Longrightarrow> outside u v \<Longrightarrow> outside t v"
  by (cases t, cases u, cases v) (auto simp: outside_def)

lemma outside_print_line: "outside t u \<Longrightarrow> outside t (print_line s u)"
  by (cases t, cases u) (auto simp: outside_def print_line_def)

lemma outside_clock: "outside t u \<Longrightarrow> outside t (snd (read_clock now u))"
  by (cases t, cases u) (auto simp: outside_def read_clock_def)

lemma outside_append_file:
  "outside t u \<Longrightarrow> outside t (u\<lparr>ts_world := append_file name s (ts_world u)\<rparr>)"
  by (cases t, cases u) (auto simp: outside_def append_file_def)

lemma outside_print_lines: "outside t u \<Longrightarrow> outside t (foldl (\<lambda>s i. print_line (f i) s) u is)"
  by (induction "is" arbitrary: u) (auto intro: outside_print_line)

lemma observes_skip: "observes (\<lambda>t. (Inr (), t))"
  by (simp add: observes_def)

lemma observes_foldO: "\<forall>x \<in> set xs. observes (f x) \<Longrightarrow> observes (foldO f xs)"
proof (induction xs)
  case Nil
  then show ?case by (simp add: observes_def)
next
  case (Cons x xs)
  show ?case unfolding observes_def
  proof
    fix t
    have "observes (f x)" "observes (foldO f xs)" using Cons by simp_all
    then obtain u v where u: "f x t = (Inr (), u)" "outside t u"
      and v: "foldO f xs u = (Inr (), v)" "outside u v"
      unfolding observes_def by meson
    show "\<exists>v. foldO f (x # xs) t = (Inr (), v) \<and> outside t v"
      using u v by (auto intro: outside_trans)
  qed
qed

locale observing_callbacks =
  fixes cbs :: "'p callback list"
  assumes pre_observes: "cb \<in> set cbs \<Longrightarrow> observes (pre_tune cb i)"
    and post_observes: "cb \<in> set cbs \<Longrightarrow> observes (post_tune cb i)"
    and finish_observes: "cb \<in> set cbs \<Longrightarrow> observes (cb_finish cb)"
begin

lemma run_pre: "observes (run_callbacks (\<lambda>cb. pre_tune cb i) cbs)"
  unfolding run_callbacks_def [abs_def] by (rule observes_foldO) (simp add: pre_observes)

lemma run_post: "observes (run_callbacks (\<lambda>cb. post_tune cb i) cbs)"
  unfolding run_callbacks_def [abs_def] by (rule observes_foldO) (simp add: post_observes)

lemma run_finish: "observes (run_callbacks cb_finish cbs)"
  unfolding run_callbacks_def [abs_def] by (rule observes_foldO) (simp add: finish_observes)

end

lemma observes_print_table: "observes (print_table title now i)"
  unfolding observes_def print_table_def Let_def
  by (auto simp: case_prod_unfold intro!: outside_print_line outside_print_lines outside_clock)

lemma observes_log_latency: "observes (log_latency now log_file i)"
  unfolding observes_def log_latency_def Let_def
  by (auto simp: case_prod_unfold intro!: outside_append_file outside_clock)

interpretation default_callbacks:
  observing_callbacks "[PrintTableInfo title now, LogEstimatedLatency now log_file]"
  by unfold_locales
    (auto simp: PrintTableInfo_def LogEstimatedLatency_def observes_skip observes_print_table
      observes_log_latency)


subsection \<open>The search policies' contract\<close>

text \<open>
  What the scheduler relies on from \<^verbatim>\<open>continue_search_one_round\<close>: it returns, hands back at most as many
  inputs as asked for, and every result carries positive costs (a failed measurement carries the
  largest float).
\<close>

definition results_ok :: "round_result list \<Rightarrow> bool" where
  "results_ok rs \<longleftrightarrow> (\<forall>r \<in> set rs. mr_costs r \<noteq> [] \<and> (\<forall>c \<in> set (mr_costs r). 0 < c))"

definition search_contract ::
  "(search_policy \<Rightarrow> int \<Rightarrow> measurer \<Rightarrow> 'p \<Rightarrow> ('p, 'i list \<times> round_result list) outcome) \<Rightarrow> bool" where
  "search_contract search \<longleftrightarrow>
     (\<forall>p n m s. 0 < n \<longrightarrow> (\<exists>ins rs s'. search p n m s = (Inr (ins, rs), s') \<and>
                              int (length ins) \<le> n \<and> results_ok rs))"

definition mean :: "round_result \<Rightarrow> rat" where
  "mean r = sum_list (mr_costs r) / of_nat (length (mr_costs r))"

lemma array_mean_ok: "results_ok rs \<Longrightarrow> r \<in> set rs \<Longrightarrow> array_mean (mr_costs r) = Inr (mean r)"
  by (auto simp: results_ok_def array_mean_def mean_def)

lemma sum_list_pos: "xs \<noteq> [] \<Longrightarrow> \<forall>x \<in> set xs. 0 < x \<Longrightarrow> 0 < (sum_list xs :: rat)"
proof (induction xs)
  case (Cons x xs)
  then show ?case by (cases "xs = []") (auto intro: add_pos_pos)
qed simp

lemma mean_pos: "results_ok rs \<Longrightarrow> r \<in> set rs \<Longrightarrow> 0 < mean r"
  by (simp add: results_ok_def mean_def sum_list_pos)

subsection \<open>Reading the results of a round\<close>

lemma foldl_min_le: "foldl min (a::rat) xs \<le> a \<and> (\<forall>x \<in> set xs. foldl min a xs \<le> x)"
  by (induction xs arbitrary: a) (auto, (meson min.boundedE)+)

lemma foldl_min_pos: "0 < (a::rat) \<Longrightarrow> \<forall>x \<in> set xs. 0 < x \<Longrightarrow> 0 < foldl min a xs"
  by (induction xs arbitrary: a) auto

lemma foldO_record_cost:
  assumes "results_ok rs" "i < length (best_costs t)"
  shows "\<exists>bc. foldO (record_cost i) rs t =
           (Inr (), t\<lparr>task_best_cts := bc,
                      best_costs := (best_costs t)[i := foldl min (best_costs t ! i) (map mean rs)]\<rparr>) \<and>
         bc \<in> {task_best_cts t, (task_best_cts t)[i := task_cts t ! i]}"
  using assms
proof (induction rs arbitrary: t)
  case Nil
  then show ?case by (intro exI [of _ "task_best_cts t"]) simp
next
  case (Cons r rs)
  have ok: "results_ok rs" "array_mean (mr_costs r) = Inr (mean r)"
    using Cons.prems array_mean_ok [of "r # rs" r] by (auto simp: results_ok_def)
  show ?case
  proof (cases "mean r < best_costs t ! i")
    case True
    let ?u = "t\<lparr>task_best_cts := (task_best_cts t)[i := task_cts t ! i],
                best_costs := (best_costs t)[i := mean r]\<rparr>"
    have "i < length (best_costs ?u)" using Cons.prems by simp
    from Cons.IH [OF ok(1) this] obtain bc where
      "foldO (record_cost i) rs ?u =
         (Inr (), ?u\<lparr>task_best_cts := bc,
                     best_costs := (best_costs ?u)[i := foldl min (best_costs ?u ! i) (map mean rs)]\<rparr>)"
      "bc \<in> {task_best_cts ?u, (task_best_cts ?u)[i := task_cts ?u ! i]}" by blast
    moreover have "record_cost i r t = (Inr (), ?u)" using True ok by (simp add: record_cost_def)
    moreover have "min (best_costs t ! i) (mean r) = mean r" using True by simp
    ultimately show ?thesis using Cons.prems by (intro exI [of _ bc]) auto
  next
    case False
    from Cons.IH [OF ok(1) Cons.prems(2)] obtain bc where
      "foldO (record_cost i) rs t =
         (Inr (), t\<lparr>task_best_cts := bc,
                    best_costs := (best_costs t)[i := foldl min (best_costs t ! i) (map mean rs)]\<rparr>)"
      "bc \<in> {task_best_cts t, (task_best_cts t)[i := task_cts t ! i]}" by blast
    moreover have "record_cost i r t = (Inr (), t)" using False ok by (simp add: record_cost_def)
    moreover have "min (best_costs t ! i) (mean r) = best_costs t ! i" using False by simp
    ultimately show ?thesis by (intro exI [of _ bc]) simp
  qed
qed


text \<open>
  The tables after a round on task \<open>i\<close> whose search returned \<open>k\<close> inputs and the results \<open>rs\<close>.
\<close>

definition after_round :: "nat \<Rightarrow> nat \<Rightarrow> round_result list \<Rightarrow> int list \<Rightarrow> 'p ts \<Rightarrow> 'p ts" where
  "after_round i k rs bc t =
     close_round i k
       (t\<lparr>task_cts := (task_cts t)[i := task_cts t ! i + 1], task_best_cts := bc,
          best_costs := (best_costs t)[i := foldl min (best_costs t ! i) (map mean rs)]\<rparr>)"

lemma outside_eq: "outside t u \<Longrightarrow> \<exists>w. u = t\<lparr>ts_world := w\<rparr>"
  by (metis outside_def)

lemma after_round_world:
  "close_round i k ((count_round i (t\<lparr>ts_world := w\<rparr>))\<lparr>task_best_cts := bc, best_costs :=
      (best_costs (count_round i (t\<lparr>ts_world := w\<rparr>)))
        [i := foldl min (best_costs (count_round i (t\<lparr>ts_world := w\<rparr>)) ! i) (map mean rs)]\<rparr>) =
   (after_round i k rs bc t)\<lparr>ts_world := w\<rparr>"
  by (cases t) (simp add: after_round_def count_round_def close_round_def compute_score_def)

lemma tune_task_effect:
  assumes cbs: "observing_callbacks (se_callbacks env)" and search: "search_contract (se_search env)"
    and n: "0 < num_measures_per_round t"
    and i: "i < length (best_costs t)" "i < length (search_policies t)"
  shows "\<exists>k rs bc w. tune_task env i t = (Inr (), (after_round i k rs bc t)\<lparr>ts_world := w\<rparr>) \<and>
           int k \<le> num_measures_per_round t \<and> results_ok rs \<and>
           bc \<in> {task_best_cts t, (task_best_cts t)[i := (task_cts t)[i := task_cts t ! i + 1] ! i]}"
proof -
  obtain u where u: "run_callbacks (\<lambda>cb. pre_tune cb (int i)) (se_callbacks env) t = (Inr (), u)"
    "outside t u"
    using observing_callbacks.run_pre [OF cbs, of "int i"] unfolding observes_def by blast
  obtain p where p: "py_get (search_policies t) (int i) = Inr p"
    using i by (simp add: py_get_def)
  obtain ins rs s' where s: "se_search env p (num_measures_per_round t) (ts_measurer t)
      (w_policy (ts_world u)) = (Inr (ins, rs), s')" "int (length ins) \<le> num_measures_per_round t"
      "results_ok rs"
    using search n unfolding search_contract_def by blast
  obtain w where w: "u = t\<lparr>ts_world := w\<rparr>" using outside_eq [OF u(2)] by blast
  let ?v = "t\<lparr>ts_world := (ts_world u)\<lparr>w_policy := s'\<rparr>\<rparr>"
  have round: "search_round env i u = (Inr (ins, rs), ?v)"
    unfolding search_round_def using p s by (simp add: w)
  have "i < length (best_costs (count_round i ?v))" using i by (simp add: count_round_def)
  from foldO_record_cost [OF s(3) this] obtain bc where bc:
    "foldO (record_cost i) rs (count_round i ?v) =
       (Inr (), (count_round i ?v)\<lparr>task_best_cts := bc, best_costs :=
          (best_costs (count_round i ?v))[i := foldl min (best_costs (count_round i ?v) ! i) (map mean rs)]\<rparr>)"
    "bc \<in> {task_best_cts t, (task_best_cts t)[i := (task_cts t)[i := task_cts t ! i + 1] ! i]}"
    by (auto simp: count_round_def)
  let ?x = "(after_round i (length ins) rs bc t)\<lparr>ts_world := (ts_world u)\<lparr>w_policy := s'\<rparr>\<rparr>"
  obtain y where y: "run_callbacks (\<lambda>cb. post_tune cb (int i)) (se_callbacks env) ?x = (Inr (), y)"
    "outside ?x y"
    using observing_callbacks.run_post [OF cbs, of "int i"] unfolding observes_def by blast
  have "tune_task env i t = (Inr (), y)"
    unfolding tune_task_def u(1) bindO.simps round prod.case bc(1)
    unfolding after_round_world by (rule y(1))
  moreover obtain w' where "y = (after_round i (length ins) rs bc t)\<lparr>ts_world := w'\<rparr>"
    using outside_eq [OF y(2)] by auto
  ultimately show ?thesis using s bc(2) by metis
qed

end
