(* ===== verification/Scheduler_Loop.thy ===== *)
theory Scheduler_Loop
  imports Scheduler_Round
begin

section \<open>The loop of the task scheduler\<close>

text \<open>
  The tables stay well formed through every step of \<^verbatim>\<open>tune\<close>; the gradient of a live task is
  negative, so the assertion never fires and a live task is chosen as long as there is one; hence every
  round either spends measurements or retires a task, and \<^verbatim>\<open>tune\<close> returns within its budget.
\<close>

subsection \<open>The tables\<close>

definition group_ok :: "'p ts \<Rightarrow> nat \<Rightarrow> bool" where
  "group_ok t i \<longleftrightarrow>
     (case group_of t i of
        None \<Rightarrow> True
      | Some g \<Rightarrow> g < length (group_task_ids t) \<and> i \<in> set (group_task_ids t ! g) \<and>
                  distinct (group_task_ids t ! g))"

definition task_ok :: "'p ts \<Rightarrow> nat \<Rightarrow> bool" where
  "task_ok t i \<longleftrightarrow>
     0 < best_costs t ! i \<and> 0 \<le> task_cts t ! i \<and>
     sorted_wrt (\<ge>) (task_costs_history t ! i @ [best_costs t ! i])"

definition tables_ok :: "'p ts \<Rightarrow> bool" where
  "tables_ok t \<longleftrightarrow>
     (let n = length (ts_tasks t) in
      0 < n \<and> length (task_cts t) = n \<and> length (task_best_cts t) = n \<and>
      length (task_costs_history t) = n \<and> length (best_costs t) = n \<and> length (task_tags t) = n \<and>
      length (flop_cts t) = n \<and> dead_tasks t \<subseteq> {..<n} \<and>
      (\<forall>i < n. task_ok t i \<and> group_ok t i))"

text \<open>What the loop needs on top: policies for every task and a positive number of measurements.\<close>

definition ready :: "'p ts \<Rightarrow> bool" where
  "ready t \<longleftrightarrow> tables_ok t \<and> 0 < num_measures_per_round t \<and> length (ts_tasks t) \<le> length (search_policies t)"

definition warm :: "'p ts \<Rightarrow> bool" where
  "warm t \<longleftrightarrow> (\<forall>i < length (ts_tasks t). 1 \<le> task_cts t ! i)"

text \<open>What the rounds never change.\<close>

definition config ::
  "'p ts \<Rightarrow> search_task list \<times> objective \<times> string \<times> rat \<times> int \<times> int \<times> int \<times> search_policy list" where
  "config t = (ts_tasks t, objective_func t, strategy t, ts_alpha t, backward_window_size t,
               num_measures_per_round t, early_stopping_all t, search_policies t)"

lemma group_ok_cong:
  "task_tags u = task_tags t \<Longrightarrow> tag_to_group_id u = tag_to_group_id t \<Longrightarrow>
   group_task_ids u = group_task_ids t \<Longrightarrow> group_ok u j = group_ok t j"
  by (simp add: group_ok_def group_of_def split: option.split)

lemma group_ok_world [simp]: "group_ok (t\<lparr>ts_world := w\<rparr>) j = group_ok t j"
  by (rule group_ok_cong) simp_all

lemma tables_ok_world [simp]: "tables_ok (t\<lparr>ts_world := w\<rparr>) = tables_ok t"
  by (simp add: tables_ok_def task_ok_def Let_def)

lemma ready_world [simp]: "ready (t\<lparr>ts_world := w\<rparr>) = ready t"
  by (simp add: ready_def)

lemma warm_world [simp]: "warm (t\<lparr>ts_world := w\<rparr>) = warm t"
  by (simp add: warm_def)

lemma config_world [simp]: "config (t\<lparr>ts_world := w\<rparr>) = config t"
  by (simp add: config_def)

lemma config_same:
  "config t' = config t \<Longrightarrow> ts_tasks t' = ts_tasks t \<and> objective_func t' = objective_func t \<and>
   strategy t' = strategy t \<and> ts_alpha t' = ts_alpha t \<and>
   backward_window_size t' = backward_window_size t \<and>
   num_measures_per_round t' = num_measures_per_round t \<and> search_policies t' = search_policies t"
  by (simp add: config_def)

lemma group_ok_after_round [simp]: "group_ok (after_round i k rs bc t) j = group_ok t j"
  by (rule group_ok_cong) (simp_all add: after_round_def close_round_def Let_def)

lemma tables_okD:
  assumes "tables_ok t"
  shows "0 < length (ts_tasks t)" "length (task_cts t) = length (ts_tasks t)"
    "length (task_best_cts t) = length (ts_tasks t)" "length (task_costs_history t) = length (ts_tasks t)"
    "length (best_costs t) = length (ts_tasks t)" "length (task_tags t) = length (ts_tasks t)"
    "length (flop_cts t) = length (ts_tasks t)" "dead_tasks t \<subseteq> {..<length (ts_tasks t)}"
    "\<And>i. i < length (ts_tasks t) \<Longrightarrow> task_ok t i" "\<And>i. i < length (ts_tasks t) \<Longrightarrow> group_ok t i"
  using assms by (simp_all add: tables_ok_def Let_def)

lemma task_ok_after_round:
  assumes ok: "tables_ok t" and rs: "results_ok rs" and i: "i < length (ts_tasks t)"
    and j: "j < length (ts_tasks t)"
  shows "task_ok (after_round i k rs bc t) j"
proof (cases "j = i")
  case False
  then show ?thesis
    using tables_okD(9) [OF ok j] by (simp add: task_ok_def after_round_def close_round_def Let_def)
next
  case True
  let ?m = "foldl min (best_costs t ! i) (map mean rs)"
  have i': "i < length (best_costs t)" "i < length (task_cts t)" "i < length (task_costs_history t)"
    using i tables_okD [OF ok] by simp_all
  have t: "task_ok t i" using tables_okD(9) [OF ok i] .
  have le: "?m \<le> best_costs t ! i" using foldl_min_le by blast
  have "0 < ?m"
    using t mean_pos [OF rs] by (intro foldl_min_pos) (auto simp: task_ok_def)
  moreover have "sorted_wrt (\<ge>) ((task_costs_history t ! i @ [?m]) @ [?m])"
    using t le by (auto simp: task_ok_def sorted_wrt_append intro: order_trans)
  ultimately show ?thesis
    using True i' t by (simp add: task_ok_def after_round_def close_round_def Let_def)
qed

lemma tables_ok_after_round:
  assumes ok: "tables_ok t" and rs: "results_ok rs" and i: "i < length (ts_tasks t)"
    and bc: "length bc = length (task_best_cts t)"
  shows "tables_ok (after_round i k rs bc t)"
proof -
  have "\<forall>j < length (ts_tasks t). task_ok (after_round i k rs bc t) j \<and> group_ok (after_round i k rs bc t) j"
    using task_ok_after_round [OF ok rs i] tables_okD(10) [OF ok] by simp
  then show ?thesis
    using tables_okD(1-8) [OF ok] i bc
    by (auto simp: tables_ok_def Let_def after_round_def close_round_def)
qed

text \<open>
  One round of a task, as the loop uses it: the tables stay well formed, the configuration is kept,
  the measurements are counted, and a round without inputs retires the task.
\<close>

definition round_ok :: "nat \<Rightarrow> 'p ts \<Rightarrow> 'p ts \<Rightarrow> bool" where
  "round_ok i t t' \<longleftrightarrow>
     ready t' \<and> config t' = config t \<and> best_ct t' = best_ct t \<and> best_score t' = best_score t \<and>
     task_cts t' = (task_cts t)[i := task_cts t ! i + 1] \<and>
     dead_tasks t \<subseteq> dead_tasks t' \<and>
     ts_ct t \<le> ts_ct t' \<and> ts_ct t' \<le> ts_ct t + num_measures_per_round t \<and>
     (ts_ct t' = ts_ct t \<longrightarrow> i \<in> dead_tasks t')"

lemma tune_task_round:
  assumes "observing_callbacks (se_callbacks env)" "search_contract (se_search env)"
    and r: "ready t" and i: "i < length (ts_tasks t)"
  shows "\<exists>t'. tune_task env i t = (Inr (), t') \<and> round_ok i t t'"
proof -
  have ok: "tables_ok t" and n: "0 < num_measures_per_round t"
    and i': "i < length (best_costs t)" "i < length (search_policies t)"
    using r i tables_okD(5) [of t] by (auto simp: ready_def)
  obtain k rs bc w where eff: "tune_task env i t = (Inr (), (after_round i k rs bc t)\<lparr>ts_world := w\<rparr>)"
    and k: "int k \<le> num_measures_per_round t" and rs: "results_ok rs"
    and bc: "bc \<in> {task_best_cts t, (task_best_cts t)[i := (task_cts t)[i := task_cts t ! i + 1] ! i]}"
    using tune_task_effect [OF assms(1,2) n i'] by blast
  have "tables_ok (after_round i k rs bc t)"
    using bc by (intro tables_ok_after_round [OF ok rs i]) auto
  then have "round_ok i t ((after_round i k rs bc t)\<lparr>ts_world := w\<rparr>)"
    using r k unfolding round_ok_def
    by (auto simp: ready_def config_def after_round_def close_round_def Let_def)
  with eff show ?thesis by blast
qed

subsection \<open>Adjusting the groups\<close>

lemma remove1_other: "j \<noteq> i \<Longrightarrow> (j \<in> set (remove1 i xs)) = (j \<in> set xs)"
  by (induction xs) auto

lemma adjust_group_kept:
  assumes ok: "group_ok t j" "group_ok t i" and g: "group_of t i = Some g" and ij: "i < length (task_tags t)"
  shows "group_ok (t\<lparr>task_tags := (task_tags t)[i := None],
                     group_task_ids := (group_task_ids t)[g := remove1 i (group_task_ids t ! g)]\<rparr>) j"
proof (cases "j = i")
  case True
  then show ?thesis using ij by (simp add: group_ok_def group_of_def)
next
  case False
  then have "group_of (t\<lparr>task_tags := (task_tags t)[i := None],
      group_task_ids := (group_task_ids t)[g := remove1 i (group_task_ids t ! g)]\<rparr>) j = group_of t j"
    by (simp add: group_of_def split: option.split)
  then show ?thesis
    using ok g False by (auto simp: group_ok_def remove1_other nth_list_update split: option.splits)
qed

lemma adjust_similarity_group_ok:
  assumes ok: "tables_ok t" and i: "i < length (ts_tasks t)"
  shows "\<exists>tags ids. adjust_similarity_group i t =
           (Inr (), t\<lparr>task_tags := tags, group_task_ids := ids\<rparr>) \<and>
         tables_ok (t\<lparr>task_tags := tags, group_task_ids := ids\<rparr>)"
proof -
  have same: "t = t\<lparr>task_tags := task_tags t, group_task_ids := group_task_ids t\<rparr>" by simp
  have keep: ?thesis if "adjust_similarity_group i t = (Inr (), t)"
    using that ok same by metis
  show ?thesis
  proof (cases "group_of t i")
    case None
    then show ?thesis by (intro keep) (simp add: adjust_similarity_group_def)
  next
    case (Some g)
    let ?ids = "group_task_ids t ! g"
    have g: "group_ok t i" using tables_okD(10) [OF ok i] .
    then have in_ids: "i \<in> set ?ids" "distinct ?ids" using Some by (auto simp: group_ok_def)
    have others: "filter (\<lambda>j. j \<noteq> i) ?ids \<noteq> []" if "\<not> length ?ids \<le> 1"
    proof
      assume "filter (\<lambda>j. j \<noteq> i) ?ids = []"
      then have "set ?ids \<subseteq> {i}" by (auto simp: filter_empty_conv)
      then have "card (set ?ids) \<le> 1" using card_mono [of "{i}"] by simp
      then show False using that distinct_card [OF in_ids(2)] by simp
    qed
    let ?t = "t\<lparr>task_tags := (task_tags t)[i := None],
               group_task_ids := (group_task_ids t)[g := remove1 i ?ids]\<rparr>"
    have "adjust_similarity_group i t \<in> {(Inr (), t), (Inr (), ?t)}"
      using Some others in_ids(1)
      by (auto simp: adjust_similarity_group_def Let_def split: list.splits)
    moreover have "tables_ok ?t"
    proof -
      have "\<forall>j < length (ts_tasks t). group_ok ?t j"
        using adjust_group_kept [OF _ g Some] tables_okD(6,10) [OF ok] i by simp
      then show ?thesis using ok by (simp add: tables_ok_def Let_def task_ok_def)
    qed
    ultimately show ?thesis using keep by blast
  qed
qed


subsection \<open>Order on floats\<close>

lemma fl_max_fold:
  assumes "NaN \<notin> set (m # xs)"
  shows "(let M = foldl (\<lambda>m y. if fl_less m y then y else m) m xs
          in M \<in> set (m # xs) \<and> (\<forall>x \<in> set (m # xs). \<not> fl_less M x))"
  using assms
proof (induction xs arbitrary: m)
  case (Cons x xs)
  let ?m = "if fl_less m x then x else m"
  let ?M = "foldl (\<lambda>m y. if fl_less m y then y else m) ?m xs"
  have IH: "?M \<in> set (?m # xs)" "\<forall>y \<in> set (?m # xs). \<not> fl_less ?M y"
    using Cons.IH [of ?m] Cons.prems by (auto simp: Let_def)
  have "\<not> fl_less ?M y" if "y \<in> {m, x}" for y
  proof
    assume *: "fl_less ?M y"
    have "?M \<noteq> NaN" "?m \<noteq> NaN" using IH(1) Cons.prems by auto
    then have "fl_less ?m y" using fl_not_less_trans [of ?M ?m y] IH(2) * by simp
    moreover have "fl_less m x \<Longrightarrow> fl_less x m \<Longrightarrow> False" using fl_less_trans [of m x m] by simp
    ultimately show False using that by (cases "fl_less m x") auto
  qed
  moreover have "?M \<in> set (m # x # xs)" using IH(1) by (cases "fl_less m x") auto
  moreover have "\<forall>y \<in> set xs. \<not> fl_less ?M y" using IH(2) by simp
  ultimately show ?case by (simp add: Let_def)
qed (simp add: Let_def)

lemma fl_max_ge: "NaN \<notin> set xs \<Longrightarrow> x \<in> set xs \<Longrightarrow> \<not> fl_less (fl_max xs) x"
  using fl_max_fold [of "hd xs" "tl xs"] by (cases xs) (auto simp: fl_max_def Let_def)

lemma fl_max_in: "NaN \<notin> set xs \<Longrightarrow> xs \<noteq> [] \<Longrightarrow> fl_max xs \<in> set xs"
  using fl_max_fold [of "hd xs" "tl xs"] by (cases xs) (auto simp: fl_max_def Let_def)

lemma fl_min_le: "NaN \<notin> set xs \<Longrightarrow> x \<in> set xs \<Longrightarrow> \<not> fl_less x (fl_min xs)"
proof -
  have "\<not> fl_less x (foldl (\<lambda>m y. if fl_less y m then y else m) m xs)"
    if "NaN \<notin> set (m # xs)" "x \<in> set xs \<or> \<not> fl_less x m" "x \<noteq> NaN" for m xs
    using that
  proof (induction xs arbitrary: m)
    case (Cons y ys)
    let ?m = "if fl_less y m then y else m"
    have "x \<in> set ys \<or> \<not> fl_less x ?m"
    proof (cases "x \<in> set ys")
      case False
      then have "x = y \<or> \<not> fl_less x m" using Cons.prems(2) by auto
      then have "\<not> fl_less x ?m"
        using Cons.prems(1,3) fl_less_trans [of x y m] by auto
      then show ?thesis ..
    qed simp
    then show ?case using Cons.IH [of ?m] Cons.prems(1,3) by (auto split: if_splits)
  qed auto
  note step = this
  assume "NaN \<notin> set xs" "x \<in> set xs"
  then show ?thesis
    using step [of "hd xs" "tl xs"] by (cases xs) (auto simp: fl_min_def)
qed

lemma argmin_from_spec:
  assumes "v = ys ! best" "best < i" "drop i ys = xs" "i \<le> length ys" "NaN \<notin> set ys"
    and "\<forall>j < i. \<not> fl_less (ys ! j) v"
  shows "argmin_from i best v xs < length ys \<and> (\<forall>j < length ys. \<not> fl_less (ys ! j) (ys ! argmin_from i best v xs))"
  using assms
proof (induction xs arbitrary: i best v)
  case (Cons x xs)
  have i: "i < length ys" using Cons.prems(3,4) by (cases "i = length ys") auto
  then have x: "x = ys ! i" "drop (Suc i) ys = xs"
    using Cons.prems(3) by (auto simp: Cons_nth_drop_Suc [symmetric])
  have nan: "ys ! j \<noteq> NaN" if "j < length ys" for j using that Cons.prems(5) nth_mem by metis
  show ?case
  proof (cases "fl_less x v")
    case True
    have "\<forall>j < Suc i. \<not> fl_less (ys ! j) x"
    proof (intro allI impI)
      fix j assume j: "j < Suc i"
      show "\<not> fl_less (ys ! j) x"
      proof (cases "j = i")
        case False
        then have "\<not> fl_less (ys ! j) v" using j Cons.prems(6) by simp
        then show ?thesis using True fl_less_trans by blast
      qed (simp add: x)
    qed
    then show ?thesis using Cons.IH [of x i "Suc i"] True i x Cons.prems(5) by simp
  next
    case False
    then have "\<forall>j < Suc i. \<not> fl_less (ys ! j) v" using Cons.prems(6) x by (auto simp: less_Suc_eq)
    then show ?thesis using Cons.IH [of v best "Suc i"] False i x Cons.prems(1,2,5) by simp
  qed
qed auto

lemma np_argmin_spec:
  assumes "NaN \<notin> set ys" "ys \<noteq> []"
  shows "np_argmin ys < length ys \<and> (\<forall>j < length ys. \<not> fl_less (ys ! j) (ys ! np_argmin ys))"
  using argmin_from_spec [of "hd ys" ys 0 1 "tl ys"] assms
  by (cases ys) (auto simp: np_argmin_def)


subsection \<open>Gradients of live tasks are negative\<close>

definition weights_positive :: "'p ts \<Rightarrow> bool" where
  "weights_positive t \<longleftrightarrow>
     (case objective_func t of
        PlainSum \<Rightarrow> True
      | WeightedSum ws \<Rightarrow> length (ts_tasks t) \<le> length ws \<and> (\<forall>w \<in> set ws. 0 < w)
      | CustomObjective f \<Rightarrow> False)"

lemma sum_list_upd: "i < length xs \<Longrightarrow> sum_list (xs[i := (v::rat)]) = sum_list xs + v - xs ! i"
proof (induction xs arbitrary: i)
  case (Cons x xs)
  then show ?case by (cases i) auto
qed simp

lemma map_zip_upd:
  "i < length xs \<Longrightarrow> i < length ws \<Longrightarrow>
   map (\<lambda>(c, w). c * w) (zip (xs[i := (v::rat)]) ws) = (map (\<lambda>(c, w). c * w) (zip xs ws))[i := v * ws ! i]"
proof (induction xs arbitrary: i ws)
  case (Cons x xs)
  then show ?case by (cases ws; cases i) auto
qed simp

lemma chain_grad_pos:
  assumes ok: "tables_ok t" and i: "i < length (ts_tasks t)" and w: "weights_positive t"
  shows "0 < chain_grad t i"
proof (cases "objective_func t")
  case (CustomObjective f)
  then show ?thesis using w by (simp add: weights_positive_def)
next
  case PlainSum
  then show ?thesis using i tables_okD(5) [OF ok]
    by (simp add: chain_grad_def Let_def compute_score_def sum_list_upd)
next
  case (WeightedSum ws)
  have l: "i < length (best_costs t)" "i < length ws" "0 < ws ! i"
    using i w WeightedSum tables_okD(5) [OF ok] by (auto simp: weights_positive_def)
  let ?xs = "map (\<lambda>(c, w). c * w) (zip (best_costs t) ws)"
  have "chain_grad t i = (sum_list ?xs - (sum_list ?xs + (best_costs t ! i - 1 / 10000) * ws ! i - ?xs ! i)) / (1 / 10000)"
    using l by (simp add: chain_grad_def Let_def compute_score_def WeightedSum map_zip_upd sum_list_upd)
  also have "\<dots> = ws ! i" using l by (simp add: algebra_simps)
  finally show ?thesis using l by simp
qed

lemma backward_grad_nonpos:
  assumes ok: "tables_ok t" and i: "i < length (ts_tasks t)" and w: "0 < backward_window_size t"
  shows "\<exists>b \<le> 0. backward_grad t i = Inr (Fin b)"
proof -
  let ?h = "task_costs_history t ! i" and ?k = "task_cts t ! i - 1" and ?w = "backward_window_size t"
  show ?thesis
  proof (cases "?k < int (length ?h) \<and> 0 \<le> ?k - ?w")
    case False
    then show ?thesis by (intro exI [of _ 0]) (auto simp: backward_grad_def Let_def)
  next
    case True
    have get: "py_get ?h ?k = Inr (?h ! nat ?k)" "py_get ?h (?k - ?w) = Inr (?h ! nat (?k - ?w))"
      using True w by (simp_all add: py_get_def)
    have "sorted_wrt (\<ge>) ?h"
      using tables_okD(9) [OF ok i] by (simp add: task_ok_def sorted_wrt_append)
    then have "?h ! nat ?k \<le> ?h ! nat (?k - ?w)"
      using True w by (auto simp: sorted_wrt_iff_nth_less)
    then have "(?h ! nat ?k - ?h ! nat (?k - ?w)) / of_int ?w \<le> 0"
      using w by (simp add: divide_nonpos_pos)
    then show ?thesis using True get w
      by (intro exI [of _ "(?h ! nat ?k - ?h ! nat (?k - ?w)) / of_int ?w"]) (simp add: backward_grad_def Let_def)
  qed
qed

lemma fl_add_less:
  "fl_less a (Fin c) \<Longrightarrow> fl_less (fl_add a (Fin (- c))) (Fin 0) \<and> fl_add a (Fin (- c)) \<noteq> PInf"
  by (cases a) auto

lemma forward_grad_neg:
  assumes ok: "tables_ok t" and i: "i < length (ts_tasks t)" and c: "1 \<le> task_cts t ! i"
  shows "fl_less (forward_grad t i) (Fin 0)"
proof -
  let ?c = "best_costs t ! i" and ?n = "of_int (task_cts t ! i) :: rat"
  have "0 < ?c" using tables_okD(9) [OF ok i] by (simp add: task_ok_def)
  moreover have "0 < ?n" using c by simp
  ultimately have g1: "fl_add (Fin ?c) (fl_neg (fl_div (Fin ?c) (Fin ?n))) = Fin (?c - ?c / ?n)"
    "fl_less (Fin (?c - ?c / ?n)) (Fin ?c)" by simp_all
  have "fl_less (fl_add (if fl_less g2 (Fin (?c - ?c / ?n)) then g2 else Fin (?c - ?c / ?n)) (Fin (- ?c))) (Fin 0)" for g2
    using fl_add_less fl_less_trans [OF _ g1(2)] g1(2) by simp
  then show ?thesis unfolding forward_grad_def Let_def g1(1) .
qed

lemma grad_neg:
  assumes "0 < c" "0 \<le> a" "a < 1" "b \<le> 0" "fl_less f (Fin 0)"
  shows "fl_less (fl_mult (Fin c) (fl_add (fl_mult (Fin a) (Fin b)) (fl_mult (Fin (1 - a)) f))) (Fin 0)"
proof (cases f)
  case (Fin x)
  have "a * b \<le> 0" "(1 - a) * x < 0"
    using assms Fin by (simp_all add: mult_nonneg_nonpos mult_pos_neg)
  then have "a * b + (1 - a) * x < 0" by simp
  then show ?thesis using Fin assms(1) by (simp add: mult_pos_neg)
qed (use assms in auto)

text \<open>When the strategies can pick: round robin always, the gradient one with usable parameters.\<close>

definition choosable :: "'p ts \<Rightarrow> bool" where
  "choosable t \<longleftrightarrow>
     strategy t = ''round-robin'' \<or>
     strategy t = ''gradient'' \<and> weights_positive t \<and> 0 \<le> ts_alpha t \<and> ts_alpha t < 1 \<and>
     0 < backward_window_size t"

lemma task_gradient_neg:
  assumes ok: "tables_ok t" and i: "i < length (ts_tasks t)" and c: "1 \<le> task_cts t ! i"
    and p: "weights_positive t" "0 \<le> ts_alpha t" "ts_alpha t < 1" "0 < backward_window_size t"
    and live: "i \<notin> dead_tasks t"
  shows "\<exists>g. task_gradient t i = Inr g \<and> fl_less g (Fin 0)"
proof -
  obtain b where b: "b \<le> 0" "backward_grad t i = Inr (Fin b)"
    using backward_grad_nonpos [OF ok i p(4)] by blast
  let ?g = "fl_mult (Fin (chain_grad t i)) (fl_add (fl_mult (Fin (ts_alpha t)) (Fin b))
              (fl_mult (Fin (1 - ts_alpha t)) (forward_grad t i)))"
  have "fl_less ?g (Fin 0)"
    by (rule grad_neg [OF chain_grad_pos [OF ok i p(1)] p(2,3) b(1) forward_grad_neg [OF ok i c]])
  then show ?thesis using live b(2) by (simp add: task_gradient_def Let_def fl_le_def)
qed

lemma gradients_exist:
  assumes ok: "tables_ok t" and wm: "warm t"
    and p: "weights_positive t" "0 \<le> ts_alpha t" "ts_alpha t < 1" "0 < backward_window_size t"
  shows "\<exists>gs. gradients t = Inr gs \<and> length gs = length (ts_tasks t) \<and>
           (\<forall>i < length gs. if i \<in> dead_tasks t then gs ! i = Fin 0 else fl_less (gs ! i) (Fin 0))"
proof -
  have one: "\<exists>g. task_gradient t i = Inr g \<and> (if i \<in> dead_tasks t then g = Fin 0 else fl_less g (Fin 0))"
    if "i < length (ts_tasks t)" for i
    using task_gradient_neg [OF ok that _ p] wm that by (auto simp: warm_def task_gradient_def)
  define gs where "gs = map (\<lambda>i. projr (task_gradient t i)) [0..<length (ts_tasks t)]"
  have "gradients t = Inr gs"
    unfolding gradients_def gs_def by (rule mapE_map_Inr) (use one in fastforce)
  moreover have "\<forall>i < length gs. if i \<in> dead_tasks t then gs ! i = Fin 0 else fl_less (gs ! i) (Fin 0)"
    unfolding gs_def using one by fastforce
  ultimately show ?thesis by (auto simp: gs_def)
qed


subsection \<open>A live task is chosen\<close>

lemma skip_dead_finds:
  assumes "nat ((idx + int k) mod n) \<notin> dead" "0 \<le> idx" "idx < n"
  shows "\<exists>i. skip_dead n dead idx = Some i \<and> 0 \<le> i \<and> i < n \<and> nat i \<notin> dead"
  using assms
proof (induction k arbitrary: idx)
  case 0
  then show ?case by (subst skip_dead.simps) simp
next
  case (Suc k)
  show ?case
  proof (cases "nat idx \<in> dead")
    case True
    have n: "0 < n" using Suc.prems by simp
    have "((idx + 1) mod n + int k) mod n = (idx + int (Suc k)) mod n"
      by (simp add: mod_simps algebra_simps)
    then have "\<exists>i. skip_dead n dead ((idx + 1) mod n) = Some i \<and> 0 \<le> i \<and> i < n \<and> nat i \<notin> dead"
      using Suc.prems(1) n by (intro Suc.IH) simp_all
    then show ?thesis using True by (subst skip_dead.simps) simp
  next
    case False
    then show ?thesis using Suc.prems by (subst skip_dead.simps) simp
  qed
qed

lemma round_robin_finds:
  assumes n: "0 < (n::nat)" and live: "j < n" "j \<notin> dead"
  shows "\<exists>i. skip_dead (int n) dead (idx mod int n) = Some i \<and> 0 \<le> i \<and> i < int n \<and> nat i \<notin> dead"
proof (rule skip_dead_finds [where k = "nat ((int j - idx) mod int n)"])
  have "(idx mod int n + (int j - idx) mod int n) mod int n = int j"
    using live(1) by (simp add: mod_simps)
  then show "nat ((idx mod int n + int (nat ((int j - idx) mod int n))) mod int n) \<notin> dead"
    using n live by simp
qed (use n in simp_all)

lemma dead_not_all:
  assumes "dead \<subseteq> {..<n}" "card dead < (n::nat)"
  shows "\<exists>j < n. j \<notin> dead"
proof (rule ccontr)
  assume "\<not> ?thesis"
  then have "{..<n} \<subseteq> dead" by auto
  then have "n \<le> card dead" using card_mono [of dead "{..<n}"] assms(1) finite_subset by fastforce
  then show False using assms(2) by simp
qed

lemma pick_by_gradient_live:
  assumes gs: "gradients t = Inr gs" "length gs = length (ts_tasks t)"
    and signs: "\<forall>i < length gs. if i \<in> dead_tasks t then gs ! i = Fin 0 else fl_less (gs ! i) (Fin 0)"
    and live: "j < length gs" "j \<notin> dead_tasks t"
  shows "\<exists>i w. pick_by_gradient env t = (Inr i, t\<lparr>ts_world := w\<rparr>) \<and> 0 \<le> i \<and> i < int (length gs) \<and>
               nat i \<notin> dead_tasks t"
proof -
  have sign: "gs ! k = Fin 0 \<or> fl_less (gs ! k) (Fin 0)" if "k < length gs" for k
    using signs that by (auto split: if_splits)
  have nan: "NaN \<notin> set gs"
    using sign by (fastforce simp: in_set_conv_nth)
  have j: "fl_less (gs ! j) (Fin 0)" using signs live by auto
  have ne: "gs \<noteq> []" using live(1) by (metis list.size(3) not_less0)
  show ?thesis
  proof (cases "fl_max gs = fl_min gs")
    case True
    have dead: "k \<notin> dead_tasks t" if k: "k < length gs" for k
    proof
      assume "k \<in> dead_tasks t"
      then have "gs ! k = Fin 0" using signs k by simp
      then have "\<not> fl_less (fl_max gs) (Fin 0)" using fl_max_ge [OF nan nth_mem [OF k]] by simp
      moreover have "\<not> fl_less (gs ! j) (fl_max gs)"
        unfolding True by (rule fl_min_le [OF nan nth_mem [OF live(1)]])
      moreover have "fl_max gs \<noteq> NaN" using fl_max_in [OF nan ne] nan by metis
      moreover have "gs ! j \<noteq> NaN" using nan live(1) nth_mem by metis
      ultimately show False using fl_not_less_trans [of "gs ! j" "fl_max gs" "Fin 0"] j by blast
    qed
    let ?i = "randint (se_rnd env) (w_draws (ts_world t)) (int (length gs))"
    have "0 \<le> ?i \<and> ?i < int (length gs)" using ne by (intro randint_bounds) simp
    moreover from this have "nat ?i \<notin> dead_tasks t" by (intro dead) (simp add: nat_less_iff)
    ultimately show ?thesis using True gs(1) by (simp add: pick_by_gradient_def) blast
  next
    case False
    have arg: "np_argmin gs < length gs" "\<not> fl_less (gs ! j) (gs ! np_argmin gs)"
      using np_argmin_spec [OF nan ne] live(1) by auto
    have "gs ! np_argmin gs \<noteq> Fin 0" using arg(2) j by metis
    then have "np_argmin gs \<notin> dead_tasks t" using signs arg(1) by auto
    moreover have "pick_by_gradient env t = (Inr (int (np_argmin gs)), t\<lparr>ts_world := ts_world t\<rparr>)"
      using False gs(1) by (simp add: pick_by_gradient_def)
    ultimately show ?thesis using arg(1) by (metis nat_int of_nat_0_le_iff of_nat_less_iff)
  qed
qed

lemma choose_task_live:
  assumes ok: "tables_ok t" and wm: "warm t" and ch: "choosable t"
    and live: "card (dead_tasks t) < length (ts_tasks t)"
  shows "\<exists>i w. choose_task env idx t = Some (Inr i, t\<lparr>ts_world := w\<rparr>) \<and> 0 \<le> i \<and>
               i < int (length (ts_tasks t)) \<and> nat i \<notin> dead_tasks t"
proof -
  obtain j where j: "j < length (ts_tasks t)" "j \<notin> dead_tasks t"
    using dead_not_all [OF tables_okD(8) [OF ok] live] by blast
  show ?thesis
  proof (cases "strategy t = ''round-robin''")
    case True
    obtain i where "skip_dead (int (length (ts_tasks t))) (dead_tasks t) ((idx + 1) mod int (length (ts_tasks t)))
        = Some i" "0 \<le> i" "i < int (length (ts_tasks t))" "nat i \<notin> dead_tasks t"
      using round_robin_finds [OF tables_okD(1) [OF ok] j] by blast
    then show ?thesis using True by (intro exI [of _ i] exI [of _ "ts_world t"]) (simp add: choose_task_def)
  next
    case False
    then have p: "strategy t = ''gradient''" "weights_positive t" "0 \<le> ts_alpha t" "ts_alpha t < 1"
      "0 < backward_window_size t" using ch by (auto simp: choosable_def)
    obtain gs where gs: "gradients t = Inr gs" "length gs = length (ts_tasks t)"
      "\<forall>i < length gs. if i \<in> dead_tasks t then gs ! i = Fin 0 else fl_less (gs ! i) (Fin 0)"
      using gradients_exist [OF ok wm p(2-5)] by blast
    from pick_by_gradient_live [OF gs, of j env] j gs(2) show ?thesis
      using p(1) by (auto simp: choose_task_def)
  qed
qed

subsection \<open>Rounds of the loop\<close>

definition progress :: "'p ts \<Rightarrow> 'p ts \<Rightarrow> bool" where
  "progress t t' \<longleftrightarrow>
     ready t' \<and> warm t' \<and> config t' = config t \<and> dead_tasks t \<subseteq> dead_tasks t' \<and> ts_ct t \<le> ts_ct t' \<and>
     ts_ct t' \<le> ts_ct t + num_measures_per_round t \<and>
     (ts_ct t' = ts_ct t \<longrightarrow> card (dead_tasks t) < card (dead_tasks t'))"

lemma nth_update_any: "xs[i := v] ! j = (if j = i \<and> i < length xs then v else xs ! j)"
  by (cases "i < length xs") (auto simp: list_update_beyond)

lemma warm_round:
  assumes "warm t" "round_ok i t t'"
  shows "warm t'"
proof -
  have "ts_tasks t' = ts_tasks t" "task_cts t' = (task_cts t)[i := task_cts t ! i + 1]"
    using assms(2) config_same [of t' t] by (auto simp: round_ok_def)
  then show ?thesis
    using assms(1) unfolding warm_def by (simp add: nth_update_any) fastforce
qed

lemma update_best_keeps:
  "\<exists>stop s c w. update_best t = (stop, t\<lparr>best_score := s, best_ct := c, ts_world := w\<rparr>)"
proof -
  let ?p = "print_line (stop_message t) t"
  have "?p = t\<lparr>best_score := best_score t, best_ct := best_ct t, ts_world := ts_world ?p\<rparr>"
    by (cases t) (simp add: print_line_def)
  moreover have "t = t\<lparr>best_score := best_score t, best_ct := best_ct t, ts_world := ts_world t\<rparr>" by simp
  moreover have "t\<lparr>best_score := cur_score t, best_ct := ts_ct t\<rparr> =
      t\<lparr>best_score := cur_score t, best_ct := ts_ct t, ts_world := ts_world t\<rparr>" by (cases t) simp
  moreover have "update_best t \<in> {(False, t\<lparr>best_score := cur_score t, best_ct := ts_ct t\<rparr>), (True, ?p),
      (True, t), (False, t)}"
    by (simp add: update_best_def)
  ultimately show ?thesis by (metis insertE singletonD)
qed

lemma ready_scores [simp]: "ready (t\<lparr>best_score := s, best_ct := c\<rparr>) = ready t"
proof -
  have "group_ok (t\<lparr>best_score := s, best_ct := c\<rparr>) j = group_ok t j" for j
    by (rule group_ok_cong) simp_all
  then show ?thesis by (simp add: ready_def tables_ok_def task_ok_def Let_def)
qed

lemma tune_round_progress:
  assumes env: "observing_callbacks (se_callbacks env)" "search_contract (se_search env)"
    and r: "ready t" and wm: "warm t" and ch: "choosable t"
    and live: "card (dead_tasks t) < length (ts_tasks t)"
  shows "\<exists>i stop t'. tune_round env idx t = Some (Inr (i, stop), t') \<and> progress t t'"
proof -
  have ok: "tables_ok t" using r by (simp add: ready_def)
  obtain i w where c: "choose_task env idx t = Some (Inr i, t\<lparr>ts_world := w\<rparr>)" "0 \<le> i"
    "i < int (length (ts_tasks t))" "nat i \<notin> dead_tasks t"
    using choose_task_live [OF ok wm ch live] by blast
  let ?t1 = "t\<lparr>ts_world := w\<rparr>"
  have i: "nat i < length (ts_tasks ?t1)" using c by simp
  have r1: "ready ?t1" using r by simp
  from tune_task_round [OF env r1 i] obtain t2
    where t2: "tune_task env (nat i) ?t1 = (Inr (), t2)" and rd: "round_ok (nat i) ?t1 t2" by blast
  have ok2: "tables_ok t2" "nat i < length (ts_tasks t2)"
    using rd i config_same [of t2 ?t1] by (auto simp: round_ok_def ready_def)
  obtain tags ids where adj: "adjust_similarity_group (nat i) t2 =
      (Inr (), t2\<lparr>task_tags := tags, group_task_ids := ids\<rparr>)"
      "tables_ok (t2\<lparr>task_tags := tags, group_task_ids := ids\<rparr>)"
    using adjust_similarity_group_ok [OF ok2] by blast
  let ?t3 = "t2\<lparr>task_tags := tags, group_task_ids := ids\<rparr>"
  obtain stop s k w' where ub: "update_best ?t3 = (stop, ?t3\<lparr>best_score := s, best_ct := k, ts_world := w'\<rparr>)"
    using update_best_keeps by blast
  let ?t4 = "?t3\<lparr>best_score := s, best_ct := k, ts_world := w'\<rparr>"
  have "ready ?t3" using rd adj(2) by (simp add: round_ok_def ready_def)
  then have r4: "ready ?t4" by simp
  have wm4: "warm ?t4" using warm_round [OF _ rd] wm by (simp add: warm_def)
  have grow: "card (dead_tasks t) < card (dead_tasks t2)" if "ts_ct t2 = ts_ct t"
  proof (rule psubset_card_mono)
    show "finite (dead_tasks t2)" using tables_okD(8) [OF ok2(1)] finite_subset by blast
    show "dead_tasks t \<subset> dead_tasks t2" using rd c(4) that by (auto simp: round_ok_def)
  qed
  have "progress t ?t4"
    unfolding progress_def using r4 wm4 rd grow by (simp add: round_ok_def config_def)
  moreover have "tune_round env idx t = Some (Inr (i, stop), ?t4)"
    unfolding tune_round_def c(1) using t2 adj(1) ub by simp
  ultimately show ?thesis by blast
qed

text \<open>The loop returns, and it stops at most one round past its budget.\<close>

lemma tune_loop_returns:
  assumes env: "observing_callbacks (se_callbacks env)" "search_contract (se_search env)"
    and "ready t" "warm t" "choosable t"
  shows "\<exists>t'. sched_tune_loop env trials idx t = Some (Inr (), t') \<and> ready t' \<and> warm t' \<and>
           config t' = config t \<and> dead_tasks t \<subseteq> dead_tasks t' \<and>
           ts_ct t' \<le> max (ts_ct t) (trials - 1 + num_measures_per_round t)"
  using assms(3-)
proof (induction "nat (trials - ts_ct t) + (length (ts_tasks t) - card (dead_tasks t))" arbitrary: t idx
    rule: less_induct)
  case less
  show ?case
  proof (cases "ts_ct t < trials \<and> card (dead_tasks t) < length (ts_tasks t)")
    case False
    then show ?thesis using less.prems by (subst sched_tune_loop.simps) auto
  next
    case True
    obtain i stop t' where t': "tune_round env idx t = Some (Inr (i, stop), t')" and p: "progress t t'"
      using tune_round_progress [OF env less.prems] True by blast
    have same: "config t' = config t" "ts_tasks t' = ts_tasks t" "num_measures_per_round t' = num_measures_per_round t"
      using p config_same [of t' t] by (auto simp: progress_def)
    have step: "sched_tune_loop env trials idx t =
        (if stop then Some (Inr (), t') else sched_tune_loop env trials i t')"
      using True t' by (subst sched_tune_loop.simps) simp
    show ?thesis
    proof (cases stop)
      case True
      then show ?thesis using step p \<open>ts_ct t < trials \<and> _\<close> by (auto simp: progress_def)
    next
      case False
      have fin: "finite (dead_tasks t')"
        using p tables_okD(8) [of t'] finite_subset by (auto simp: progress_def ready_def)
      have "card (dead_tasks t) \<le> card (dead_tasks t')" "card (dead_tasks t') \<le> length (ts_tasks t)"
        using p fin card_mono [of "dead_tasks t'" "dead_tasks t"]
          card_mono [of "{..<length (ts_tasks t)}" "dead_tasks t'"] tables_okD(8) [of t'] same
        by (auto simp: progress_def ready_def)
      then have decr: "nat (trials - ts_ct t') + (length (ts_tasks t') - card (dead_tasks t'))
          < nat (trials - ts_ct t) + (length (ts_tasks t) - card (dead_tasks t))"
        using p True same by (cases "ts_ct t' = ts_ct t") (auto simp: progress_def)
      have "choosable t'" using less.prems(3) config_same [OF same(1)]
        by (auto simp: choosable_def weights_positive_def split: objective.splits)
      from less.hyps [OF decr _ _ this] p obtain t'' where
        "sched_tune_loop env trials i t' = Some (Inr (), t'')" "ready t''" "warm t''" "config t'' = config t'"
        "dead_tasks t' \<subseteq> dead_tasks t''" "ts_ct t'' \<le> max (ts_ct t') (trials - 1 + num_measures_per_round t')"
        unfolding progress_def by blast
      then show ?thesis using step False same p True by (auto simp: progress_def)
    qed
  qed
qed

end
