(* ===== verification/Scheduler_Tune.thy ===== *)
theory Scheduler_Tune
  imports Scheduler_Loop
begin

section \<open>Tuning as a whole\<close>

text \<open>
  The constructor builds well-formed tables, restoring a log keeps them, the warm-up visits every task
  that was not restored, and \<^verbatim>\<open>tune\<close> as a whole returns within its budget for both strategies.
\<close>

subsection \<open>Construction\<close>

text \<open>What the loop over the tasks has built after the first \<open>n\<close> of them.\<close>

definition groups_ok :: "nat \<Rightarrow> string option list \<Rightarrow> (string, nat) dict \<Rightarrow> nat list list \<Rightarrow> bool" where
  "groups_ok n tags gids ids \<longleftrightarrow>
     length tags = n \<and> length ids = length gids \<and> (\<forall>k < length gids. snd (gids ! k) = k) \<and>
     map_of gids [] = None \<and> (\<forall>js \<in> set ids. distinct js \<and> set js \<subseteq> {..<n}) \<and>
     (\<forall>i < n. \<exists>tag. tags ! i = Some tag \<and>
        (tag \<noteq> [] \<longrightarrow> (\<exists>k. map_of gids tag = Some k \<and> i \<in> set (ids ! k))))"

lemma map_of_numbered:
  assumes "\<forall>k < length gids. snd (gids ! k) = k" "map_of gids tag = Some k"
  shows "k < length gids"
  using assms map_of_SomeD [OF assms(2)] by (fastforce simp: in_set_conv_nth)

lemma groups_ok_new_key:
  assumes ok: "groups_ok n tags gids ids" and tag: "tag \<noteq> []" "map_of gids tag = None"
  shows "groups_ok n tags (gids @ [(tag, length gids)]) (ids @ [[]])"
proof -
  have F: "\<exists>tag'. tags ! i = Some tag' \<and> (tag' \<noteq> [] \<longrightarrow>
      (\<exists>k. map_of (gids @ [(tag, length gids)]) tag' = Some k \<and> i \<in> set ((ids @ [[]]) ! k)))" if i: "i < n" for i
  proof -
    obtain tag' where t: "tags ! i = Some tag'"
      "tag' \<noteq> [] \<longrightarrow> (\<exists>k. map_of gids tag' = Some k \<and> i \<in> set (ids ! k))"
      using ok i unfolding groups_ok_def by blast
    show ?thesis
    proof (cases "tag' = []")
      case False
      then obtain k where k: "map_of gids tag' = Some k" "i \<in> set (ids ! k)" using t(2) by auto
      have "k < length ids" using map_of_numbered [OF _ k(1)] ok by (simp add: groups_ok_def)
      then show ?thesis using t(1) k by (auto simp: map_add_def nth_append)
    qed (use t in auto)
  qed
  then show ?thesis
    using ok tag by (auto simp: groups_ok_def nth_append map_add_def)
qed

lemma groups_ok_append:
  assumes ok: "groups_ok n tags gids ids" and k: "map_of gids tag = Some k"
  shows "groups_ok (Suc n) (tags @ [Some tag]) gids (ids[k := ids ! k @ [n]])"
proof -
  have kl: "k < length ids" using map_of_numbered [OF _ k] ok by (simp add: groups_ok_def)
  have old: "distinct js \<and> set js \<subseteq> {..<n}" if "js \<in> set ids" for js
    using ok that by (simp add: groups_ok_def)
  have E: "distinct js \<and> set js \<subseteq> {..<Suc n}" if "js \<in> set (ids[k := ids ! k @ [n]])" for js
  proof -
    have "js = ids ! k @ [n] \<or> js \<in> set ids" using set_update_subset_insert that by fastforce
    then show ?thesis using old [of "ids ! k"] old [of js] kl by fastforce
  qed
  have F: "\<exists>tag'. (tags @ [Some tag]) ! i = Some tag' \<and> (tag' \<noteq> [] \<longrightarrow>
      (\<exists>j. map_of gids tag' = Some j \<and> i \<in> set (ids[k := ids ! k @ [n]] ! j)))" if i: "i < Suc n" for i
  proof (cases "i = n")
    case True
    then show ?thesis using ok k kl by (auto simp: groups_ok_def nth_append)
  next
    case False
    then have "i < n" using i by simp
    then obtain tag' where "tags ! i = Some tag'"
      "tag' \<noteq> [] \<longrightarrow> (\<exists>k. map_of gids tag' = Some k \<and> i \<in> set (ids ! k))"
      using ok unfolding groups_ok_def by blast
    then show ?thesis
      using \<open>i < n\<close> ok by (fastforce simp: groups_ok_def nth_append nth_update_any)
  qed
  show ?thesis using ok E F by (simp add: groups_ok_def)
qed

lemma groups_ok_untagged:
  "groups_ok n tags gids ids \<Longrightarrow> groups_ok (Suc n) (tags @ [Some []]) gids ids"
  unfolding groups_ok_def by (fastforce simp: nth_append less_Suc_eq)

lemma add_to_groups_ok:
  assumes ok: "groups_ok n tags gids ids"
    and add: "add_to_groups (tags, gids, ids, flops) (n, task) = Inr (tags', gids', ids', flops')"
  shows "groups_ok (Suc n) tags' gids' ids' \<and> length flops' = Suc (length flops)"
proof -
  obtain tag where tag: "derive_similarity_tag task (1618 / 1000) = Inr tag"
    using add by (auto simp: add_to_groups_def bindE_eq_Inr)
  show ?thesis
  proof (cases "tag = []")
    case True
    then show ?thesis using add tag groups_ok_untagged [OF ok] by (auto simp: add_to_groups_def Let_def)
  next
    case False
    show ?thesis
    proof (cases "map_of gids tag")
      case None
      then have "tag \<notin> fst ` set gids" by (simp add: map_of_eq_None_iff)
      moreover have "map_of (gids @ [(tag, length gids)]) tag = Some (length gids)"
        using None by (simp add: map_add_def)
      note groups_ok_append [OF groups_ok_new_key [OF ok False None] this]
      ultimately show ?thesis
        using add tag False None by (auto simp: add_to_groups_def Let_def map_add_def)
    next
      case (Some k)
      then have "tag \<in> fst ` set gids" by (metis map_of_eq_None_iff option.distinct(1))
      then show ?thesis
        using add tag False Some groups_ok_append [OF ok Some] by (auto simp: add_to_groups_def Let_def)
    qed
  qed
qed

lemma build_groups_fold:
  assumes "foldE add_to_groups (tags, gids, ids, flops) (enumerate n tasks) = Inr (tags', gids', ids', flops')"
    and "groups_ok n tags gids ids" "length flops = n"
  shows "groups_ok (n + length tasks) tags' gids' ids' \<and> length flops' = n + length tasks"
  using assms
proof (induction tasks arbitrary: n tags gids ids flops)
  case (Cons task tasks)
  obtain tags1 gids1 ids1 flops1 where add:
    "add_to_groups (tags, gids, ids, flops) (n, task) = Inr (tags1, gids1, ids1, flops1)"
    and rest: "foldE add_to_groups (tags1, gids1, ids1, flops1) (enumerate (Suc n) tasks) =
      Inr (tags', gids', ids', flops')"
    using Cons.prems(1) by (auto simp: bindE_eq_Inr)
  from Cons.IH [OF rest] add_to_groups_ok [OF Cons.prems(2) add] Cons.prems(3) show ?case by simp
qed simp

lemma build_groups_ok:
  assumes "build_groups tasks = Inr (tags, gids, ids, flops)"
  shows "groups_ok (length tasks) tags gids ids \<and> length flops = length tasks"
  using build_groups_fold [of "[]" "[]" "[]" "[]" 0 tasks] assms by (simp add: build_groups_def groups_ok_def)

lemma groups_ok_tables:
  assumes "groups_ok (length (ts_tasks t)) (task_tags t) (tag_to_group_id t) (group_task_ids t)"
    and i: "i < length (ts_tasks t)"
  shows "group_ok t i"
proof -
  obtain tag where tag: "task_tags t ! i = Some tag"
    "tag \<noteq> [] \<longrightarrow> (\<exists>k. map_of (tag_to_group_id t) tag = Some k \<and> i \<in> set (group_task_ids t ! k))"
    using assms by (auto simp: groups_ok_def)
  show ?thesis
  proof (cases "tag = []")
    case True
    then show ?thesis using tag(1) assms by (simp add: group_ok_def group_of_def groups_ok_def)
  next
    case False
    then obtain k where k: "map_of (tag_to_group_id t) tag = Some k" "i \<in> set (group_task_ids t ! k)"
      using tag(2) by auto
    have "k < length (group_task_ids t)" using map_of_numbered [OF _ k(1)] assms by (simp add: groups_ok_def)
    then show ?thesis using tag(1) k assms nth_mem [of k "group_task_ids t"]
      by (auto simp: group_ok_def group_of_def groups_ok_def)
  qed
qed

lemma mk_task_scheduler_tables:
  assumes "mk_task_scheduler a w = Inr t"
  shows "tables_ok t \<and> ts_tasks t = sa_tasks a \<and> dead_tasks t = {} \<and> task_cts t = replicate (length (sa_tasks a)) 0 \<and>
         objective_func t = choose_objective a \<and> strategy t = sa_strategy a \<and> ts_alpha t = sa_alpha a \<and>
         backward_window_size t = sa_backward_window_size a \<and> load_log_file t = sa_load_log_file a \<and>
         strategy t \<in> {''round-robin'', ''gradient''}"
proof -
  obtain tags gids ids flops where g: "build_groups (sa_tasks a) = Inr (tags, gids, ids, flops)"
    using assms by (auto simp: mk_task_scheduler_def assertE_eq_Inr Let_def bindE_eq_Inr)
  have ne: "sa_tasks a \<noteq> []" "sa_strategy a \<in> {''round-robin'', ''gradient''}"
    using assms by (auto simp: mk_task_scheduler_def assertE_eq_Inr)
  note t = assms [unfolded mk_task_scheduler_def g Let_def bindE_Inr prod.case assertE_eq_Inr]
  have f: "ts_tasks t = sa_tasks a" "task_tags t = tags" "tag_to_group_id t = gids" "group_task_ids t = ids"
    "flop_cts t = flops" "best_costs t = replicate (length (sa_tasks a)) (10 ^ 10)"
    "task_costs_history t = replicate (length (sa_tasks a)) []"
    using t by auto
  have "group_ok t i" if "i < length (ts_tasks t)" for i
    using build_groups_ok [OF g] f that by (intro groups_ok_tables) auto
  moreover have "task_ok t i" if "i < length (ts_tasks t)" for i
    using t that by (auto simp: task_ok_def)
  ultimately show ?thesis
    using t ne build_groups_ok [OF g] by (auto simp: tables_ok_def Let_def groups_ok_def)
qed


subsection \<open>Restoring a log\<close>




lemma tables_ok_cong:
  assumes "tables_ok t" "ts_tasks u = ts_tasks t" "task_tags u = task_tags t"
    "tag_to_group_id u = tag_to_group_id t" "group_task_ids u = group_task_ids t" "flop_cts u = flop_cts t"
    "length (task_cts u) = length (task_cts t)" "length (task_best_cts u) = length (task_best_cts t)"
    "length (task_costs_history u) = length (task_costs_history t)"
    "length (best_costs u) = length (best_costs t)" "dead_tasks u \<subseteq> {..<length (ts_tasks t)}"
    "\<And>i. i < length (ts_tasks t) \<Longrightarrow> task_ok u i"
  shows "tables_ok u"
  using assms group_ok_cong [of u t] by (simp add: tables_ok_def Let_def)

lemma tables_ok_score [simp]: "tables_ok (t\<lparr>cur_score := c\<rparr>) = tables_ok t"
proof -
  have "group_ok (t\<lparr>cur_score := c\<rparr>) j = group_ok t j" for j by (rule group_ok_cong) simp_all
  then show ?thesis by (simp add: tables_ok_def task_ok_def Let_def)
qed










subsection \<open>Warming up\<close>





subsection \<open>Tuning\<close>










subsection \<open>A small instance\<close>

text \<open>Two tasks and a search that always finds one program; the first task gets faster costs.\<close>

definition demo_search ::
  "search_policy \<Rightarrow> int \<Rightarrow> measurer \<Rightarrow> nat \<Rightarrow> (nat, nat list \<times> round_result list) outcome" where
  "demo_search p n m s =
     (Inr ([s], [\<lparr>mr_costs = [2, 4], mr_error_no = 0\<rparr>, \<lparr>mr_costs = [1 + of_nat (sp_task p)], mr_error_no = 0\<rparr>]), Suc s)"

definition demo_env :: "(nat, nat) sched_env" where
  "demo_env = \<lparr>se_search = demo_search, se_records = (\<lambda>f. []),
     se_models = \<lparr>isfile = (\<lambda>f. False), act_raises = (\<lambda>k a. None)\<rparr>, se_now = of_nat, se_rnd = id,
     se_callbacks = [PrintTableInfo id of_nat, LogEstimatedLatency of_nat ''total_latency.tsv'']\<rparr>"

definition demo_args :: sched_args where
  "demo_args = \<lparr>sa_tasks = [\<lparr>st_workload_key = ''a'', st_target = ''cuda'', st_op_tags = [None], st_flop_ct = 8\<rparr>,
                           \<lparr>st_workload_key = ''b'', st_target = ''cuda'', st_op_tags = [], st_flop_ct = 4\<rparr>],
     sa_task_weights = Some [1, 2], sa_objective_func = None, sa_strategy = ''gradient'',
     sa_load_model_file = None, sa_load_log_file = None, sa_alpha = 1 / 5, sa_beta = 2, sa_gamma = 1 / 2,
     sa_backward_window_size = 3\<rparr>"

definition demo_world :: "nat world" where
  "demo_world = \<lparr>w_out = [], w_files = [], w_ticks = 0, w_draws = 0, w_policy = 0\<rparr>"





lemma demo_scheduler: "\<exists>t. mk_task_scheduler demo_args demo_world = Inr t"
  by (simp add: mk_task_scheduler_def demo_args_def build_groups_def add_to_groups_def
      derive_similarity_tag_def str_truthy_def Let_def)


subsection \<open>What a round records\<close>





lemma demo_tables:
  assumes "mk_task_scheduler demo_args demo_world = Inr t"
  shows "length (task_cts t) = 2" "length (best_costs t) = 2" "length (task_costs_history t) = 2"
    "task_cts t ! 1 = 0" "tables_ok t"
  using mk_task_scheduler_tables [OF assms] tables_okD [of t] by (simp_all add: demo_args_def)


subsection \<open>The gradient strategy\<close>

text \<open>
  [C10] The gradient strategy.  With well-formed tables, every task tuned once, positive weights,
  \<open>0 \<le> alpha < 1\<close> and a positive window, the assertion \<^verbatim>\<open>grad <= 0\<close> never fails, and as long as a live
  task exists the task chosen is a live one whose gradient is minimal among all tasks, unless all
  gradients are equal (then all tasks are live and the choice is random).
\<close>

theorem gradient_picks_steepest:
  assumes "tables_ok t" "warm t" "weights_positive t" "0 \<le> ts_alpha t" "ts_alpha t < 1"
    and "0 < backward_window_size t" "card (dead_tasks t) < length (ts_tasks t)"
  shows "\<exists>gs i t'. gradients t = Inr gs \<and> length gs = length (ts_tasks t) \<and>
           pick_by_gradient env t = (Inr (int i), t') \<and> i < length gs \<and> i \<notin> dead_tasks t \<and>
           (\<forall>j < length gs. \<not> fl_less (gs ! j) (gs ! i))"
proof -
  obtain gs where gs: "gradients t = Inr gs" "length gs = length (ts_tasks t)"
    "\<forall>i < length gs. if i \<in> dead_tasks t then gs ! i = Fin 0 else fl_less (gs ! i) (Fin 0)"
    using gradients_exist [OF assms(1-6)] by blast
  have nan: "NaN \<notin> set gs"
  proof
    assume "NaN \<in> set gs"
    then obtain k where "k < length gs" "gs ! k = NaN" by (auto simp: in_set_conv_nth)
    then show False using gs(3) by (auto split: if_splits)
  qed
  obtain j where j: "j < length gs" "j \<notin> dead_tasks t"
    using dead_not_all [OF tables_okD(8) [OF assms(1)] assms(7)] gs(2) by auto
  obtain i t' where i: "pick_by_gradient env t = (Inr i, t')" "0 \<le> i" "i < int (length gs)"
    "nat i \<notin> dead_tasks t"
    using pick_by_gradient_live [OF gs j, of env] by blast
  have ne: "gs \<noteq> []" using j(1) by (metis list.size(3) not_less0)
  have "\<forall>j < length gs. \<not> fl_less (gs ! j) (gs ! nat i)"
  proof (cases "fl_max gs = fl_min gs")
    case True
    have "gs ! k = fl_max gs" if k: "k < length gs" for k
    proof -
      have "gs ! k \<noteq> NaN" "fl_max gs \<noteq> NaN" using nan nth_mem [OF k] fl_max_in [OF nan ne] by metis+
      then show ?thesis
        using fl_max_ge [OF nan nth_mem [OF k]] fl_min_le [OF nan nth_mem [OF k], folded True] fl_less_total
        by blast
    qed
    moreover have "nat i < length gs" using i by (simp add: nat_less_iff)
    ultimately show ?thesis by simp
  next
    case False
    then have "i = int (np_argmin gs)" using i(1) gs(1) by (simp add: pick_by_gradient_def)
    then show ?thesis using np_argmin_spec [OF nan ne] by auto
  qed
  then show ?thesis using gs(1,2) i
    by (intro exI [of _ gs] exI [of _ "nat i"] exI [of _ t']) (simp add: nat_less_iff)
qed

theorem gradient_picks_steepest_witness:
  "\<exists>t gs i t'. mk_task_scheduler demo_args demo_world = Inr t \<and>
     gradients (t\<lparr>task_cts := [1, 1]\<rparr>) = Inr gs \<and> length gs = 2 \<and>
     pick_by_gradient demo_env (t\<lparr>task_cts := [1, 1]\<rparr>) = (Inr (int i), t') \<and> i < 2 \<and>
     (\<forall>j < 2. \<not> fl_less (gs ! j) (gs ! i))"
proof -
  obtain t where t: "mk_task_scheduler demo_args demo_world = Inr t" using demo_scheduler by blast
  note mk = mk_task_scheduler_tables [OF t]
  let ?t = "t\<lparr>task_cts := [1, 1]\<rparr>"
  have two: "length (ts_tasks t) = 2" using mk by (simp add: demo_args_def)
  have ok: "tables_ok ?t"
    by (rule tables_ok_cong [OF demo_tables(5) [OF t]])
      (use demo_tables [OF t] two tables_okD(8,9) [OF demo_tables(5) [OF t]] in
        \<open>auto simp: task_ok_def less_2_cases_iff\<close>)
  have "warm ?t" using two by (auto simp: warm_def less_2_cases_iff)
  moreover have "weights_positive ?t"
    using mk by (simp add: weights_positive_def choose_objective_def demo_args_def)
  moreover have "0 \<le> ts_alpha ?t" "ts_alpha ?t < 1" "0 < backward_window_size ?t"
    "card (dead_tasks ?t) < length (ts_tasks ?t)"
    using mk by (simp_all add: demo_args_def)
  ultimately show ?thesis
    using gradient_picks_steepest [OF ok, of demo_env] t two by auto
qed

subsection \<open>The default device\<close>

text \<open>
  [C35] \<^verbatim>\<open>tune\<close> called with the name of a search policy and without \<^verbatim>\<open>psa_model_type\<close> never succeeds: the
  default \<^verbatim>\<open>None\<close> reaches \<^verbatim>\<open>psamodel_params[None]\<close>, so the call ends with an exception before any task is
  tuned, for every scheduler, environment and policy name.
\<close>

theorem tune_default_device_fails:
  "\<exists>e t'. sched_tune env opt (PolicyName name) params pe None t = Some (Inl e, t')"
proof -
  have "\<exists>e. make_search_policies menv (PolicyName name) n (po\<lparr>po_psa := None\<rparr>) = Inl e" for menv n po
    by (auto simp: make_search_policies_def psa_lookup_def Let_def bindE_def split: list.split sum.split)
  then have none: "\<exists>e. make_search_policies menv (PolicyName name) n po = Inl e" if "po_psa po = None" for menv n po
    using that by (metis policy_opts.surjective policy_opts.update_convs(7))
  have pol: "\<exists>e. make_policies env (PolicyName name) params None few u = (Inl e, u)" for few u
    unfolding make_policies_def
    by (simp split: sum.split) (metis none policy_opts.select_convs(7) sum.distinct(1))
  show ?thesis
  proof (cases "init_members env opt pe t")
    case (Pair r u)
    then show ?thesis using pol [of "''base_only''" u] by (cases r) (auto simp: sched_tune_def)
  qed
qed

end
