(* ===== verification/Workload_Keys.thy ===== *)
theory Workload_Keys
  imports Json Task_Scheduler
begin

section \<open>Workload keys\<close>

text \<open>
  \<^verbatim>\<open>auto_scheduler/utils.py\<close>: decoding a workload key into a function name and its flattened arguments,
  the distance factor between two workloads and the shortening of tracebacks.  Python compares numbers by value across \<^verbatim>\<open>bool\<close>, \<^verbatim>\<open>int\<close> and
  \<^verbatim>\<open>float\<close>; the function \<open>jkey\<close> maps a JSON value to what equality and hashing see of it.  A
  float literal is read as the exact rational it denotes.
\<close>

subsection \<open>Values as Python compares them\<close>

datatype jatom = ANum rat | AStr string | ANone | AOther json

fun jkey :: "json \<Rightarrow> jatom" where
  "jkey JNull = ANone"
| "jkey (JStr s) = AStr s"
| "jkey (JArr vs) = AOther (JArr vs)"
| "jkey (JObj kvs) = AOther (JObj kvs)"
| "jkey v = ANum (the (json_num v))"

text \<open>\<^verbatim>\<open>isinstance(x, int)\<close>, which holds of booleans too, and hashability: lists and dicts are not.\<close>

fun is_int :: "json \<Rightarrow> bool" where
  "is_int (JBool b) = True"
| "is_int (JNum n) = True"
| "is_int v = False"

fun hashable :: "json \<Rightarrow> bool" where
  "hashable (JArr vs) = False"
| "hashable (JObj kvs) = False"
| "hashable v = True"

subsection \<open>Decoding a key\<close>

fun flatten_list :: "json list \<Rightarrow> json list" where
  "flatten_list [] = []"
| "flatten_list (JArr vs # elts) = flatten_list vs @ flatten_list elts"
| "flatten_list (elt # elts) = elt # flatten_list elts"

type_synonym workload = "json \<times> json list option"

definition decode_workload_key :: "string \<Rightarrow> workload" where
  "decode_workload_key workload_key =
     (case loads workload_key of
        Inr (JArr (name # args)) \<Rightarrow> (name, Some (flatten_list args))
      | _ \<Rightarrow> (JStr workload_key, None))"

subsection \<open>The distance factor\<close>

text \<open>One pair of arguments: the factor so far becomes infinite, is multiplied, or stays; the remainder of
  an integer by something that is no number is a \<^verbatim>\<open>TypeError\<close>.\<close>

fun dis_factor_args :: "(json \<times> json) list \<Rightarrow> rat \<Rightarrow> fl res" where
  "dis_factor_args [] dis_f = Inr (Fin dis_f)"
| "dis_factor_args ((target_arg, arg) # rest) dis_f =
     (if is_int target_arg then
        (if json_num target_arg = Some 0 \<or> json_num arg = Some 0 then
           (if jkey target_arg \<noteq> jkey arg then Inr PInf else dis_factor_args rest dis_f)
         else case json_num arg of
                None \<Rightarrow> Inl TypeError
              | Some a \<Rightarrow>
                  if of_int \<lfloor>the (json_num target_arg) / a\<rfloor> \<noteq> the (json_num target_arg) / a then Inr PInf
                  else dis_factor_args rest (dis_f * (the (json_num target_arg) / a)))
      else if jkey target_arg \<noteq> jkey arg then Inr PInf
      else dis_factor_args rest dis_f)"

definition opt_list :: "json list option \<Rightarrow> json list" where
  "opt_list a = (case a of None \<Rightarrow> [] | Some xs \<Rightarrow> xs)"

definition calc_workload_dis_factor :: "workload \<Rightarrow> workload \<Rightarrow> fl res" where
  "calc_workload_dis_factor target_workload_pair workload_pair =
     (let target_args = opt_list (snd target_workload_pair); args = opt_list (snd workload_pair)
      in if jkey (fst workload_pair) \<noteq> jkey (fst target_workload_pair) \<or> length target_args \<noteq> length args
         then Inr PInf
         else dis_factor_args (zip target_args args) 1)"

subsection \<open>Tracebacks\<close>

definition MAX_TRACEBACK_INFO_LEN :: nat where
  "MAX_TRACEBACK_INFO_LEN = 512"

definition make_traceback_info :: "string \<Rightarrow> string" where
  "make_traceback_info info =
     (if length info > MAX_TRACEBACK_INFO_LEN
      then take (MAX_TRACEBACK_INFO_LEN div 2) info @ newline @ ''...'' @ newline @
           drop (length info - MAX_TRACEBACK_INFO_LEN div 2) info
      else info)"

text \<open>
  [C33] The message that \<^verbatim>\<open>make_traceback_info\<close> returns keeps the first and the last 256 characters of a long
  traceback and is never longer than 517 characters; for a long traceback it has exactly this length, five
  more than \<^verbatim>\<open>MAX_TRACEBACK_INFO_LEN\<close>, and a short one is returned unchanged.
\<close>

theorem traceback_info_bounds:
  "length (make_traceback_info info) = (if length info \<le> 512 then length info else 517) \<and>
   take 256 (make_traceback_info info) = take 256 info \<and>
   rev (take 256 (rev (make_traceback_info info))) = rev (take 256 (rev info))"
proof (cases "length info \<le> 512")
  case True
  then show ?thesis by (simp add: make_traceback_info_def MAX_TRACEBACK_INFO_LEN_def)
next
  case False
  have "take 256 (rev (drop (length info - 256) info)) = take 256 (rev info)"
    using False by (simp add: rev_drop)
  then show ?thesis using False by (simp add: make_traceback_info_def MAX_TRACEBACK_INFO_LEN_def)
qed

subsection \<open>What the distance factor means\<close>

text \<open>The factor of one pair of arguments that do not rule each other out.\<close>

definition arg_ratio :: "json \<times> json \<Rightarrow> rat" where
  "arg_ratio p =
     (if is_int (fst p) \<and> json_num (fst p) \<noteq> Some 0 then the (json_num (fst p)) / the (json_num (snd p)) else 1)"

definition arg_compatible :: "json \<times> json \<Rightarrow> bool" where
  "arg_compatible p \<longleftrightarrow>
     (if is_int (fst p) \<and> json_num (fst p) \<noteq> Some 0
      then (\<exists>a. json_num (snd p) = Some a \<and> a \<noteq> 0 \<and> of_int \<lfloor>the (json_num (fst p)) / a\<rfloor> = the (json_num (fst p)) / a)
      else jkey (fst p) = jkey (snd p))"

lemma is_int_num: "is_int v \<Longrightarrow> json_num v \<noteq> None"
  by (cases v) auto

lemma jkey_num: "jkey v = ANum q \<longleftrightarrow> json_num v = Some q"
  by (cases v) auto

lemma dis_factor_args_finite:
  "dis_factor_args ps f = Inr (Fin q) \<Longrightarrow>
   list_all arg_compatible ps \<and> q = f * prod_list (map arg_ratio ps)"
proof (induction ps arbitrary: f)
  case (Cons p ps)
  obtain ta a where p: "p = (ta, a)" by (cases p)
  show ?case
  proof (cases "is_int ta \<and> json_num ta \<noteq> Some 0 \<and> json_num a \<noteq> Some 0")
    case True
    then obtain v where v: "json_num a = Some v" "v \<noteq> 0" "of_int \<lfloor>the (json_num ta) / v\<rfloor> = the (json_num ta) / v"
      "dis_factor_args ps (f * (the (json_num ta) / v)) = Inr (Fin q)"
      using Cons.prems p by (auto split: option.splits if_splits)
    then show ?thesis using Cons.IH [OF v(4)] True p
      by (simp add: arg_compatible_def arg_ratio_def mult.assoc)
  next
    case False
    then have eq: "jkey ta = jkey a" and rest: "dis_factor_args ps f = Inr (Fin q)"
      using Cons.prems p by (auto split: option.splits if_splits)
    have "\<not> (is_int ta \<and> json_num ta \<noteq> Some 0)"
    proof
      assume *: "is_int ta \<and> json_num ta \<noteq> Some 0"
      then have "json_num a = Some 0" using False by blast
      then have "jkey ta = ANum 0" using eq by (simp add: jkey_num [symmetric])
      then show False using * by (simp add: jkey_num)
    qed
    then show ?thesis using Cons.IH [OF rest] eq p by (auto simp: arg_compatible_def arg_ratio_def)
  qed
qed simp

lemma dis_factor_args_self:
  "dis_factor_args (zip xs xs) f = Inr (Fin f)"
proof (induction xs arbitrary: f)
  case (Cons x xs)
  show ?case
  proof (cases "is_int x \<and> json_num x \<noteq> Some 0")
    case True
    then obtain v where "json_num x = Some v" "v \<noteq> 0" using is_int_num by fastforce
    then show ?thesis using True Cons by simp
  next
    case False
    then show ?thesis using Cons by auto
  qed
qed simp

text \<open>
  [C25] The distance factor of two workloads.  A workload is at distance one from itself.  A finite
  factor is returned only for workloads of the same function with equally many arguments, each pair of
  which is equal or an integer with a divisor of it, and it is the product of the quotients of the
  integer arguments.
\<close>

theorem dis_factor_spec:
  "calc_workload_dis_factor w w = Inr (Fin 1) \<and>
   (calc_workload_dis_factor target w = Inr (Fin q) \<longrightarrow>
      jkey (fst target) = jkey (fst w) \<and> length (opt_list (snd target)) = length (opt_list (snd w)) \<and>
      list_all arg_compatible (zip (opt_list (snd target)) (opt_list (snd w))) \<and>
      q = prod_list (map arg_ratio (zip (opt_list (snd target)) (opt_list (snd w)))))"
  using dis_factor_args_finite [of "zip (opt_list (snd target)) (opt_list (snd w))" 1 q]
  by (auto simp: calc_workload_dis_factor_def Let_def dis_factor_args_self split: if_splits)

theorem dis_factor_spec_witness:
  "calc_workload_dis_factor (JStr ''f'', Some [JNum 8, JStr ''c'']) (JStr ''f'', Some [JNum 2, JStr ''c'']) =
     Inr (Fin 4) \<and>
   list_all arg_compatible [(JNum 8, JNum 2), (JStr ''c'', JStr ''c'')]"
proof -
  have "calc_workload_dis_factor (JStr ''f'', Some [JNum 8, JStr ''c'']) (JStr ''f'', Some [JNum 2, JStr ''c'']) =
     Inr (Fin 4)" by (simp add: calc_workload_dis_factor_def opt_list_def)
  then show ?thesis
    using dis_factor_spec [of "(JStr ''f'', Some [JNum 2, JStr ''c''])" "(JStr ''f'', Some [JNum 8, JStr ''c''])" 4]
    by (simp add: opt_list_def)
qed

end
