(* ===== verification/History_Best.thy ===== *)
theory History_Best
  imports Workload_Keys
begin

section \<open>Dispatch contexts of the auto-scheduler\<close>

text \<open>
  \<^verbatim>\<open>auto_scheduler/dispatcher.py\<close>: the tables of best records that \<^verbatim>\<open>ApplyHistoryBest\<close> builds from a log
  and answers queries from, the sampling variant, the fallback context at the root and the stack of
  contexts.  A state is an abstract value; costs are means in \<^typ>\<open>fl\<close>, so that a record without costs
  (whose mean is NaN) is covered.  The nested dictionaries are association lists whose keys are compared as
  Python compares them.
\<close>

subsection \<open>Dictionaries with Python's key equality\<close>

fun get_by :: "('k \<Rightarrow> 'c) \<Rightarrow> ('k, 'v) dict \<Rightarrow> 'k \<Rightarrow> 'v option" where
  "get_by f [] k = None"
| "get_by f ((k', v) # d) k = (if f k' = f k then Some v else get_by f d k)"

fun put_by :: "('k \<Rightarrow> 'c) \<Rightarrow> 'k \<Rightarrow> 'v \<Rightarrow> ('k, 'v) dict \<Rightarrow> ('k, 'v) dict" where
  "put_by f k v [] = [(k, v)]"
| "put_by f k v ((k', v') # d) = (if f k' = f k then (k', v) # d else (k', v') # put_by f k v d)"

lemma get_put_by: "get_by f (put_by f k v d) k' = (if f k = f k' then Some v else get_by f d k')"
  by (induction d) auto

subsection \<open>The tables\<close>

type_synonym 's entry = "(json list option, 's \<times> fl) dict"
type_synonym 's best = "(string, (json, 's entry) dict) dict"

definition args_key :: "json list option \<Rightarrow> jatom list option" where
  "args_key a = map_option (map jkey) a"

definition args_hashable :: "json list option \<Rightarrow> bool" where
  "args_hashable a = list_all hashable (opt_list a)"

text \<open>
  \<^verbatim>\<open>get_workload_entry\<close>: both levels are created when missing, and the entry comes back with the hash and
  the arguments.  A function name that is a list or a dictionary cannot be a key.
\<close>

definition get_workload_entry :: "string \<Rightarrow> string \<Rightarrow> 's best \<Rightarrow> ('s best, 's entry \<times> workload) outcome" where
  "get_workload_entry target_key workload_key best =
     (let (workload_hash, workload_args) = decode_workload_key workload_key;
          hashes = (case get_by id best target_key of None \<Rightarrow> [] | Some d \<Rightarrow> d);
          best1 = put_by id target_key hashes best
      in if \<not> hashable workload_hash then (Inl TypeError, best1)
         else let entry = (case get_by jkey hashes workload_hash of None \<Rightarrow> [] | Some e \<Rightarrow> e)
              in (Inr (entry, workload_hash, workload_args),
                  put_by id target_key (put_by jkey workload_hash entry hashes) best1))"

text \<open>The entry that has been changed in place, written back.\<close>

definition put_entry :: "string \<Rightarrow> json \<Rightarrow> 's entry \<Rightarrow> 's best \<Rightarrow> 's best" where
  "put_entry target_key workload_hash entry best =
     put_by id target_key
       (put_by jkey workload_hash entry (case get_by id best target_key of None \<Rightarrow> [] | Some d \<Rightarrow> d)) best"

record target =
  tgt_keys :: "string list"
  tgt_model :: string
  tgt_str :: string

record 's measure_input =
  mi_target :: target
  mi_workload_key :: string
  mi_state :: 's

text \<open>The costs of a result that are float constants.\<close>

record log_result =
  lg_costs :: "rat list"
  lg_error_no :: int

record 's history =
  best_by_targetkey :: "'s best"
  best_by_model :: "'s best"
  best_user_defined :: "'s best"
  include_compatible :: bool

text \<open>
  Offering a record to one table; under \<open>insert_new\<close> a workload that has no record yet gets one
  (the table by model refuses the model name \<^verbatim>\<open>unknown\<close>).
\<close>

definition offer :: "bool \<Rightarrow> string \<Rightarrow> string \<Rightarrow> 's \<Rightarrow> fl \<Rightarrow> 's best \<Rightarrow> ('s best, unit) outcome" where
  "offer insert_new target_key workload_key state cost best =
     bindO (get_workload_entry target_key workload_key best) (\<lambda>(entry, h, args) best1.
       if \<not> args_hashable args then (Inl TypeError, best1)
       else case get_by args_key entry args of
              None \<Rightarrow>
                (Inr (), if insert_new
                         then put_entry target_key h (put_by args_key args (state, cost) entry) best1
                         else best1)
            | Some (_, other_cost) \<Rightarrow>
                (Inr (), if fl_less cost other_cost
                         then put_entry target_key h (put_by args_key args (state, cost) entry) best1
                         else best1))"

definition offer_targetkeys :: "'s measure_input \<Rightarrow> fl \<Rightarrow> 's history \<Rightarrow> ('s history, unit) outcome" where
  "offer_targetkeys inp cost h =
     (case foldO (\<lambda>k b. offer True k (mi_workload_key inp) (mi_state inp) cost b)
             (tgt_keys (mi_target inp)) (best_by_targetkey h) of
        (r, b) \<Rightarrow> (r, h\<lparr>best_by_targetkey := b\<rparr>))"

definition offer_model :: "'s measure_input \<Rightarrow> fl \<Rightarrow> 's history \<Rightarrow> ('s history, unit) outcome" where
  "offer_model inp cost h =
     (case offer (tgt_model (mi_target inp) \<noteq> ''unknown'') (tgt_model (mi_target inp)) (mi_workload_key inp)
             (mi_state inp) cost (best_by_model h) of
        (r, b) \<Rightarrow> (r, h\<lparr>best_by_model := b\<rparr>))"

text \<open>
  \<^verbatim>\<open>load\<close>: the counters of all records and of the records per task (workload key and target) bound how
  many are read; failed measurements count but are not offered.
\<close>

fun history_load ::
  "nat option \<Rightarrow> nat option \<Rightarrow> ('s measure_input \<times> log_result) list \<Rightarrow> nat \<Rightarrow> (string \<times> string \<Rightarrow> nat) \<Rightarrow>
   's history \<Rightarrow> ('s history, unit) outcome" where
  "history_load n_lines n_per_task [] counter per_task h = (Inr (), h)"
| "history_load n_lines n_per_task ((inp, res) # records) counter per_task h =
     (let task = (mi_workload_key inp, tgt_str (mi_target inp))
      in if (case n_lines of None \<Rightarrow> False | Some n \<Rightarrow> n \<le> counter) then (Inr (), h)
         else if (case n_per_task of None \<Rightarrow> False | Some n \<Rightarrow> n \<le> per_task task)
         then history_load n_lines n_per_task records counter per_task h
         else
           let per_task' = per_task(task := Suc (per_task task))
           in if lg_error_no res \<noteq> 0
              then history_load n_lines n_per_task records (Suc counter) per_task' h
              else
                let cost = np_mean (lg_costs res)
                in bindO (offer_targetkeys inp cost h) (\<lambda>_ h1.
                   bindO (offer_model inp cost h1) (\<lambda>_ h2.
                   history_load n_lines n_per_task records (Suc counter) per_task' h2)))"

definition mk_history :: "('s measure_input \<times> log_result) list \<Rightarrow> nat option \<Rightarrow> nat option \<Rightarrow> bool \<Rightarrow>
    ('s history, unit) outcome" where
  "mk_history records n_lines n_line_per_task compatible =
     history_load n_lines n_line_per_task records 0 (\<lambda>_. 0)
       \<lparr>best_by_targetkey = [], best_by_model = [], best_user_defined = [], include_compatible = compatible\<rparr>"

subsection \<open>Queries\<close>

text \<open>The nearest compatible record of an entry: the scaled cost must improve on the best so far.\<close>

fun match_compatible :: "workload \<Rightarrow> 's entry \<Rightarrow> fl \<Rightarrow> 's option \<Rightarrow> 's option res" where
  "match_compatible w [] best_cost ret = Inr ret"
| "match_compatible w ((args, state, cost) # rest) best_cost ret =
     bindE (calc_workload_dis_factor w (fst w, args)) (\<lambda>dis_f.
       if dis_f = PInf then match_compatible w rest best_cost ret
       else let cost' = fl_mult cost dis_f
            in if ret = None \<or> fl_less cost' best_cost then match_compatible w rest cost' (Some state)
               else match_compatible w rest best_cost ret)"

definition match_record ::
  "bool \<Rightarrow> string \<Rightarrow> string \<Rightarrow> 's best \<Rightarrow> ('s best, 's option) outcome" where
  "match_record compatible target_key workload_key best =
     bindO (get_workload_entry target_key workload_key best) (\<lambda>(entry, w) best1.
       if \<not> args_hashable (snd w) then (Inl TypeError, best1)
       else case get_by args_key entry (snd w) of
              Some (state, _) \<Rightarrow> (Inr (Some state), best1)
            | None \<Rightarrow>
                if compatible then (match_compatible w entry PInf None, best1) else (Inr None, best1))"

definition match_user :: "string \<Rightarrow> string \<Rightarrow> 's history \<Rightarrow> ('s history, 's option) outcome" where
  "match_user target_key workload_key h =
     (case match_record (include_compatible h) target_key workload_key (best_user_defined h) of
        (r, b) \<Rightarrow> (r, h\<lparr>best_user_defined := b\<rparr>))"

definition match_model :: "string \<Rightarrow> string \<Rightarrow> 's history \<Rightarrow> ('s history, 's option) outcome" where
  "match_model target_key workload_key h =
     (case match_record (include_compatible h) target_key workload_key (best_by_model h) of
        (r, b) \<Rightarrow> (r, h\<lparr>best_by_model := b\<rparr>))"

definition match_targetkey :: "string \<Rightarrow> string \<Rightarrow> 's history \<Rightarrow> ('s history, 's option) outcome" where
  "match_targetkey target_key workload_key h =
     (case match_record (include_compatible h) target_key workload_key (best_by_targetkey h) of
        (r, b) \<Rightarrow> (r, h\<lparr>best_by_targetkey := b\<rparr>))"

text \<open>Trying sources one after the other until one answers.\<close>

fun first_match ::
  "('s history \<Rightarrow> ('s history, 's option) outcome) list \<Rightarrow> 's history \<Rightarrow> ('s history, 's option) outcome" where
  "first_match [] h = (Inr None, h)"
| "first_match (q # qs) h =
     bindO (q h) (\<lambda>ret h1. if ret \<noteq> None then (Inr ret, h1) else first_match qs h1)"

definition query_inside :: "target option \<Rightarrow> string \<Rightarrow> 's history \<Rightarrow> ('s history, 's option) outcome" where
  "query_inside target workload_key h =
     (case target of
        None \<Rightarrow> (Inl RuntimeError, h)
      | Some tg \<Rightarrow>
          first_match
            ([match_user (tgt_model tg) workload_key, match_model (tgt_model tg) workload_key] @
             concat (map (\<lambda>k. [match_user k workload_key, match_targetkey k workload_key]) (tgt_keys tg))) h)"

definition set_user :: "string \<Rightarrow> string \<Rightarrow> 's \<Rightarrow> 's history \<Rightarrow> ('s history, unit) outcome" where
  "set_user target_key workload_key state h =
     (case get_workload_entry target_key workload_key (best_user_defined h) of
        (Inl e, b) \<Rightarrow> (Inl e, h\<lparr>best_user_defined := b\<rparr>)
      | (Inr (entry, hsh, args), b) \<Rightarrow>
          if \<not> args_hashable args then (Inl TypeError, h\<lparr>best_user_defined := b\<rparr>)
          else (Inr (), h\<lparr>best_user_defined :=
                  put_entry target_key hsh (put_by args_key args (state, Fin 1) entry) b\<rparr>))"

definition history_update :: "target \<Rightarrow> string \<Rightarrow> 's \<Rightarrow> 's history \<Rightarrow> ('s history, unit) outcome" where
  "history_update tg workload_key state h =
     bindO (set_user (tgt_model tg) workload_key state h) (\<lambda>_ h1.
       foldO (\<lambda>k. set_user k workload_key state) (tgt_keys tg) h1)"

subsection \<open>Sampling\<close>

text \<open>
  \<^verbatim>\<open>ApplyHistoryBestOrSample\<close> tunes the task until the log holds a record that answers the query:
  \<open>sampled k\<close> is the log after the \<open>k\<close>-th tuning call.  The loop need not end.
\<close>

partial_function (option) sample_until ::
  "(nat \<Rightarrow> ('s measure_input \<times> log_result) list) \<Rightarrow> target option \<Rightarrow> string \<Rightarrow> nat \<Rightarrow> 's history \<Rightarrow>
   ('s history, 's option) outcome option" where
  "sample_until sampled target workload_key k h =
     (case history_load None None (sampled k) 0 (\<lambda>_. 0) h of
        (r, h1) \<Rightarrow>
          (case r of
             Inl e \<Rightarrow> Some (Inl e, h1)
           | Inr _ \<Rightarrow>
               (case query_inside target workload_key h1 of
                  (q, h2) \<Rightarrow>
                    (case q of
                       Inl e \<Rightarrow> Some (Inl e, h2)
                     | Inr ret \<Rightarrow>
                         if ret = None then sample_until sampled target workload_key (Suc k) h2
                         else Some (Inr ret, h2)))))"

declare sample_until.simps [code]

definition sample_query_inside ::
  "(nat \<Rightarrow> ('s measure_input \<times> log_result) list) \<Rightarrow> target option \<Rightarrow> string \<Rightarrow> 's history \<Rightarrow>
   ('s history, 's option) outcome option" where
  "sample_query_inside sampled target workload_key h =
     (case query_inside target workload_key h of
        (Inl e, h1) \<Rightarrow> Some (Inl e, h1)
      | (Inr (Some ret), h1) \<Rightarrow> Some (Inr (Some ret), h1)
      | (Inr None, h1) \<Rightarrow> sample_until sampled target workload_key 0 h1)"

text \<open>\<^verbatim>\<open>query\<close> of the sampling context samples for workloads with a complex operation, or for all when asked to.\<close>

definition sample_query ::
  "(nat \<Rightarrow> ('s measure_input \<times> log_result) list) \<Rightarrow> bool \<Rightarrow> bool \<Rightarrow> target option \<Rightarrow> string \<Rightarrow> 's history \<Rightarrow>
   ('s history, 's option) outcome option" where
  "sample_query sampled sample_simple_workloads has_complex_op target workload_key h =
     (if has_complex_op \<or> sample_simple_workloads then sample_query_inside sampled target workload_key h
      else Some (query_inside target workload_key h))"

subsection \<open>The fallback context\<close>

record 's fallback =
  fb_memory :: "(string \<times> string, 's option) dict"
  fb_verbose :: int
  fb_messages :: "string list"
  fb_log :: "string list"

definition fallback_message :: "string \<Rightarrow> string \<Rightarrow> string \<Rightarrow> string \<Rightarrow> string" where
  "fallback_message target workload_key dag func_name =
     ''-----------------------------------'' @ newline @ func_name @ newline @
     ''Cannot find tuned schedules for target='' @ target @ '', workload_key='' @ workload_key @ ''. '' @
     ''A fallback TOPI schedule is used, '' @
     ''which may bring great performance regression or even compilation failure. '' @
     ''Compute DAG info:'' @ newline @ dag"

definition fallback_query ::
  "string \<Rightarrow> string \<Rightarrow> bool \<Rightarrow> string \<Rightarrow> string \<Rightarrow> 's fallback \<Rightarrow> 's option \<times> 's fallback" where
  "fallback_query target workload_key has_complex_op dag func_name fb =
     (case map_of (fb_memory fb) (target, workload_key) of
        Some state \<Rightarrow> (state, fb)
      | None \<Rightarrow>
          let msg = fallback_message target workload_key dag func_name;
              fb1 = (if (fb_verbose fb = 2 \<or> (has_complex_op \<and> fb_verbose fb = 1)) \<and> msg \<notin> set (fb_messages fb)
                     then fb\<lparr>fb_messages := fb_messages fb @ [msg], fb_log := fb_log fb @ [msg]\<rparr> else fb)
          in (None, fb1\<lparr>fb_memory := AList.update (target, workload_key) None (fb_memory fb1)\<rparr>))"

definition fallback_update :: "string \<Rightarrow> string \<Rightarrow> 's \<Rightarrow> 's fallback \<Rightarrow> 's fallback" where
  "fallback_update target workload_key state fb =
     fb\<lparr>fb_memory := AList.update (target, workload_key) (Some state) (fb_memory fb)\<rparr>"

subsection \<open>The stack of contexts\<close>

text \<open>
  \<^verbatim>\<open>with ctx:\<close> pushes a context, leaving it pops it; a query that the innermost context cannot answer goes
  to the one below, and the fallback context at the bottom always answers.
\<close>

record 's dispatch =
  dc_stack :: "'s history list"
  dc_root :: "'s fallback"

definition ctx_enter :: "'s history \<Rightarrow> 's dispatch \<Rightarrow> 's dispatch" where
  "ctx_enter h d = d\<lparr>dc_stack := h # dc_stack d\<rparr>"

definition ctx_exit :: "'s dispatch \<Rightarrow> 's dispatch" where
  "ctx_exit d = d\<lparr>dc_stack := tl (dc_stack d)\<rparr>"

fun stack_query ::
  "target \<Rightarrow> string \<Rightarrow> bool \<Rightarrow> string \<Rightarrow> string \<Rightarrow> 's history list \<Rightarrow> 's fallback \<Rightarrow>
   ('s history list \<times> 's fallback, 's option) outcome" where
  "stack_query tg workload_key complex dag func_name [] fb =
     (case fallback_query (tgt_str tg) workload_key complex dag func_name fb of (r, fb1) \<Rightarrow> (Inr r, [], fb1))"
| "stack_query tg workload_key complex dag func_name (h # hs) fb =
     (case query_inside (Some tg) workload_key h of
        (Inl e, h1) \<Rightarrow> (Inl e, h1 # hs, fb)
      | (Inr (Some ret), h1) \<Rightarrow> (Inr (Some ret), h1 # hs, fb)
      | (Inr None, h1) \<Rightarrow>
          (case stack_query tg workload_key complex dag func_name hs fb of
             (r, hs1, fb1) \<Rightarrow> (r, h1 # hs1, fb1)))"

definition ctx_query ::
  "target \<Rightarrow> string \<Rightarrow> bool \<Rightarrow> string \<Rightarrow> string \<Rightarrow> 's dispatch \<Rightarrow> ('s dispatch, 's option) outcome" where
  "ctx_query tg workload_key complex dag func_name d =
     (case stack_query tg workload_key complex dag func_name (dc_stack d) (dc_root d) of
        (r, hs, fb) \<Rightarrow> (r, \<lparr>dc_stack = hs, dc_root = fb\<rparr>))"


subsection \<open>The tables hold the best records\<close>

definition best_lookup :: "string \<Rightarrow> workload \<Rightarrow> 's best \<Rightarrow> ('s \<times> fl) option" where
  "best_lookup k w best =
     (case get_by id best k of
        None \<Rightarrow> None
      | Some d \<Rightarrow> (case get_by jkey d (fst w) of None \<Rightarrow> None | Some e \<Rightarrow> get_by args_key e (snd w)))"

definition same_workload :: "workload \<Rightarrow> workload \<Rightarrow> bool" where
  "same_workload v w \<longleftrightarrow> jkey (fst v) = jkey (fst w) \<and> args_key (snd v) = args_key (snd w)"

definition better :: "bool \<Rightarrow> ('s \<times> fl) option \<Rightarrow> 's \<times> fl \<Rightarrow> ('s \<times> fl) option" where
  "better insert_new old rec =
     (case old of
        None \<Rightarrow> if insert_new then Some rec else None
      | Some best \<Rightarrow> if fl_less (snd rec) (snd best) then Some rec else old)"

lemma get_by_cong: "f k = f k' \<Longrightarrow> get_by f d k = get_by f d k'"
  by (induction d) auto

lemma best_lookup_cong:
  fixes best :: "'s best"
  assumes "same_workload v w"
  shows "best_lookup k v best = best_lookup k w best"
proof -
  have "get_by jkey d (fst v) = get_by jkey d (fst w)" "get_by args_key e (snd v) = get_by args_key e (snd w)"
    for d :: "(json, 's entry) dict" and e :: "'s entry"
    using assms by (auto simp: same_workload_def intro: get_by_cong)
  then show ?thesis by (simp add: best_lookup_def split: option.split)
qed

lemma best_lookup_put_entry:
  "best_lookup k' w' (put_entry k h e best) =
     (if k = k' \<and> jkey h = jkey (fst w') then get_by args_key e (snd w') else best_lookup k' w' best)"
  by (auto simp: best_lookup_def put_entry_def get_put_by split: option.splits)

lemma get_workload_entry_lookup:
  assumes "get_workload_entry k wk best = (Inr (e, w), best1)"
  shows "w = decode_workload_key wk \<and> hashable (fst w) \<and>
         (\<forall>a. get_by args_key e a = best_lookup k (fst w, a) best) \<and>
         (\<forall>k' w'. best_lookup k' w' best1 = best_lookup k' w' best)"
proof -
  obtain h a where w: "decode_workload_key wk = (h, a)" by (cases "decode_workload_key wk")
  let ?d = "case get_by id best k of None \<Rightarrow> [] | Some d \<Rightarrow> d"
  let ?e = "case get_by jkey ?d h of None \<Rightarrow> [] | Some e \<Rightarrow> e"
  have g: "hashable h" "e = ?e" "w = (h, a)" "best1 = put_entry k h ?e (put_by id k ?d best)"
    using assms w by (auto simp: get_workload_entry_def put_entry_def Let_def get_put_by split: if_splits)
  have e: "get_by args_key ?e b = best_lookup k (h, b) best" for b
    by (simp add: best_lookup_def split: option.split)
  have d: "best_lookup k' w' (put_by id k ?d best) = best_lookup k' w' best" for k' w'
    by (auto simp: best_lookup_def get_put_by split: option.split)
  have "best_lookup k' w' best1 = best_lookup k' w' best" for k' w'
  proof (cases "k = k' \<and> jkey h = jkey (fst w')")
    case True
    then have "best_lookup k (h, snd w') best = best_lookup k' w' best"
      using best_lookup_cong [of "(h, snd w')" w' k best] by (simp add: same_workload_def)
    then show ?thesis using True e [of "snd w'"] unfolding g(4) by (simp add: best_lookup_put_entry)
  next
    case False
    then show ?thesis unfolding g(4) by (auto simp: best_lookup_put_entry d)
  qed
  then show ?thesis using g e w by simp
qed

lemma offer_lookup:
  assumes "offer ins k wk s c best = (Inr (), best')"
  shows "best_lookup k' w' best' =
     (if k = k' \<and> same_workload (decode_workload_key wk) w' then better ins (best_lookup k' w' best) (s, c)
      else best_lookup k' w' best)"
proof -
  obtain e h a b1 where g: "get_workload_entry k wk best = (Inr (e, h, a), b1)"
    using assms unfolding offer_def by (cases "get_workload_entry k wk best") (auto simp: bindO_eq_Inr)
  have w: "decode_workload_key wk = (h, a)" and l1: "get_by args_key e b = best_lookup k (h, b) best"
    and l2: "best_lookup k' w' b1 = best_lookup k' w' best" for b k' w'
    using get_workload_entry_lookup [OF g] by (metis fst_conv)+
  have here: "best_lookup k' w' best = get_by args_key e a" if "k = k'" "same_workload (h, a) w'"
  proof -
    show ?thesis using l1 that best_lookup_cong [of "(h, a)" w' k best] by simp
  qed
  have best': "best' = (case get_by args_key e a of
        None \<Rightarrow> if ins then put_entry k h (put_by args_key a (s, c) e) b1 else b1
      | Some old \<Rightarrow> if fl_less c (snd old) then put_entry k h (put_by args_key a (s, c) e) b1 else b1)"
    using assms g by (auto simp: offer_def split: option.splits if_splits)
  have put: "best_lookup k' w' (put_entry k h (put_by args_key a (s, c) e) b1) =
      (if k = k' \<and> same_workload (h, a) w' then Some (s, c) else best_lookup k' w' best)"
  proof (cases "k = k' \<and> jkey h = jkey (fst w')")
    case True
    then have "best_lookup k (h, snd w') best = best_lookup k' w' best"
      using best_lookup_cong [of "(h, snd w')" w' k best] by (simp add: same_workload_def)
    then show ?thesis using True l1 [of "snd w'"]
      by (auto simp: best_lookup_put_entry get_put_by same_workload_def)
  next
    case False
    then show ?thesis using l2 by (auto simp: best_lookup_put_entry same_workload_def)
  qed
  show ?thesis
    using l2 here put unfolding best' w by (auto simp: better_def split: option.splits)
qed

lemma better_again: "better ins (better ins old rec) rec = better ins old rec"
  by (auto simp: better_def split: option.splits)

lemma offer_fold_lookup:
  assumes "foldO (\<lambda>k b. offer True k wk s c b) ks best = (Inr (), best')"
  shows "best_lookup k' w' best' =
     (if k' \<in> set ks \<and> same_workload (decode_workload_key wk) w' then better True (best_lookup k' w' best) (s, c)
      else best_lookup k' w' best)"
  using assms
proof (induction ks arbitrary: best)
  case (Cons k ks)
  obtain b1 where b1: "offer True k wk s c best = (Inr (), b1)"
    "foldO (\<lambda>k b. offer True k wk s c b) ks b1 = (Inr (), best')"
    using Cons.prems by (cases "offer True k wk s c best") (auto simp: bindO_eq_Inr)
  show ?case
    unfolding Cons.IH [OF b1(2)] offer_lookup [OF b1(1)] by (auto simp: better_again)
qed simp

text \<open>The records of a log that concern a target key, or a device model, and a workload.\<close>

definition matching ::
  "('s measure_input \<Rightarrow> bool) \<Rightarrow> workload \<Rightarrow> ('s measure_input \<times> log_result) list \<Rightarrow> ('s \<times> fl) list" where
  "matching concerns w records =
     map (\<lambda>(inp, res). (mi_state inp, np_mean (lg_costs res)))
       (filter (\<lambda>(inp, res). lg_error_no res = 0 \<and> concerns inp \<and>
                             same_workload (decode_workload_key (mi_workload_key inp)) w) records)"

lemma history_load_lookup:
  assumes "history_load None None records n per h = (Inr (), h')"
  shows "best_lookup k w (best_by_targetkey h') =
           foldl (better True) (best_lookup k w (best_by_targetkey h))
             (matching (\<lambda>inp. k \<in> set (tgt_keys (mi_target inp))) w records) \<and>
         best_lookup k w (best_by_model h') =
           foldl (better (k \<noteq> ''unknown'')) (best_lookup k w (best_by_model h))
             (matching (\<lambda>inp. k = tgt_model (mi_target inp)) w records)"
  using assms
proof (induction records arbitrary: n per h)
  case (Cons r records)
  obtain inp res where r: "r = (inp, res)" by (cases r)
  show ?case
  proof (cases "lg_error_no res = 0")
    case False
    then show ?thesis using Cons.prems r by (auto simp: Let_def matching_def dest!: Cons.IH)
  next
    case True
    let ?c = "np_mean (lg_costs res)"
    obtain b1 b2 m where
      t: "foldO (\<lambda>k b. offer True k (mi_workload_key inp) (mi_state inp) ?c b) (tgt_keys (mi_target inp))
            (best_by_targetkey h) = (Inr (), b1)" and
      o: "offer (tgt_model (mi_target inp) \<noteq> ''unknown'') (tgt_model (mi_target inp)) (mi_workload_key inp)
            (mi_state inp) ?c (best_by_model h) = (Inr (), b2)" and
      rest: "history_load None None records (Suc n) m (h\<lparr>best_by_targetkey := b1, best_by_model := b2\<rparr>) = (Inr (), h')"
      using Cons.prems True r
      by (auto simp: Let_def offer_targetkeys_def offer_model_def bindO_eq_Inr split: prod.splits)
    show ?thesis
      using Cons.IH [OF rest] offer_fold_lookup [OF t, of k w] offer_lookup [OF o, of k w] True r
      by (auto simp: matching_def)
  qed
qed (simp add: matching_def)


text \<open>The record that survives a sequence of strict improvements is a cheapest one.\<close>

lemma better_Some: "better True (Some r) y = Some (if fl_less (snd y) (snd r) then y else r)"
  by (simp add: better_def)

lemma foldl_better_keeps: "foldl (better True) (Some r) rs \<noteq> None"
  by (induction rs arbitrary: r) (auto simp: better_def)

lemma foldl_better_least:
  assumes "foldl (better True) (Some r) rs = Some best" "NaN \<notin> snd ` set (r # rs)"
  shows "best \<in> set (r # rs) \<and> (\<forall>x \<in> set (r # rs). \<not> fl_less (snd x) (snd best))"
  using assms
proof (induction rs arbitrary: r)
  case (Cons y rs)
  let ?r = "if fl_less (snd y) (snd r) then y else r"
  have "foldl (better True) (Some ?r) rs = Some best" "NaN \<notin> snd ` set (?r # rs)"
    using Cons.prems by (auto simp: better_Some split: if_splits)
  then have IH: "best \<in> set (?r # rs)" "\<forall>x \<in> set (?r # rs). \<not> fl_less (snd x) (snd best)"
    using Cons.IH by blast+
  have nan: "snd r \<noteq> NaN" "snd y \<noteq> NaN" "snd ?r \<noteq> NaN" "snd best \<noteq> NaN"
    using Cons.prems(2) IH(1) by (force split: if_splits)+
  have "\<not> fl_less (snd x) (snd ?r)" if "x \<in> {r, y}" for x
    using that fl_less_trans [of "snd r" "snd y" "snd r"] by auto
  then have "\<not> fl_less (snd x) (snd best)" if "x \<in> {r, y}" for x
    using that IH(2) nan fl_not_less_trans [of "snd x" "snd ?r" "snd best"] by auto
  then show ?case using IH by (auto split: if_splits)
qed simp

text \<open>
  [C4] The table by target key after loading a log.  For every target key and workload it holds what a
  scan of the log finds: the first record without error, for a target with that key and for the same
  workload (function name and arguments equal as Python values), whose mean cost no later such record
  undercuts; nothing when there is no such record.  The tables never confuse two workloads or keys.
\<close>

theorem history_holds_best:
  assumes "mk_history records None None compatible = (Inr (), h)"
    and rs_def: "rs = matching (\<lambda>inp. k \<in> set (tgt_keys (mi_target inp))) w records"
  shows "best_lookup k w (best_by_targetkey h) = foldl (better True) None rs \<and>
         (NaN \<notin> snd ` set rs \<longrightarrow>
            (case best_lookup k w (best_by_targetkey h) of
               None \<Rightarrow> rs = []
             | Some best \<Rightarrow> best \<in> set rs \<and> (\<forall>r \<in> set rs. \<not> fl_less (snd r) (snd best))))"
proof -
  have eq: "best_lookup k w (best_by_targetkey h) = foldl (better True) None rs"
    using history_load_lookup [OF assms(1) [unfolded mk_history_def], of k w]
    by (simp add: rs_def best_lookup_def)
  moreover have "case foldl (better True) None rs of
               None \<Rightarrow> rs = []
             | Some best \<Rightarrow> best \<in> set rs \<and> (\<forall>r \<in> set rs. \<not> fl_less (snd r) (snd best))"
    if nan: "NaN \<notin> snd ` set rs"
  proof (cases rs)
    case (Cons r rs')
    then obtain best where b: "foldl (better True) (Some r) rs' = Some best"
      using foldl_better_keeps [of r rs'] by auto
    then show ?thesis using foldl_better_least [OF b] nan Cons by (simp add: better_def)
  qed simp
  ultimately show ?thesis by simp
qed

definition demo_target :: target where
  "demo_target = \<lparr>tgt_keys = [''cuda'', ''gpu''], tgt_model = ''t4'', tgt_str = ''cuda -model=t4''\<rparr>"

definition demo_input :: "string \<Rightarrow> nat \<Rightarrow> nat measure_input" where
  "demo_input wk s = \<lparr>mi_target = demo_target, mi_workload_key = wk, mi_state = s\<rparr>"

definition demo_log :: "(nat measure_input \<times> log_result) list" where
  "demo_log = [(demo_input ''conv'' 1, \<lparr>lg_costs = [3], lg_error_no = 0\<rparr>),
               (demo_input ''conv'' 2, \<lparr>lg_costs = [1, 2], lg_error_no = 0\<rparr>),
               (demo_input ''conv'' 3, \<lparr>lg_costs = [1], lg_error_no = 7\<rparr>)]"

lemma decode_conv: "decode_workload_key ''conv'' = (JStr ''conv'', None)"
  by code_simp

lemma demo_history:
  "\<exists>h. mk_history demo_log None None False = (Inr (), h) \<and>
       best_lookup ''gpu'' (JStr ''conv'', None) (best_by_targetkey h) = Some (2, Fin (3 / 2))"
  by (simp add: mk_history_def demo_log_def demo_input_def demo_target_def Let_def offer_targetkeys_def
      offer_model_def offer_def get_workload_entry_def decode_conv args_hashable_def opt_list_def args_key_def
      put_entry_def np_mean_def best_lookup_def)

theorem history_holds_best_witness:
  "\<exists>h. mk_history demo_log None None False = (Inr (), h) \<and>
       (2, Fin (3 / 2)) \<in> set (matching (\<lambda>inp. ''gpu'' \<in> set (tgt_keys (mi_target inp))) (JStr ''conv'', None) demo_log)"
proof -
  let ?rs = "matching (\<lambda>inp. ''gpu'' \<in> set (tgt_keys (mi_target inp))) (JStr ''conv'', None) demo_log"
  obtain h where h: "mk_history demo_log None None False = (Inr (), h)"
    "best_lookup ''gpu'' (JStr ''conv'', None) (best_by_targetkey h) = Some (2, Fin (3 / 2))"
    using demo_history by blast
  have "NaN \<notin> snd ` set ?rs"
    by (auto simp: matching_def demo_log_def demo_input_def np_mean_def)
  then show ?thesis
    using history_holds_best [OF h(1) refl, of "''gpu''" "(JStr ''conv'', None)"] h by auto
qed

subsection \<open>A user's record wins\<close>

lemma set_user_lookup:
  assumes "set_user k wk s h = (Inr (), h')"
  shows "best_lookup k' w' (best_user_defined h') =
     (if k = k' \<and> same_workload (decode_workload_key wk) w' then Some (s, Fin 1)
      else best_lookup k' w' (best_user_defined h)) \<and>
     hashable (fst (decode_workload_key wk)) \<and> args_hashable (snd (decode_workload_key wk))"
proof -
  obtain e hs a b1 where g: "get_workload_entry k wk (best_user_defined h) = (Inr (e, hs, a), b1)"
    and ha: "args_hashable a" and h': "h' = h\<lparr>best_user_defined := put_entry k hs (put_by args_key a (s, Fin 1) e) b1\<rparr>"
    using assms unfolding set_user_def by (auto split: prod.splits sum.splits if_splits)
  have w: "decode_workload_key wk = (hs, a)" and l1: "get_by args_key e b = best_lookup k (hs, b) (best_user_defined h)"
    and l2: "best_lookup k' w' b1 = best_lookup k' w' (best_user_defined h)" and hs: "hashable hs" for b k' w'
    using get_workload_entry_lookup [OF g] by (metis fst_conv)+
  show ?thesis
  proof (cases "k = k' \<and> jkey hs = jkey (fst w')")
    case True
    then have "best_lookup k (hs, snd w') (best_user_defined h) = best_lookup k' w' (best_user_defined h)"
      using best_lookup_cong [of "(hs, snd w')" w' k "best_user_defined h"] by (simp add: same_workload_def)
    then show ?thesis using True l1 [of "snd w'"] ha hs w h'
      by (auto simp: best_lookup_put_entry get_put_by same_workload_def)
  next
    case False
    then show ?thesis using l2 ha hs w h' by (auto simp: best_lookup_put_entry same_workload_def)
  qed
qed

lemma set_user_fold:
  assumes "foldO (\<lambda>k. set_user k wk s) ks h = (Inr (), h')"
    and "best_lookup k (decode_workload_key wk) (best_user_defined h) = Some (s, Fin 1)"
  shows "best_lookup k (decode_workload_key wk) (best_user_defined h') = Some (s, Fin 1)"
  using assms
proof (induction ks arbitrary: h)
  case (Cons j ks)
  obtain h1 where h1: "set_user j wk s h = (Inr (), h1)" "foldO (\<lambda>k. set_user k wk s) ks h1 = (Inr (), h')"
    using Cons.prems by (auto simp: bindO_eq_Inr)
  show ?case
    using Cons.IH [OF h1(2)] set_user_lookup [OF h1(1), of k "decode_workload_key wk"] Cons.prems(2)
    by (auto split: if_splits)
qed simp

text \<open>
  [C19] What \<^verbatim>\<open>update\<close> stores is what a query returns: after a schedule has been set for a target and a
  workload, querying that target and workload gives this schedule, whatever the log held.
\<close>

theorem update_then_query:
  assumes "history_update tg wk s h = (Inr (), h')"
  shows "\<exists>h''. query_inside (Some tg) wk h' = (Inr (Some s), h'')"
proof -
  obtain h1 where h1: "set_user (tgt_model tg) wk s h = (Inr (), h1)"
    "foldO (\<lambda>k. set_user k wk s) (tgt_keys tg) h1 = (Inr (), h')"
    using assms by (auto simp: history_update_def bindO_eq_Inr)
  note l = set_user_lookup [OF h1(1), of "tgt_model tg" "decode_workload_key wk"]
  have look: "best_lookup (tgt_model tg) (decode_workload_key wk) (best_user_defined h') = Some (s, Fin 1)"
    using l by (intro set_user_fold [OF h1(2)]) (simp add: same_workload_def)
  obtain e b1 where g: "get_workload_entry (tgt_model tg) wk (best_user_defined h') =
      (Inr (e, decode_workload_key wk), b1)"
    using l by (auto simp: get_workload_entry_def Let_def case_prod_unfold)
  have "get_by args_key e (snd (decode_workload_key wk)) = Some (s, Fin 1)"
    using get_workload_entry_lookup [OF g] look by simp
  then have "match_user (tgt_model tg) wk h' = (Inr (Some s), h'\<lparr>best_user_defined := b1\<rparr>)"
    using g l by (simp add: match_user_def match_record_def case_prod_unfold)
  then show ?thesis by (simp add: query_inside_def)
qed

theorem update_then_query_witness:
  "\<exists>h h' h''. mk_history demo_log None None True = (Inr (), h) \<and>
     history_update demo_target ''conv'' 9 h = (Inr (), h') \<and>
     query_inside (Some demo_target) ''conv'' h' = (Inr (Some 9), h'')"
proof -
  obtain h h' where "mk_history demo_log None None True = (Inr (), h)"
      "history_update demo_target ''conv'' 9 h = (Inr (), h')"
    by (simp add: mk_history_def demo_log_def demo_input_def demo_target_def Let_def offer_targetkeys_def
        offer_model_def offer_def get_workload_entry_def decode_conv args_hashable_def opt_list_def args_key_def
        put_entry_def np_mean_def history_update_def set_user_def)
  then show ?thesis using update_then_query [of demo_target "''conv''" 9 h h'] by blast
qed

end
