(* ===== verification/Graph_Nodes.thy ===== *)
theory Graph_Nodes
  imports Prelude "HOL-Library.AList"
begin

section \<open>The graph of the graph tuner\<close>

text \<open>
  \<^verbatim>\<open>autotvm/graph_tuner/utils/utils.py\<close> and \<^verbatim>\<open>utils/traverse_graph.py\<close>: the node list of a model, which
  nodes count as boundary or as multi-input nodes, and the reduction of the list to the dictionaries of
  the closest tunable inputs and outputs of every tunable node.

  A node entry holds the name of its operator (\<^verbatim>\<open>None\<close> for variables, constants and tuples; operators
  are registered once, so that comparing them is comparing names), the name of a variable or constant,
  whether it is a tuple, and the triples that name its inputs.  Recursive functions take the depth the
  Python stack leaves them; exhausting it raises \<^verbatim>\<open>RecursionError\<close>, which is a \<^verbatim>\<open>RuntimeError\<close>.
\<close>

subsection \<open>Lists and dictionaries that raise\<close>

definition nthE :: "'a list \<Rightarrow> nat \<Rightarrow> 'a res" where
  "nthE xs i = (if i < length xs then Inr (xs ! i) else Inl IndexError)"

definition getE :: "('k \<rightharpoonup> 'v) \<Rightarrow> 'k \<Rightarrow> 'v res" where
  "getE m k = (case m k of None \<Rightarrow> Inl KeyError | Some v \<Rightarrow> Inr v)"

text \<open>\<^verbatim>\<open>list.remove\<close>: the first occurrence goes.\<close>

definition removeE :: "'a \<Rightarrow> 'a list \<Rightarrow> 'a list res" where
  "removeE x xs = (if x \<in> set xs then Inr (remove1 x xs) else Inl ValueError)"

lemma nthE_in [simp]: "i < length xs \<Longrightarrow> nthE xs i = Inr (xs ! i)"
  by (simp add: nthE_def)

lemma nthE_eq_Inr: "nthE xs i = Inr x \<longleftrightarrow> i < length xs \<and> xs ! i = x"
  by (auto simp: nthE_def)

lemma getE_Some [simp]: "m k = Some v \<Longrightarrow> getE m k = Inr v"
  by (simp add: getE_def)

lemma getE_eq_Inr: "getE m k = Inr v \<longleftrightarrow> m k = Some v"
  by (auto simp: getE_def split: option.splits)

lemma removeE_in [simp]: "x \<in> set xs \<Longrightarrow> removeE x xs = Inr (remove1 x xs)"
  by (simp add: removeE_def)

lemma foldE_concat: "foldE f s (concat xss) = foldE (foldE f) s xss"
  by (induction xss arbitrary: s) (simp_all add: foldE_append)

lemma foldE_map: "foldE f s (map g xs) = foldE (\<lambda>s x. f s (g x)) s xs"
  by (induction xs arbitrary: s) simp_all

lemma foldE_cong: "(\<And>s x. x \<in> set xs \<Longrightarrow> f s x = g s x) \<Longrightarrow> foldE f s xs = foldE g s xs"
proof (induction xs arbitrary: s)
  case (Cons x xs)
  then have "f s x = g s x" "\<And>s'. foldE f s' xs = foldE g s' xs" by simp_all
  then show ?case by simp
qed simp

text \<open>A loop that updates the positions of a list by the elements of another.\<close>

lemma update_fold:
  "k + length row \<le> length acc \<Longrightarrow>
   foldE (\<lambda>acc (j, c). bindE (nthE acc j) (\<lambda>v. Inr (acc[j := f v c]))) acc (enumerate k row) =
     Inr (map (\<lambda>i. if k \<le> i \<and> i < k + length row then f (acc ! i) (row ! (i - k)) else acc ! i) [0..<length acc])"
proof (induction row arbitrary: k acc)
  case Nil
  show ?case by (auto simp: foldE.simps intro!: nth_equalityI)
next
  case (Cons c row)
  let ?acc = "acc[k := f (acc ! k) c]"
  have "map (\<lambda>i. if Suc k \<le> i \<and> i < Suc k + length row then f (?acc ! i) (row ! (i - Suc k)) else ?acc ! i) [0..<length ?acc] =
      map (\<lambda>i. if k \<le> i \<and> i < k + length (c # row) then f (acc ! i) ((c # row) ! (i - k)) else acc ! i) [0..<length acc]"
    (is "map ?f _ = map ?g _")
  proof (intro nth_equalityI)
    fix i assume i: "i < length (map ?f [0..<length ?acc])"
    consider "i < k" | "i = k" | "k < i" by linarith
    then show "map ?f [0..<length ?acc] ! i = map ?g [0..<length acc] ! i" using i by cases auto
  qed simp
  moreover have "k < length acc" using Cons.prems by simp
  moreover have "Suc k + length row \<le> length ?acc" using Cons.prems by simp
  ultimately show ?case by (simp only: enumerate_simps foldE.simps prod.case nthE_in bindE_Inr Cons.IH)
qed

subsection \<open>Node entries\<close>

record gnode =
  gn_op :: "string option"
  gn_name :: "string option"
  gn_tuple :: bool
  gn_inputs :: "(nat \<times> nat \<times> nat) list"

definition OPT_OUT_OP :: "string list" where
  "OPT_OUT_OP = [''layout_transform'']"

definition LAYOUT_FIXED_OP :: "string list" where
  "LAYOUT_FIXED_OP = [''nn.batch_flatten'', ''transpose'', ''reshape'', ''vision.multibox_prior'',
     ''vision.multibox_transform_loc'', ''where'', ''vision.non_max_suppression'', ''strided_slice'']"

definition in_list :: "'a option \<Rightarrow> 'a list \<Rightarrow> bool" where
  "in_list x xs = (case x of None \<Rightarrow> False | Some y \<Rightarrow> y \<in> set xs)"

definition is_boundary_node :: "'a gnode_scheme \<Rightarrow> string list \<Rightarrow> bool" where
  "is_boundary_node node_entry input_names \<longleftrightarrow>
     in_list (gn_op node_entry) LAYOUT_FIXED_OP \<or> in_list (gn_name node_entry) input_names"

definition is_skipped_node :: "'a gnode_scheme \<Rightarrow> bool" where
  "is_skipped_node node_entry = gn_tuple node_entry"

text \<open>
  Only the result for the last input of an opted-out operator decides whether that operator counts: the
  loop overwrites \<^verbatim>\<open>increase\<close>.
\<close>

fun has_multiple_inputs :: "nat \<Rightarrow> 'a gnode_scheme list \<Rightarrow> nat \<Rightarrow> string list \<Rightarrow> string list \<Rightarrow> bool res" where
  "has_multiple_inputs 0 node_list node_idx input_names opt_out_op = Inl RuntimeError"
| "has_multiple_inputs (Suc depth) node_list node_idx input_names opt_out_op =
     bindE (nthE node_list node_idx) (\<lambda>node.
     bindE (foldE (\<lambda>num_inputs (in_idx, _).
         bindE (nthE node_list in_idx) (\<lambda>in_node.
           case gn_op in_node of
             Some op \<Rightarrow>
               if op \<in> set opt_out_op then
                 bindE (foldE (\<lambda>increase (t_idx, _). has_multiple_inputs depth node_list t_idx input_names opt_out_op)
                          False (gn_inputs in_node))
                   (\<lambda>increase. Inr (if increase then num_inputs + 1 else num_inputs))
               else Inr (num_inputs + 1)
           | None \<Rightarrow> Inr (if in_list (gn_name in_node) input_names then num_inputs + 1 else num_inputs)))
         (0::nat) (gn_inputs node))
       (\<lambda>num_inputs. Inr (num_inputs > 1)))"

subsection \<open>Closest ancestors\<close>

text \<open>
  \<^verbatim>\<open>get_direct_ancestor\<close> remembers its results in \<^verbatim>\<open>visited_dict\<close>, except for boundary nodes.
\<close>

fun get_direct_ancestor ::
  "nat \<Rightarrow> 'a gnode_scheme list \<Rightarrow> string list \<Rightarrow> string list \<Rightarrow> nat \<Rightarrow> (nat, nat list) dict \<Rightarrow>
   (nat list \<times> (nat, nat list) dict) res" where
  "get_direct_ancestor 0 node_list target_ops input_names node_idx visited = Inl RuntimeError"
| "get_direct_ancestor (Suc depth) node_list target_ops input_names node_idx visited =
     (case map_of visited node_idx of
        Some found \<Rightarrow> Inr (found, visited)
      | None \<Rightarrow>
          bindE (nthE node_list node_idx) (\<lambda>node.
            if is_boundary_node node input_names then Inr ([node_idx], visited)
            else
              bindE (foldE (\<lambda>(ancestors, vis) (item_idx, _).
                  bindE (nthE node_list item_idx) (\<lambda>item.
                  bindE (has_multiple_inputs depth node_list item_idx input_names OPT_OUT_OP) (\<lambda>multi.
                    if in_list (gn_op item) target_ops \<or> multi then Inr (ancestors @ [item_idx], vis)
                    else bindE (get_direct_ancestor depth node_list target_ops input_names item_idx vis)
                           (\<lambda>(tmp, vis'). Inr (ancestors @ tmp, vis')))))
                  ([], visited) (gn_inputs node))
                (\<lambda>(ancestors, vis). Inr (ancestors, AList.update node_idx ancestors vis))))"

subsection \<open>The dictionaries of inputs and outputs\<close>

definition get_out_nodes :: "(nat, nat list) dict \<Rightarrow> (nat, nat list) dict" where
  "get_out_nodes in_node_dict =
     fold (\<lambda>(key, val) out. fold (\<lambda>item out.
         case map_of out item of
           Some outs \<Rightarrow> AList.update item (outs @ [key]) out
         | None \<Rightarrow> out @ [(item, [key])]) val out)
       in_node_dict (map (\<lambda>(key, val). (key, [])) in_node_dict)"

text \<open>
  The scan over the inputs of a node that is not a target operator.  The loop removes elements from the
  list it iterates over, so that the element after a removed one is skipped, and it appends the node to
  the boundary nodes after every input up to which no inner input was seen.
\<close>

function scan_inputs :: "'a gnode_scheme list \<Rightarrow> string list \<Rightarrow> (nat, nat list) dict \<Rightarrow> nat \<Rightarrow> nat \<Rightarrow> nat list \<Rightarrow> bool \<Rightarrow>
    nat list \<Rightarrow> (nat list \<times> nat list) res" where
  "scan_inputs node_list input_names ins key i val is_boundary boundary_nodes =
     (if i < length val then
        bindE (nthE node_list (val ! i)) (\<lambda>in_node.
          let inner = (\<not> is_boundary_node in_node input_names \<and> val ! i \<in> fst ` set ins);
              val' = (if inner then val else remove1 (val ! i) val);
              is_boundary' = (is_boundary \<and> \<not> inner)
          in scan_inputs node_list input_names ins key (Suc i) val' is_boundary'
               (if is_boundary' then boundary_nodes @ [key] else boundary_nodes))
      else Inr (val, boundary_nodes))"
  by pat_completeness auto
termination
  by (relation "measure (\<lambda>(_, _, _, _, i, val, _, _). length val - i)") (auto simp: length_remove1)

text \<open>One round of the first loop: the dictionary with the shortened lists, and the boundary nodes.\<close>

definition reduce_node :: "'a gnode_scheme list \<Rightarrow> string list \<Rightarrow> string list \<Rightarrow> (nat, nat list) dict \<Rightarrow>
    (nat, nat list) dict \<times> nat list \<Rightarrow> nat \<times> nat list \<Rightarrow> ((nat, nat list) dict \<times> nat list) res" where
  "reduce_node node_list target_ops input_names ins = (\<lambda>(acc, boundary_nodes) (key, val).
     bindE (nthE node_list key) (\<lambda>node.
       if in_list (gn_op node) target_ops then Inr (acc @ [(key, val)], boundary_nodes)
       else bindE (scan_inputs node_list input_names ins key 0 val True boundary_nodes)
              (\<lambda>(val', boundary'). Inr (acc @ [(key, val')], boundary'))))"

definition reduce_pass :: "'a gnode_scheme list \<Rightarrow> string list \<Rightarrow> string list \<Rightarrow> (nat, nat list) dict \<Rightarrow>
    ((nat, nat list) dict \<times> nat list) res" where
  "reduce_pass node_list target_ops input_names ins = foldE (reduce_node node_list target_ops input_names ins) ([], []) ins"

declare scan_inputs.simps [simp del]

lemma scan_inputs_boundary:
  assumes "scan_inputs node_list input_names ins key i val isb bs = Inr (val', bs')"
  shows "set bs' \<subseteq> set bs \<union> {key}"
  using assms
proof (induction node_list input_names ins key i val isb bs rule: scan_inputs.induct)
  case (1 node_list input_names ins key i val isb bs)
  show ?case
  proof (cases "i < length val")
    case True
    then obtain in_node where n: "nthE node_list (val ! i) = Inr in_node"
      using "1.prems" by (subst (asm) scan_inputs.simps) (auto simp: bindE_eq_Inr)
    then show ?thesis
      using "1.IH" [OF True n refl refl refl] True
        "1.prems" [unfolded scan_inputs.simps [of node_list input_names ins key i val isb bs] Let_def]
      by (auto split: if_splits)
  qed (use "1.prems" in \<open>auto simp: scan_inputs.simps\<close>)
qed

lemma reduce_node_keys:
  assumes "reduce_node node_list target_ops input_names ins (acc, bs) (key, val) = Inr (acc', bs')"
  shows "map fst acc' = map fst acc @ [key] \<and> set bs' \<subseteq> set bs \<union> {key}"
proof -
  obtain node where n: "nthE node_list key = Inr node" using assms by (auto simp: reduce_node_def bindE_eq_Inr)
  show ?thesis
  proof (cases "in_list (gn_op node) target_ops")
    case False
    then obtain val' where "scan_inputs node_list input_names ins key 0 val True bs = Inr (val', bs')" "acc' = acc @ [(key, val')]"
      using assms n by (auto simp: reduce_node_def bindE_eq_Inr)
    then show ?thesis using scan_inputs_boundary by fastforce
  qed (use assms n in \<open>auto simp: reduce_node_def\<close>)
qed

lemma reduce_pass_acc:
  "foldE (reduce_node node_list target_ops input_names ins) (acc, bs) xs = Inr (ins', bs') \<Longrightarrow>
   map fst ins' = map fst acc @ map fst xs \<and> set bs' \<subseteq> set bs \<union> fst ` set xs"
proof (induction xs arbitrary: acc bs)
  case (Cons x xs)
  obtain key val where x: "x = (key, val)" by force
  from Cons.prems obtain acc1 bs1 where "reduce_node node_list target_ops input_names ins (acc, bs) (key, val) = Inr (acc1, bs1)"
    and "foldE (reduce_node node_list target_ops input_names ins) (acc1, bs1) xs = Inr (ins', bs')"
    by (auto simp: x bindE_eq_Inr)
  with reduce_node_keys Cons.IH show ?case unfolding x by fastforce
qed auto

lemma reduce_pass_keys:
  assumes "reduce_pass node_list target_ops input_names ins = Inr (ins', bs)"
  shows "map fst ins' = map fst ins" "set bs \<subseteq> fst ` set ins"
  using reduce_pass_acc [OF assms [unfolded reduce_pass_def]] by auto

lemma delete_shorter:
  assumes "bs \<noteq> []" "set bs \<subseteq> fst ` set d"
  shows "length (filter (\<lambda>(key, val). key \<notin> set bs) d) < length d"
proof -
  obtain b v where "b \<in> set bs" "(b, v) \<in> set d" using assms by (cases bs) fastforce+
  then show ?thesis by (intro length_filter_less) auto
qed

text \<open>The first loop of \<^verbatim>\<open>get_in_nodes\<close>: it ends because every round but the last deletes a node.\<close>

function reduce_boundary :: "'a gnode_scheme list \<Rightarrow> string list \<Rightarrow> string list \<Rightarrow> (nat, nat list) dict \<Rightarrow> (nat, nat list) dict res" where
  "reduce_boundary node_list target_ops input_names ins =
     (case reduce_pass node_list target_ops input_names ins of
        Inl e \<Rightarrow> Inl e
      | Inr (ins', boundary_nodes) \<Rightarrow>
          if boundary_nodes = [] then Inr ins'
          else reduce_boundary node_list target_ops input_names (filter (\<lambda>(key, val). key \<notin> set boundary_nodes) ins'))"
  by pat_completeness auto
termination
proof (relation "measure (\<lambda>(_, _, _, ins). length ins)", goal_cases)
  case (2 node_list target_ops input_names ins p ins' bs)
  then have k: "map fst ins' = map fst ins" "set bs \<subseteq> fst ` set ins"
    using reduce_pass_keys [of node_list target_ops input_names ins ins' bs] by simp_all
  have "length ins' = length ins" "fst ` set ins' = fst ` set ins"
    using arg_cong [OF k(1), of length] arg_cong [OF k(1), of set] by simp_all
  then show ?case using 2 k(2) delete_shorter [of bs ins'] by simp
qed simp

declare reduce_boundary.simps [simp del]

text \<open>
  The second loop: nodes with no input left are deleted, and with them their entries in the lists of the
  nodes they fed.  The output dictionary is the one from before the first loop.
\<close>

definition delete_empty :: "(nat, nat list) dict \<Rightarrow> (nat, nat list) dict \<Rightarrow> nat \<Rightarrow> (nat, nat list) dict res" where
  "delete_empty out_node_dict ins node =
     bindE (dict_get ins node) (\<lambda>_.
       let ins1 = filter (\<lambda>(key, val). key \<noteq> node) ins
       in case map_of out_node_dict node of
            None \<Rightarrow> Inr ins1
          | Some outs \<Rightarrow>
              foldE (\<lambda>ins out_node.
                  bindE (dict_get ins out_node) (\<lambda>val.
                  bindE (removeE node val) (\<lambda>val'. Inr (AList.update out_node val' ins))))
                ins1 outs)"

definition empty_nodes :: "(nat, nat list) dict \<Rightarrow> nat list" where
  "empty_nodes ins = map fst (filter (\<lambda>(key, val). val = []) ins)"

lemma foldE_length:
  "foldE f s xs = Inr s' \<Longrightarrow> (\<And>s x s'. f s x = Inr s' \<Longrightarrow> length s' = length s) \<Longrightarrow> length s' = length s"
  by (induction xs arbitrary: s) (auto simp: bindE_eq_Inr)

lemma update_length: "k \<in> fst ` set d \<Longrightarrow> length (AList.update k v d) = length d"
  by (induction d) auto

lemma delete_empty_shorter:
  assumes "delete_empty outs ins node = Inr ins'"
  shows "length ins' < length ins"
proof -
  let ?ins1 = "filter (\<lambda>(key, val). key \<noteq> node) ins"
  have "node \<in> fst ` set ins" using assms by (auto simp: delete_empty_def dict_get_def split: if_splits)
  then have "length ?ins1 < length ins" using delete_shorter [of "[node]" ins] by simp
  moreover have "length ins' = length ?ins1"
    using assms
    by (auto simp: delete_empty_def Let_def bindE_eq_Inr dict_get_def split: option.splits if_splits
        elim!: foldE_length intro!: update_length)
  ultimately show ?thesis by simp
qed

function remove_empty :: "(nat, nat list) dict \<Rightarrow> (nat, nat list) dict \<Rightarrow> (nat, nat list) dict res" where
  "remove_empty out_node_dict ins =
     (if empty_nodes ins = [] then Inr ins
      else case foldE (delete_empty out_node_dict) ins (empty_nodes ins) of
             Inl e \<Rightarrow> Inl e
           | Inr ins' \<Rightarrow> remove_empty out_node_dict ins')"
  by pat_completeness auto
termination
proof (relation "measure (\<lambda>(_, ins). length ins)", goal_cases)
  case (2 outs ins ins')
  have "foldE (delete_empty outs) ins xs = Inr ins' \<Longrightarrow> length ins' + length xs \<le> length ins" for ins xs
    by (induction xs arbitrary: ins) (fastforce simp: bindE_eq_Inr dest: delete_empty_shorter)+
  from this [OF 2(2)] 2(1) show ?case by (cases "empty_nodes ins") auto
qed simp

declare remove_empty.simps [simp del]

text \<open>\<^verbatim>\<open>get_in_nodes\<close>: collect the ancestors, keep the tunable nodes, and run both loops.\<close>

definition visit_nodes :: "nat \<Rightarrow> 'a gnode_scheme list \<Rightarrow> string list \<Rightarrow> string list \<Rightarrow> (nat, nat list) dict res" where
  "visit_nodes depth node_list target_ops input_names =
     foldE (\<lambda>visited (i, node).
         if is_boundary_node node input_names \<or> is_skipped_node node then Inr visited
         else bindE (get_direct_ancestor depth node_list target_ops input_names i visited)
                (\<lambda>(_, visited'). Inr visited'))
       [] (enumerate 0 node_list)"

definition tunable :: "nat \<Rightarrow> 'a gnode_scheme list \<Rightarrow> string list \<Rightarrow> string list \<Rightarrow> nat \<Rightarrow> bool res" where
  "tunable depth node_list target_ops input_names key =
     bindE (nthE node_list key) (\<lambda>node.
     bindE (has_multiple_inputs depth node_list key input_names OPT_OUT_OP) (\<lambda>multi.
       Inr (in_list (gn_op node) target_ops \<or> multi)))"

definition get_in_nodes :: "nat \<Rightarrow> 'a gnode_scheme list \<Rightarrow> string list \<Rightarrow> string list \<Rightarrow> (nat, nat list) dict res" where
  "get_in_nodes depth node_list target_ops input_names =
     bindE (visit_nodes depth node_list target_ops input_names) (\<lambda>visited.
     bindE (foldE (\<lambda>ins (key, val). bindE (tunable depth node_list target_ops input_names key)
              (\<lambda>keep. Inr (if keep then ins @ [(key, val)] else ins))) [] visited) (\<lambda>in_node_dict.
     bindE (reduce_boundary node_list target_ops input_names in_node_dict)
       (remove_empty (get_out_nodes in_node_dict))))"

end
