(* ===== verification/Graph_Tuner.thy ===== *)
theory Graph_Tuner
  imports Graph_Nodes
begin

section \<open>The base of the graph tuners\<close>

text \<open>
  \<^verbatim>\<open>autotvm/graph_tuner/base_graph_tuner.py\<close>: the schedule candidates of every node, the layout
  transformations between neighbouring nodes and the matrices of their costs.

  The entry of a node gains the keys \<^verbatim>\<open>"topi_op"\<close>, \<^verbatim>\<open>"workloads"\<close> and \<^verbatim>\<open>"record_candidates"\<close> while the tuner
  is built; the shape is the one of its first output.  The layouts that a configuration implies come from
  functions that every target registers, and the measurement of a transformation runs on a device: both
  are parameters.  Costs are exact rationals.
\<close>

subsection \<open>Records, nodes and the tuner\<close>

record op_workload =
  wl_name :: string
  wl_tensor :: "int list \<times> string"
  wl_rest :: "pyval list"

record 'c mrecord =
  mr_workload :: op_workload
  mr_config :: 'c
  mr_costs :: "rat list"

record 'c tnode = gnode +
  tn_shape :: "int list"
  tn_topi_op :: "string option list option"
  tn_workloads :: "op_workload option list option"
  tn_records :: "'c mrecord list option"

text \<open>
  The shape and type of the data, its layout and the layout wanted: the arguments of a layout
  transformation, and its workload.
\<close>

type_synonym ltf_args = "int list \<times> string \<times> string \<times> string"

record 'c gtuner =
  gt_node_list :: "'c tnode list"
  gt_input_names :: "string list"
  gt_target_ops :: "string list"
  gt_max_sch_num :: int
  gt_dtype :: string
  gt_in_nodes :: "(nat, nat list) dict"
  gt_out_nodes :: "(nat, nat list) dict"
  gt_perf_records :: "ltf_args \<rightharpoonup> rat list"
  gt_interlayer_cost :: "(nat \<times> nat, rat list list) dict"

definition INVALID_LAYOUT_TIME :: rat where
  "INVALID_LAYOUT_TIME = 10000000000"

text \<open>What the targets register for convolutions: input and output shapes and layouts.\<close>

datatype layout_kind = Conv2d | DepthwiseConv2d

type_synonym layout_info = "int list \<times> string"

type_synonym 'c infer_layout = "layout_kind \<Rightarrow> op_workload \<Rightarrow> 'c \<Rightarrow> layout_info list \<times> layout_info list"

definition get_infer_layout :: "string \<Rightarrow> layout_kind res" where
  "get_infer_layout task_name =
     (if take 6 task_name = ''conv2d'' then Inr Conv2d
      else if take 16 task_name = ''depthwise_conv2d'' then Inr DepthwiseConv2d
      else Inl ValueError)"

definition keyE :: "'a option \<Rightarrow> 'a res" where
  "keyE x = (case x of None \<Rightarrow> Inl KeyError | Some y \<Rightarrow> Inr y)"

text \<open>\<^verbatim>\<open>costs[0]\<close> of a record.\<close>

definition cost0 :: "'c mrecord \<Rightarrow> rat res" where
  "cost0 r = nthE (mr_costs r) 0"

subsection \<open>Schedule candidates\<close>

definition cfg_dict :: "'c mrecord list \<Rightarrow> (op_workload, 'c mrecord list) dict" where
  "cfg_dict records =
     fold (\<lambda>r d. AList.map_default (mr_workload r) [r] (\<lambda>rs. rs @ [r]) d) records []"

text \<open>Of the records with the same layouts only the cheapest is kept, in the place of the first.\<close>

definition track_layout :: "'c infer_layout \<Rightarrow> layout_kind \<Rightarrow>
    (layout_info list \<times> layout_info list, 'c mrecord) dict \<Rightarrow> 'c mrecord \<Rightarrow>
    (layout_info list \<times> layout_info list, 'c mrecord) dict res" where
  "track_layout infer kind tracking r =
     (let layouts = infer kind (mr_workload r) (mr_config r)
      in case map_of tracking layouts of
           Some best \<Rightarrow>
             bindE (cost0 r) (\<lambda>cost. bindE (cost0 best) (\<lambda>current_best_cost.
               Inr (if cost < current_best_cost then AList.update layouts r tracking else tracking)))
         | None \<Rightarrow> Inr (AList.update layouts r tracking))"

definition candidates :: "'c infer_layout \<Rightarrow> int \<Rightarrow> layout_kind \<Rightarrow> 'c mrecord list \<Rightarrow> 'c mrecord list res" where
  "candidates infer max_sch_num kind records =
     bindE (foldE (track_layout infer kind) [] records) (\<lambda>tracking.
     bindE (mapE cost0 (map snd tracking)) (\<lambda>_.
       Inr (take (nat max_sch_num) (sort_key (\<lambda>r. mr_costs r ! 0) (map snd tracking)))))"

definition fetch_node :: "'c infer_layout \<Rightarrow> 'c gtuner \<Rightarrow> (op_workload, 'c mrecord list) dict \<Rightarrow>
    'c tnode list \<times> (op_workload, 'c mrecord list) dict \<Rightarrow> nat \<Rightarrow>
    ('c tnode list \<times> (op_workload, 'c mrecord list) dict) res" where
  "fetch_node infer g cfgs = (\<lambda>(node_list, cache) key.
     bindE (nthE node_list key) (\<lambda>node_entry.
       if \<not> in_list (gn_op node_entry) (gt_target_ops g) then Inr (node_list, cache)
       else
         bindE (keyE (tn_workloads node_entry)) (\<lambda>wls. bindE (nthE wls 0) (\<lambda>wl. bindE (keyE wl) (\<lambda>workload.
           case map_of cache workload of
             Some cands \<Rightarrow> Inr (node_list[key := node_entry\<lparr>tn_records := Some cands\<rparr>], cache)
           | None \<Rightarrow>
               bindE (keyE (tn_topi_op node_entry)) (\<lambda>ops. bindE (nthE ops 0) (\<lambda>op. bindE (keyE op) (\<lambda>task_name.
               bindE (get_infer_layout task_name) (\<lambda>kind.
               bindE (dict_get cfgs workload) (\<lambda>records.
               bindE (candidates infer (gt_max_sch_num g) kind records) (\<lambda>cands.
                 Inr (node_list[key := node_entry\<lparr>tn_records := Some cands\<rparr>],
                      AList.update workload cands cache))))))))))))"

definition fetch_cfg :: "'c infer_layout \<Rightarrow> 'c mrecord list \<Rightarrow> 'c gtuner \<Rightarrow> 'c gtuner res" where
  "fetch_cfg infer records g =
     bindE (foldE (fetch_node infer g (cfg_dict records)) (gt_node_list g, []) (map fst (gt_in_nodes g)))
       (\<lambda>(node_list, _). Inr (g\<lparr>gt_node_list := node_list\<rparr>))"

subsection \<open>Building the tuner\<close>

text \<open>
  A multi-input node takes over the operators and workloads of its inputs, with its own output shape in
  the first tensor, and the candidates of the first input that is not a boundary node.
\<close>

definition join_input :: "'c gtuner \<Rightarrow> nat \<Rightarrow> 'c tnode list \<Rightarrow> nat \<Rightarrow> 'c tnode list res" where
  "join_input g idx node_list input_idx =
     bindE (nthE node_list idx) (\<lambda>node_entry. bindE (nthE node_list input_idx) (\<lambda>input_node.
       let ops = (case tn_topi_op node_entry of None \<Rightarrow> [] | Some xs \<Rightarrow> xs);
           wls = (case tn_workloads node_entry of None \<Rightarrow> [] | Some xs \<Rightarrow> xs)
       in if \<not> is_boundary_node input_node (gt_input_names g) then
            bindE (keyE (tn_topi_op input_node)) (\<lambda>in_ops. bindE (nthE in_ops 0) (\<lambda>input_topi_op.
            bindE (keyE (tn_workloads input_node)) (\<lambda>in_wls. bindE (nthE in_wls 0) (\<lambda>input_wl.
              case input_wl of
                None \<Rightarrow> Inl TypeError
              | Some input_workload \<Rightarrow>
                  let actual_workload = input_workload\<lparr>wl_tensor := (tn_shape node_entry, snd (wl_tensor input_workload))\<rparr>;
                      entry = node_entry\<lparr>tn_topi_op := Some (ops @ [input_topi_op]), tn_workloads := Some (wls @ [Some actual_workload])\<rparr>
                  in case tn_records node_entry of
                       Some _ \<Rightarrow> Inr (node_list[idx := entry])
                     | None \<Rightarrow> bindE (keyE (tn_records input_node)) (\<lambda>cands.
                                  Inr (node_list[idx := entry\<lparr>tn_records := Some cands\<rparr>]))))))
          else Inr (node_list[idx := node_entry\<lparr>tn_topi_op := Some (ops @ [None]), tn_workloads := Some (wls @ [None])\<rparr>])))"

definition setup_multi :: "nat \<Rightarrow> 'c gtuner \<Rightarrow> 'c tnode list \<Rightarrow> nat \<Rightarrow> 'c tnode list res" where
  "setup_multi depth g node_list idx =
     bindE (has_multiple_inputs depth node_list idx (gt_input_names g) OPT_OUT_OP) (\<lambda>multi.
       if \<not> multi then Inr node_list
       else
         bindE (nthE node_list idx) (\<lambda>node_entry.
         bindE (dict_get (gt_in_nodes g) idx) (\<lambda>inputs.
           foldE (join_input g idx) (node_list[idx := node_entry\<lparr>tn_topi_op := Some [], tn_workloads := Some []\<rparr>]) inputs)))"

text \<open>
  \<^verbatim>\<open>BaseGraphTuner.__init__\<close> after \<^verbatim>\<open>expr2graph\<close> has listed the nodes of the relay expression.
\<close>

definition mk_graph_tuner :: "nat \<Rightarrow> 'c infer_layout \<Rightarrow> 'c tnode list \<Rightarrow> string list \<Rightarrow> string list \<Rightarrow> int \<Rightarrow> string \<Rightarrow>
    'c mrecord list \<Rightarrow> 'c gtuner res" where
  "mk_graph_tuner depth infer node_list input_names target_ops max_sch_num dtype records =
     bindE (get_in_nodes depth node_list target_ops input_names) (\<lambda>ins.
       if ins = [] then Inl RuntimeError
       else
         bindE (fetch_cfg infer records
             \<lparr>gt_node_list = node_list, gt_input_names = input_names, gt_target_ops = target_ops,
              gt_max_sch_num = max_sch_num, gt_dtype = dtype, gt_in_nodes = ins, gt_out_nodes = get_out_nodes ins,
              gt_perf_records = Map.empty, gt_interlayer_cost = []\<rparr>) (\<lambda>g.
         bindE (foldE (setup_multi depth g) (gt_node_list g) (sort (map fst ins))) (\<lambda>nodes.
           Inr (g\<lparr>gt_node_list := nodes\<rparr>))))"

subsection \<open>Layout transformations\<close>

text \<open>The first input of a multi-input node that is not a boundary node, with its position.\<close>

fun target_input :: "'c gtuner \<Rightarrow> nat \<Rightarrow> nat list \<Rightarrow> (nat \<times> nat) option res" where
  "target_input g i [] = Inr None"
| "target_input g i (item # items) =
     bindE (nthE (gt_node_list g) item) (\<lambda>node.
       if \<not> is_boundary_node node (gt_input_names g) then Inr (Some (item, i))
       else target_input g (Suc i) items)"

text \<open>The first workload of an input that is not \<^verbatim>\<open>None\<close>, with its operator.\<close>

fun pivot_workload :: "string option list \<Rightarrow> op_workload option list \<Rightarrow> (string option \<times> op_workload) res" where
  "pivot_workload (op # ops) (Some w # wls) = Inr (op, w)"
| "pivot_workload (op # ops) (None # wls) = pivot_workload ops wls"
| "pivot_workload _ _ = Inl IndexError"

definition infer_kind :: "string option \<Rightarrow> layout_kind res" where
  "infer_kind op = (case op of None \<Rightarrow> Inl AttributeError | Some task_name \<Rightarrow> get_infer_layout task_name)"

text \<open>
  Which functions, workloads and node a transformation from the input at position \<^term>\<open>i\<close> concerns;
  \<^term>\<open>None\<close> when the loop continues with the next input.  A node that is not a target operator has
  several inputs, so that there is a target input as soon as some input is not a boundary node.
\<close>

definition ltf_ends :: "'c gtuner \<Rightarrow> nat \<Rightarrow> 'c tnode \<Rightarrow> (nat \<times> nat) option \<Rightarrow> nat \<Rightarrow> 'c tnode \<Rightarrow>
    (nat \<times> (layout_kind \<times> op_workload) \<times> (layout_kind \<times> op_workload)) option res" where
  "ltf_ends g key node_entry target i in_node_entry =
     bindE (keyE (tn_topi_op node_entry)) (\<lambda>ops. bindE (keyE (tn_workloads node_entry)) (\<lambda>wls.
       if in_list (gn_op node_entry) (gt_target_ops g) then
         bindE (bindE (nthE ops 0) infer_kind) (\<lambda>o_kind. bindE (nthE wls 0) (\<lambda>o_wl.
         bindE (keyE (tn_topi_op in_node_entry)) (\<lambda>in_ops. bindE (keyE (tn_workloads in_node_entry)) (\<lambda>in_wls.
         bindE (pivot_workload in_ops in_wls) (\<lambda>(i_op, i_wkl).
         bindE (infer_kind i_op) (\<lambda>i_kind.
           case o_wl of None \<Rightarrow> Inl TypeError
           | Some o_wkl \<Rightarrow> Inr (Some (key, (i_kind, i_wkl), (o_kind, o_wkl)))))))))
       else
         case target of
           None \<Rightarrow> Inl AssertionError
         | Some (target_idx, target_pos) \<Rightarrow>
             if i \<le> target_pos then Inr None
             else
               bindE (bindE (nthE ops 0) infer_kind) (\<lambda>o_kind. bindE (nthE wls target_pos) (\<lambda>o_wl.
               bindE (bindE (nthE ops i) infer_kind) (\<lambda>i_kind. bindE (nthE wls i) (\<lambda>i_wl.
                 case (i_wl, o_wl) of
                   (Some i_wkl, Some o_wkl) \<Rightarrow> Inr (Some (target_idx, (i_kind, i_wkl), (o_kind, o_wkl)))
                 | _ \<Rightarrow> Inl TypeError))))))"

definition ltf_args_of :: "'c infer_layout \<Rightarrow> string \<Rightarrow> bool \<Rightarrow> layout_kind \<times> op_workload \<Rightarrow> layout_kind \<times> op_workload \<Rightarrow>
    'c mrecord \<Rightarrow> 'c mrecord \<Rightarrow> ltf_args res" where
  "ltf_args_of infer dtype is_target i_end o_end i_record o_record =
     (let (i_input_info, i_output_info) = infer (fst i_end) (snd i_end) (mr_config i_record);
          (o_input_info, o_output_info) = infer (fst o_end) (snd o_end) (mr_config o_record)
      in if length i_input_info > 1 \<or> length i_output_info > 1 \<or> length o_input_info > 1 \<or> length o_output_info > 1
         then Inl RuntimeError
         else
           bindE (nthE i_output_info 0) (\<lambda>(in_shape, in_layout).
           bindE (nthE (if is_target then o_input_info else o_output_info) 0) (\<lambda>(_, out_layout).
             Inr (in_shape, dtype, in_layout, out_layout))))"

text \<open>The loops over the candidates of both ends, with the callback.\<close>

definition iterate_records :: "'c infer_layout \<Rightarrow> string \<Rightarrow> bool \<Rightarrow> layout_kind \<times> op_workload \<Rightarrow> layout_kind \<times> op_workload \<Rightarrow>
    'c mrecord list \<Rightarrow> 'c mrecord list \<Rightarrow> (nat \<Rightarrow> nat \<Rightarrow> ltf_args \<Rightarrow> 's \<Rightarrow> 's res) \<Rightarrow> 's \<Rightarrow> 's res" where
  "iterate_records infer dtype is_target i_end o_end i_records o_records callback s =
     foldE (\<lambda>s (m, i_record).
         foldE (\<lambda>s (n, o_record).
             bindE (ltf_args_of infer dtype is_target i_end o_end i_record o_record) (\<lambda>args. callback m n args s))
           s (enumerate 0 o_records))
       s (enumerate 0 i_records)"

definition iterate_input :: "'c infer_layout \<Rightarrow> 'c gtuner \<Rightarrow> (nat \<Rightarrow> nat \<Rightarrow> nat \<Rightarrow> nat \<Rightarrow> ltf_args \<Rightarrow> 's \<Rightarrow> 's res) \<Rightarrow>
    nat \<Rightarrow> 'c tnode \<Rightarrow> (nat \<times> nat) option \<Rightarrow> (nat \<times> nat) list \<times> 's \<Rightarrow> nat \<times> nat \<Rightarrow> ((nat \<times> nat) list \<times> 's) res" where
  "iterate_input infer g callback key node_entry target = (\<lambda>(pair_tracker, s) (i, i_idx).
     bindE (nthE (gt_node_list g) i_idx) (\<lambda>in_node_entry.
       if is_boundary_node in_node_entry (gt_input_names g) then Inr (pair_tracker, s)
       else
         bindE (ltf_ends g key node_entry target i in_node_entry) (\<lambda>ends.
           case ends of
             None \<Rightarrow> Inr (pair_tracker, s)
           | Some (o_idx, i_end, o_end) \<Rightarrow>
               if (i_idx, o_idx) \<in> set pair_tracker then Inr (pair_tracker, s)
               else
                 bindE (keyE (tn_records in_node_entry)) (\<lambda>i_records.
                 bindE (keyE (tn_records node_entry)) (\<lambda>o_records.
                 bindE (iterate_records infer (gt_dtype g) (in_list (gn_op node_entry) (gt_target_ops g)) i_end o_end i_records o_records
                          (callback i_idx o_idx) s) (\<lambda>s'.
                   Inr ((i_idx, o_idx) # pair_tracker, s')))))))"

definition iterate_layout_transform :: "nat \<Rightarrow> 'c infer_layout \<Rightarrow> 'c gtuner \<Rightarrow>
    (nat \<Rightarrow> nat \<Rightarrow> nat \<Rightarrow> nat \<Rightarrow> ltf_args \<Rightarrow> 's \<Rightarrow> 's res) \<Rightarrow> 's \<Rightarrow> 's res" where
  "iterate_layout_transform depth infer g callback s =
     bindE (foldE (\<lambda>ps (key, val).
         bindE (nthE (gt_node_list g) key) (\<lambda>node_entry.
         bindE (has_multiple_inputs depth (gt_node_list g) key (gt_input_names g) OPT_OUT_OP) (\<lambda>multi.
         bindE (if multi then target_input g 0 val else Inr None) (\<lambda>target.
           foldE (iterate_input infer g callback key node_entry target) ps (enumerate 0 val)))))
         ([], s) (gt_in_nodes g))
       (\<lambda>(_, s'). Inr s')"

subsection \<open>The matrices of transformation costs\<close>

text \<open>
  \<^verbatim>\<open>_create_matrix_callback\<close> appends the cost of one transformation to a row of the matrix of a pair of nodes.
\<close>

definition create_matrix_callback :: "(ltf_args \<rightharpoonup> rat list) \<Rightarrow> nat \<Rightarrow> nat \<Rightarrow> nat \<Rightarrow> nat \<Rightarrow> ltf_args \<Rightarrow>
    (nat \<times> nat, rat list list) dict \<Rightarrow> (nat \<times> nat, rat list list) dict res" where
  "create_matrix_callback perf_records from_node_idx to_node_idx from_sch_idx to_sch_idx args cost =
     (case args of (shape, dtype, in_layout, out_layout) \<Rightarrow>
        bindE (if in_layout = out_layout then Inr 0 else bindE (getE perf_records args) (\<lambda>costs. nthE costs 0))
          (\<lambda>layout_transform_time.
             let idx_pair_key = (from_node_idx, to_node_idx);
                 m = (case map_of cost idx_pair_key of None \<Rightarrow> [] | Some m \<Rightarrow> m);
                 m1 = (if length m \<le> from_sch_idx then m @ [[]] else m)
             in bindE (nthE m1 from_sch_idx) (\<lambda>row.
                  Inr (AList.update idx_pair_key (m1[from_sch_idx := row @ [layout_transform_time]]) cost))))"

text \<open>\<^verbatim>\<open>_fetch_args_callback\<close>: the transformations that change the layout.\<close>

definition fetch_args_callback :: "nat \<Rightarrow> nat \<Rightarrow> nat \<Rightarrow> nat \<Rightarrow> ltf_args \<Rightarrow> ltf_args list \<Rightarrow> ltf_args list res" where
  "fetch_args_callback from_node_idx to_node_idx from_sch_idx to_sch_idx args args_list =
     (case args of (shape, dtype, in_layout, out_layout) \<Rightarrow>
        Inr (if in_layout \<noteq> out_layout then args_list @ [args] else args_list))"

text \<open>
  The time of one transformation that has no record: inferred from the average time per element, unless
  the transformation changes the number of elements, or measured, unless the measurement failed.  The
  shape that \<^verbatim>\<open>topi.layout_transform\<close> produces and the measurement are parameters.
\<close>

definition ltf_time :: "(ltf_args \<Rightarrow> int list) \<Rightarrow> (ltf_args \<Rightarrow> rat option) \<Rightarrow> bool \<Rightarrow> rat \<Rightarrow> ltf_args \<Rightarrow> rat" where
  "ltf_time out_shape bench infer_layout avg_time args =
     (if infer_layout then
        let flops = prod_list (fst args); out_flops = prod_list (out_shape args)
        in if flops \<noteq> out_flops then INVALID_LAYOUT_TIME else of_int flops * avg_time
      else case bench args of None \<Rightarrow> INVALID_LAYOUT_TIME | Some t \<Rightarrow> t)"

definition average_time :: "(ltf_args \<times> rat list) list \<Rightarrow> rat res" where
  "average_time records =
     bindE (foldE (\<lambda>(num_flops, total_time) (ltf_wkl, costs).
         bindE (nthE costs 0) (\<lambda>c. Inr (wrap64 (num_flops + np_prod (fst ltf_wkl)), total_time + c)))
         (0, 0) records) (\<lambda>(num_flops, total_time).
       Inr (if num_flops > 0 then total_time / of_int num_flops else 0))"

definition benchmark_layout_transform :: "nat \<Rightarrow> 'c infer_layout \<Rightarrow> (ltf_args \<Rightarrow> int list) \<Rightarrow> (ltf_args \<Rightarrow> rat option) \<Rightarrow>
    (ltf_args \<times> rat list) list option \<Rightarrow> bool \<Rightarrow> 'c gtuner \<Rightarrow> 'c gtuner res" where
  "benchmark_layout_transform depth infer out_shape bench layout_records infer_layout g =
     (if layout_records = None \<and> infer_layout then Inl RuntimeError
      else
        let records = (case layout_records of None \<Rightarrow> [] | Some rs \<Rightarrow> rs);
            perf = fold (\<lambda>(ltf_wkl, costs) p. p(ltf_wkl \<mapsto> costs)) records (gt_perf_records g)
        in bindE (average_time records) (\<lambda>avg_time.
           bindE (iterate_layout_transform depth infer g fetch_args_callback []) (\<lambda>args_list.
             let perf' = fold (\<lambda>args p. if p args \<noteq> None then p
                                        else p(args \<mapsto> [ltf_time out_shape bench infer_layout avg_time args])) args_list perf
             in bindE (iterate_layout_transform depth infer g (create_matrix_callback perf') (gt_interlayer_cost g)) (\<lambda>cost.
                  Inr (g\<lparr>gt_perf_records := perf', gt_interlayer_cost := cost\<rparr>)))))"

subsection \<open>The result\<close>

definition get_optimal_records :: "'c gtuner \<Rightarrow> (nat \<times> nat) list \<Rightarrow> 'c mrecord list res" where
  "get_optimal_records g optimal =
     foldE (\<lambda>ret index.
         bindE (nthE (gt_node_list g) index) (\<lambda>node_entry.
           if \<not> in_list (gn_op node_entry) (gt_target_ops g) then Inr ret
           else bindE (keyE (tn_records node_entry)) (\<lambda>cands.
                bindE (dict_get optimal index) (\<lambda>sch.
                bindE (nthE cands sch) (\<lambda>r. Inr (ret @ [r]))))))
       [] (sort (map fst optimal))"

end
