(* ===== verification/PBQP_Tuner.thy ===== *)
theory PBQP_Tuner
  imports Graph_Tuner
begin

section \<open>The PBQP graph tuner\<close>

text \<open>
  \<^verbatim>\<open>autotvm/graph_tuner/pbqp_tuner.py\<close>: the choice of one candidate per node with the least total of the
  candidates' times and of the layout transformations between neighbours, by the reductions of
  partitioned boolean quadratic programming.

  The cost matrices are objects: the dictionary of matrices holds addresses into the list of matrices,
  because \<^verbatim>\<open>run\<close> enters one matrix under two keys and a reduction updates matrices in place.  The other
  lists are never shared.  Inputs precede a node in the node list, so that no node is its own neighbour,
  and the loops over the neighbours of a node do not change the list they run over.  An exception leaves
  the tuner unused.
\<close>

subsection \<open>State\<close>

record pbqp =
  pb_adj :: "nat \<rightharpoonup> nat list"
  pb_record_cost :: "nat \<rightharpoonup> rat list"
  pb_ltf :: "(nat \<times> nat, nat) dict"
  pb_mats :: "rat list list list"
  pb_max_degree :: nat
  pb_node_degree :: "nat \<rightharpoonup> nat"
  pb_stack :: "nat list"
  pb_buckets :: "nat list list"
  pb_is_optimal :: bool
  pb_optimal :: "(nat, nat) dict"

definition ltf_matrix :: "pbqp \<Rightarrow> nat \<times> nat \<Rightarrow> rat list list res" where
  "ltf_matrix s key = bindE (getE (map_of (pb_ltf s)) key) (\<lambda>p. nthE (pb_mats s) p)"

text \<open>Entering a new matrix object under a key.\<close>

definition put_matrix :: "nat \<times> nat \<Rightarrow> rat list list \<Rightarrow> pbqp \<Rightarrow> pbqp" where
  "put_matrix key m s =
     s\<lparr>pb_ltf := AList.update key (length (pb_mats s)) (pb_ltf s), pb_mats := pb_mats s @ [m]\<rparr>"

definition py_min :: "rat list \<Rightarrow> rat res" where
  "py_min xs = (case xs of [] \<Rightarrow> Inl ValueError | x # xs \<Rightarrow> Inr (foldl min x xs))"

text \<open>\<^verbatim>\<open>acc[j] += c\<close> for the positions of a row.\<close>

definition add_row :: "rat list \<Rightarrow> rat list \<Rightarrow> rat list res" where
  "add_row acc row = foldE (\<lambda>acc (j, c). bindE (nthE acc j) (\<lambda>v. Inr (acc[j := v + c]))) acc (enumerate 0 row)"

text \<open>
  The columns of a matrix, as \<^verbatim>\<open>_insert_edge\<close> and \<^verbatim>\<open>run\<close> collect them: as many as the first row has.  \<^verbatim>\<open>run\<close>
  appends along the rows, so that a longer row raises and a shorter one leaves a shorter column.
\<close>

definition columns_of :: "rat list list \<Rightarrow> rat list list res" where
  "columns_of m =
     bindE (nthE m 0) (\<lambda>row0. mapE (\<lambda>i. mapE (\<lambda>cost_vec. nthE cost_vec i) m) [0..<length row0])"

definition reverse_matrix :: "rat list list \<Rightarrow> rat list list res" where
  "reverse_matrix m =
     bindE (nthE m 0) (\<lambda>row0.
       foldE (\<lambda>acc row. foldE (\<lambda>acc (j, c). bindE (nthE acc j) (\<lambda>col. Inr (acc[j := col @ [c]]))) acc (enumerate 0 row))
         (replicate (length row0) []) m)"

subsection \<open>Degrees and buckets\<close>

definition get_degree :: "pbqp \<Rightarrow> nat \<Rightarrow> nat res" where
  "get_degree s node_idx = bindE (getE (pb_adj s) node_idx) (\<lambda>adj. Inr (length adj))"

definition remove_from_bucket :: "nat \<Rightarrow> nat \<Rightarrow> pbqp \<Rightarrow> pbqp res" where
  "remove_from_bucket degree node_idx s =
     bindE (nthE (pb_buckets s) degree) (\<lambda>b. bindE (removeE node_idx b) (\<lambda>b'.
       Inr (s\<lparr>pb_buckets := (pb_buckets s)[degree := b']\<rparr>)))"

definition reorder_adj_node :: "pbqp \<Rightarrow> nat \<Rightarrow> pbqp res" where
  "reorder_adj_node s adj_node =
     bindE (get_degree s adj_node) (\<lambda>current_degree.
     bindE (getE (pb_node_degree s) adj_node) (\<lambda>prev_degree.
       if prev_degree \<noteq> current_degree then
         bindE (remove_from_bucket prev_degree adj_node s) (\<lambda>s1.
         bindE (nthE (pb_buckets s1) current_degree) (\<lambda>b.
           Inr (s1\<lparr>pb_buckets := (pb_buckets s1)[current_degree := adj_node # b],
                   pb_node_degree := (pb_node_degree s1)(adj_node \<mapsto> current_degree)\<rparr>)))
       else Inr s))"

definition reorder_adj_nodes :: "nat \<Rightarrow> pbqp \<Rightarrow> pbqp res" where
  "reorder_adj_nodes node_idx s =
     bindE (getE (pb_adj s) node_idx) (\<lambda>adj. foldE reorder_adj_node s adj)"

definition remove_node :: "nat \<Rightarrow> pbqp \<Rightarrow> pbqp res" where
  "remove_node node_idx s =
     bindE (getE (pb_adj s) node_idx) (\<lambda>adj.
     bindE (remove_from_bucket (length adj) node_idx s) (\<lambda>s1.
       foldE (\<lambda>s adj_node.
           bindE (getE (pb_adj s) adj_node) (\<lambda>l. bindE (removeE node_idx l) (\<lambda>l'.
             Inr (s\<lparr>pb_adj := (pb_adj s)(adj_node \<mapsto> l')\<rparr>))))
         s1 adj))"

definition insert_edge :: "nat \<Rightarrow> nat \<Rightarrow> rat list list \<Rightarrow> pbqp \<Rightarrow> pbqp res" where
  "insert_edge node_x node_y adj_cost_matrix s =
     bindE (columns_of adj_cost_matrix) (\<lambda>columns.
       let s1 = put_matrix (node_y, node_x) columns (put_matrix (node_x, node_y) adj_cost_matrix s)
       in bindE (getE (pb_adj s1) node_x) (\<lambda>adj_x.
            let s2 = s1\<lparr>pb_adj := (pb_adj s1)(node_x \<mapsto> adj_x @ [node_y])\<rparr>
            in bindE (getE (pb_adj s2) node_y) (\<lambda>adj_y.
                 Inr (s2\<lparr>pb_adj := (pb_adj s2)(node_y \<mapsto> adj_y @ [node_x])\<rparr>))))"

definition backward_insert_node :: "nat \<Rightarrow> pbqp \<Rightarrow> pbqp res" where
  "backward_insert_node node_idx s =
     bindE (getE (pb_adj s) node_idx) (\<lambda>adj.
       foldE (\<lambda>s adj_node.
           bindE (getE (pb_adj s) adj_node) (\<lambda>l.
             Inr (s\<lparr>pb_adj := (pb_adj s)(adj_node \<mapsto> l @ [node_idx])\<rparr>)))
         s adj)"

definition push_stack :: "nat \<Rightarrow> pbqp \<Rightarrow> pbqp" where
  "push_stack node_idx s = s\<lparr>pb_stack := pb_stack s @ [node_idx]\<rparr>"

text \<open>The end of every reduction.\<close>

definition retire_node :: "nat \<Rightarrow> pbqp \<Rightarrow> pbqp res" where
  "retire_node node_idx s =
     bindE (remove_node node_idx s) (\<lambda>s1. bindE (reorder_adj_nodes node_idx s1) (\<lambda>s2. Inr (push_stack node_idx s2)))"

subsection \<open>Reductions\<close>

text \<open>A node of degree one: its cheapest completion is charged to the candidates of its neighbour.\<close>

definition RI_charge :: "nat \<Rightarrow> nat \<Rightarrow> (nat \<rightharpoonup> rat list) \<Rightarrow> nat \<times> rat list \<Rightarrow> (nat \<rightharpoonup> rat list) res" where
  "RI_charge node_idx adj_node rc = (\<lambda>(i, cost_vec).
     bindE (mapE (\<lambda>(j, cost). bindE (getE rc node_idx) (\<lambda>costs. bindE (nthE costs j) (\<lambda>c. Inr (cost + c))))
             (enumerate 0 cost_vec)) (\<lambda>totals.
     bindE (getE rc adj_node) (\<lambda>costs. bindE (nthE costs i) (\<lambda>c.
       Inr (rc(adj_node \<mapsto> costs[i := c + foldl min INVALID_LAYOUT_TIME totals]))))))"

definition RI_reduction :: "nat \<Rightarrow> pbqp \<Rightarrow> pbqp res" where
  "RI_reduction node_idx s =
     bindE (getE (pb_adj s) node_idx) (\<lambda>adj. bindE (nthE adj 0) (\<lambda>adj_node.
     bindE (ltf_matrix s (adj_node, node_idx)) (\<lambda>m.
     bindE (foldE (RI_charge node_idx adj_node) (pb_record_cost s) (enumerate 0 m)) (\<lambda>rc.
       retire_node node_idx (s\<lparr>pb_record_cost := rc\<rparr>)))))"

text \<open>A node of degree two: its cheapest completions become an edge between its neighbours.\<close>

definition delta_entry :: "pbqp \<Rightarrow> nat \<Rightarrow> rat list \<Rightarrow> rat list \<Rightarrow> rat res" where
  "delta_entry s node_idx cost_vec_x cost_vec_y =
     bindE (getE (pb_record_cost s) node_idx) (\<lambda>costs.
     bindE (mapE (\<lambda>k. bindE (nthE cost_vec_x k) (\<lambda>x. bindE (nthE cost_vec_y k) (\<lambda>y. Inr (x + y + costs ! k))))
             [0..<length costs]) (\<lambda>totals.
       Inr (foldl min INVALID_LAYOUT_TIME totals)))"

text \<open>\<^verbatim>\<open>matrix[i][j] += delta\<close> on the object under a key.\<close>

definition add_entry :: "nat \<times> nat \<Rightarrow> nat \<Rightarrow> nat \<Rightarrow> rat \<Rightarrow> pbqp \<Rightarrow> pbqp res" where
  "add_entry key i j delta s =
     bindE (getE (map_of (pb_ltf s)) key) (\<lambda>p. bindE (nthE (pb_mats s) p) (\<lambda>m.
     bindE (nthE m i) (\<lambda>row. bindE (nthE row j) (\<lambda>v.
       Inr (s\<lparr>pb_mats := (pb_mats s)[p := m[i := row[j := v + delta]]]\<rparr>)))))"

definition add_delta :: "nat \<Rightarrow> nat \<Rightarrow> rat list list \<Rightarrow> pbqp \<Rightarrow> pbqp res" where
  "add_delta adj_node_x adj_node_y delta_matrix s =
     foldE (\<lambda>s (i, delta_row).
         foldE (\<lambda>s (j, delta).
             bindE (add_entry (adj_node_x, adj_node_y) i j delta s) (add_entry (adj_node_y, adj_node_x) j i delta))
           s (enumerate 0 delta_row))
       s (enumerate 0 delta_matrix)"

definition RII_reduction :: "nat \<Rightarrow> pbqp \<Rightarrow> pbqp res" where
  "RII_reduction node_idx s =
     bindE (getE (pb_adj s) node_idx) (\<lambda>adj.
       case adj of
         [adj_node_x, adj_node_y] \<Rightarrow>
           bindE (ltf_matrix s (adj_node_x, node_idx)) (\<lambda>ltf_matrix_x.
           bindE (ltf_matrix s (adj_node_y, node_idx)) (\<lambda>ltf_matrix_y.
           bindE (mapE (\<lambda>cost_vec_x. mapE (delta_entry s node_idx cost_vec_x) ltf_matrix_y) ltf_matrix_x) (\<lambda>delta_matrix.
           bindE (if adj_node_x = adj_node_y then
                    bindE (foldE (\<lambda>rc (i, delta_row).
                        bindE (nthE delta_row i) (\<lambda>d. bindE (getE rc adj_node_x) (\<lambda>costs. bindE (nthE costs i) (\<lambda>c.
                          Inr (rc(adj_node_x \<mapsto> costs[i := c + d]))))))
                      (pb_record_cost s) (enumerate 0 delta_matrix)) (\<lambda>rc. Inr (s\<lparr>pb_record_cost := rc\<rparr>))
                  else bindE (getE (pb_adj s) adj_node_y) (\<lambda>adj_y.
                    if adj_node_x \<in> set adj_y then add_delta adj_node_x adj_node_y delta_matrix s
                    else insert_edge adj_node_x adj_node_y delta_matrix s))
             (retire_node node_idx))))
       | _ \<Rightarrow> Inl ValueError)"

text \<open>
  A node of a higher degree: the candidate that is locally best is chosen for good, and its
  transformations are charged to the neighbours.
\<close>

definition RN_cost :: "pbqp \<Rightarrow> nat \<Rightarrow> nat list \<Rightarrow> nat \<Rightarrow> rat \<Rightarrow> rat res" where
  "RN_cost s node_idx adj i record_cost =
     foldE (\<lambda>current_cost adj_node.
         bindE (ltf_matrix s (node_idx, adj_node)) (\<lambda>m.
         bindE (getE (pb_record_cost s) adj_node) (\<lambda>costs. bindE (nthE m i) (\<lambda>row.
         bindE (add_row costs row) (\<lambda>adj_record_cost. bindE (py_min adj_record_cost) (\<lambda>least.
           Inr (current_cost + least)))))))
       record_cost adj"

definition RN_choice :: "pbqp \<Rightarrow> nat \<Rightarrow> nat list \<Rightarrow> rat \<times> nat option \<Rightarrow> nat \<times> rat \<Rightarrow> (rat \<times> nat option) res" where
  "RN_choice s node_idx adj = (\<lambda>(min_cost, record_idx) (i, record_cost).
     bindE (RN_cost s node_idx adj i record_cost) (\<lambda>current_cost.
       Inr (if current_cost < min_cost then (current_cost, Some i) else (min_cost, record_idx))))"

definition RN_reduction :: "nat \<Rightarrow> pbqp \<Rightarrow> pbqp res" where
  "RN_reduction node_idx s =
     bindE (getE (pb_record_cost s) node_idx) (\<lambda>costs. bindE (getE (pb_adj s) node_idx) (\<lambda>adj.
     bindE (foldE (RN_choice s node_idx adj) (INVALID_LAYOUT_TIME, None) (enumerate 0 costs)) (\<lambda>(_, record_idx).
       case record_idx of
         None \<Rightarrow> Inl RuntimeError
       | Some record_idx \<Rightarrow>
           let s1 = s\<lparr>pb_optimal := AList.update node_idx record_idx (pb_optimal s), pb_is_optimal := False\<rparr>
           in bindE (foldE (\<lambda>s adj_node.
                  bindE (ltf_matrix s (node_idx, adj_node)) (\<lambda>m. bindE (nthE m record_idx) (\<lambda>row.
                  bindE (getE (pb_record_cost s) adj_node) (\<lambda>costs. bindE (add_row costs row) (\<lambda>costs'.
                    Inr (s\<lparr>pb_record_cost := (pb_record_cost s)(adj_node \<mapsto> costs')\<rparr>))))))
                s1 adj)
              (retire_node node_idx))))"

subsection \<open>The two passes\<close>

text \<open>One round of the forward loop; \<^term>\<open>None\<close> when it breaks.\<close>

definition forward_step :: "pbqp \<Rightarrow> pbqp option res" where
  "forward_step s =
     bindE (nthE (pb_buckets s) 1) (\<lambda>b1.
       case b1 of
         n # _ \<Rightarrow> bindE (RI_reduction n s) (\<lambda>s'. Inr (Some s'))
       | [] \<Rightarrow>
           bindE (if 2 \<le> pb_max_degree s then nthE (pb_buckets s) 2 else Inr []) (\<lambda>b2.
             case b2 of
               n # _ \<Rightarrow> bindE (RII_reduction n s) (\<lambda>s'. Inr (Some s'))
             | [] \<Rightarrow>
                 if 3 \<le> pb_max_degree s then
                   bindE (mapE (\<lambda>i. nthE (pb_buckets s) i) (rev [3..<pb_max_degree s + 1])) (\<lambda>bs.
                     case concat bs of
                       n # _ \<Rightarrow> bindE (RN_reduction n s) (\<lambda>s'. Inr (Some s'))
                     | [] \<Rightarrow> Inr None)
                 else Inr None))"

partial_function (option) pbqp_forward :: "pbqp \<Rightarrow> pbqp res option" where
  "pbqp_forward s =
     (case forward_step s of
        Inl e \<Rightarrow> Some (Inl e)
      | Inr None \<Rightarrow> Some (Inr s)
      | Inr (Some s') \<Rightarrow> pbqp_forward s')"

declare pbqp_forward.simps [code]

definition choose_least :: "nat \<Rightarrow> rat list \<Rightarrow> pbqp \<Rightarrow> pbqp res" where
  "choose_least node_idx record_costs s =
     bindE (py_min record_costs) (\<lambda>min_cost. bindE (py_index record_costs min_cost) (\<lambda>i.
       Inr (s\<lparr>pb_optimal := AList.update node_idx i (pb_optimal s)\<rparr>)))"

text \<open>The costs of the candidates of a node, given the choices of its neighbours.\<close>

definition backward_costs :: "pbqp \<Rightarrow> nat \<Rightarrow> rat list res" where
  "backward_costs s node_idx =
     bindE (getE (pb_record_cost s) node_idx) (\<lambda>record_costs. bindE (getE (pb_adj s) node_idx) (\<lambda>adj.
       foldE (\<lambda>costs adj_node.
           bindE (getE (map_of (pb_optimal s)) adj_node) (\<lambda>adj_optimal_idx.
             mapE (\<lambda>(i, c).
                 bindE (ltf_matrix s (node_idx, adj_node)) (\<lambda>m. bindE (nthE m i) (\<lambda>row.
                 bindE (nthE row adj_optimal_idx) (\<lambda>v. Inr (c + v)))))
               (enumerate 0 costs)))
         record_costs adj))"

definition backward_node :: "pbqp \<Rightarrow> nat \<Rightarrow> pbqp res" where
  "backward_node s node_idx =
     bindE (backward_insert_node node_idx s) (\<lambda>s1.
       if node_idx \<notin> fst ` set (pb_optimal s1) then
         bindE (backward_costs s1 node_idx) (\<lambda>record_costs. choose_least node_idx record_costs s1)
       else Inr s1)"

definition pbqp_backward :: "pbqp \<Rightarrow> pbqp res" where
  "pbqp_backward s =
     bindE (nthE (pb_buckets s) 0) (\<lambda>b0.
     bindE (foldE (\<lambda>s node_idx. bindE (getE (pb_record_cost s) node_idx) (\<lambda>costs. choose_least node_idx costs s)) s b0) (\<lambda>s1.
       foldE backward_node s1 (rev (pb_stack s1))))"

subsection \<open>Construction and run\<close>

text \<open>Boundary nodes are taken out of the lists of inputs.\<close>

definition drop_boundary :: "'c gtuner \<Rightarrow> 'c gtuner res" where
  "drop_boundary g =
     bindE (foldE (\<lambda>ins (node_idx, outs).
         bindE (nthE (gt_node_list g) node_idx) (\<lambda>node.
           if is_boundary_node node (gt_input_names g) then
             foldE (\<lambda>ins out_node_idx.
                 bindE (dict_get ins out_node_idx) (\<lambda>val. bindE (removeE node_idx val) (\<lambda>val'.
                   Inr (AList.update out_node_idx val' ins))))
               ins outs
           else Inr ins))
         (gt_in_nodes g) (gt_out_nodes g))
       (\<lambda>ins. Inr (g\<lparr>gt_in_nodes := ins\<rparr>))"

definition node_costs :: "'c gtuner \<Rightarrow> nat \<Rightarrow> rat list res" where
  "node_costs g key =
     bindE (nthE (gt_node_list g) key) (\<lambda>node. bindE (keyE (tn_records node)) (\<lambda>cands. mapE cost0 cands))"

text \<open>
  \<^verbatim>\<open>PBQPTuner.__init__\<close> after the boundary nodes are dropped.  The matrices of the base tuner are separate
  objects, one for each pair of nodes; \<^verbatim>\<open>benchmark_layout_transform\<close> fills them in between the construction and
  \<^verbatim>\<open>run\<close> and changes nothing else that is read here, so that the state is built from the benchmarked tuner.
  The base tuner raises when it finds no node, so that there is a node and the largest degree is not negative.
\<close>

definition enumerate_keys :: "('k, 'v) dict \<Rightarrow> ('k, nat) dict" where
  "enumerate_keys d = zip (map fst d) [0..<length d]"

definition mk_pbqp :: "'c gtuner \<Rightarrow> pbqp res" where
  "mk_pbqp g =
     bindE (mapE (\<lambda>(node_idx, val). bindE (dict_get (gt_out_nodes g) node_idx) (\<lambda>outs. Inr (node_idx, val @ outs))) (gt_in_nodes g)) (\<lambda>adj.
     bindE (mapE (\<lambda>(key, val). bindE (node_costs g key) (\<lambda>costs. Inr (key, costs))) (gt_in_nodes g)) (\<lambda>costs.
       let max_degree = foldl max 0 (map (\<lambda>(node_idx, l). length l) adj);
           degree = map_of (map (\<lambda>(node_idx, l). (node_idx, length l)) adj)
       in Inr \<lparr>pb_adj = map_of adj, pb_record_cost = map_of costs,
               pb_ltf = enumerate_keys (gt_interlayer_cost g), pb_mats = map snd (gt_interlayer_cost g),
               pb_max_degree = max_degree, pb_node_degree = degree, pb_stack = [],
               pb_buckets = map (\<lambda>d. filter (\<lambda>n. degree n = Some d) (sort (map fst (gt_in_nodes g)))) [0..<max_degree + 2],
               pb_is_optimal = True, pb_optimal = []\<rparr>))"

text \<open>
  The edges of a multi-input node: to its target input, whose candidate it takes over, and to the other
  inputs, with the matrix object of their transformation to the target input.
\<close>

definition keep_matrix :: "nat \<Rightarrow> rat list list" where
  "keep_matrix n = map (\<lambda>j. map (\<lambda>k. if j = k then 0 else INVALID_LAYOUT_TIME) [0..<n]) [0..<n]"

definition multi_edges :: "nat \<Rightarrow> 'c gtuner \<Rightarrow> pbqp \<Rightarrow> (nat \<times> nat, nat) dict \<times> rat list list list \<Rightarrow> nat \<times> nat list \<Rightarrow>
    ((nat \<times> nat, nat) dict \<times> rat list list list) res" where
  "multi_edges depth g s = (\<lambda>(temp, mats) (key, val).
     bindE (has_multiple_inputs depth (gt_node_list g) key (gt_input_names g) OPT_OUT_OP) (\<lambda>multi.
       if \<not> multi then Inr (temp, mats)
       else
         bindE (target_input g 0 val) (\<lambda>target.
           case target of
             None \<Rightarrow> Inr (temp, mats)
           | Some (target_idx, target_pos) \<Rightarrow>
               bindE (nthE (gt_node_list g) target_idx) (\<lambda>node. bindE (keyE (tn_records node)) (\<lambda>cands.
               bindE (foldE (\<lambda>temp input_idx.
                   bindE (nthE (gt_node_list g) input_idx) (\<lambda>input_node.
                     if is_boundary_node input_node (gt_input_names g) then Inr temp
                     else bindE (getE (map_of (pb_ltf s)) (input_idx, target_idx)) (\<lambda>p.
                            Inr (AList.update (input_idx, key) p temp))))
                   (AList.update (target_idx, key) (length mats) temp) (drop (Suc target_pos) val)) (\<lambda>temp'.
                 Inr (temp', mats @ [keep_matrix (length cands)])))))))"

text \<open>The matrices of all pairs read backwards, as new objects.\<close>

definition reverse_edges :: "pbqp \<Rightarrow> pbqp res" where
  "reverse_edges s =
     bindE (mapE (\<lambda>((a, b), p). bindE (nthE (pb_mats s) p) (\<lambda>m. bindE (reverse_matrix m) (\<lambda>r. Inr ((b, a), r)))) (pb_ltf s)) (\<lambda>temp.
       Inr (fold (\<lambda>(key, m) s. put_matrix key m s) temp s))"

definition prepare_run :: "nat \<Rightarrow> 'c gtuner \<Rightarrow> pbqp \<Rightarrow> pbqp res" where
  "prepare_run depth g s =
     bindE (foldE (multi_edges depth g s) ([], pb_mats s) (gt_in_nodes g)) (\<lambda>(temp, mats).
       reverse_edges (s\<lparr>pb_ltf := AList.updates (map fst temp) (map snd temp) (pb_ltf s), pb_mats := mats\<rparr>))"

text \<open>The passes of \<^verbatim>\<open>run\<close> after the matrices are prepared.\<close>

definition pbqp_solve :: "pbqp \<Rightarrow> pbqp res option" where
  "pbqp_solve s =
     (case pbqp_forward s of
        None \<Rightarrow> None
      | Some (Inl e) \<Rightarrow> Some (Inl e)
      | Some (Inr s') \<Rightarrow> Some (pbqp_backward s'))"

definition pbqp_run :: "nat \<Rightarrow> 'c gtuner \<Rightarrow> pbqp \<Rightarrow> pbqp res option" where
  "pbqp_run depth g s = (case prepare_run depth g s of Inl e \<Rightarrow> Some (Inl e) | Inr s' \<Rightarrow> pbqp_solve s')"

end
