(* ===== verification/Elimination.thy ===== *)
theory Elimination
  imports Prelude
begin

section \<open>Choice problems and variable elimination\<close>

text \<open>
  The problem that the graph tuners solve, independent of any data structure: every node of a graph
  takes one of its candidates, a candidate has a weight, and so has every pair of candidates of two
  neighbours.  Eliminating a node replaces it by its cheapest completion.
\<close>

subsection \<open>The total of a choice\<close>

text \<open>Every edge is seen from both of its ends, hence the half.\<close>

definition total_cost :: "nat set \<Rightarrow> (nat \<Rightarrow> nat set) \<Rightarrow> (nat \<Rightarrow> nat \<Rightarrow> rat) \<Rightarrow> (nat \<Rightarrow> nat \<Rightarrow> nat \<Rightarrow> nat \<Rightarrow> rat) \<Rightarrow> (nat \<Rightarrow> nat) \<Rightarrow> rat" where
  "total_cost V N w c choice =
     (\<Sum>n\<in>V. w n (choice n)) + (\<Sum>n\<in>V. \<Sum>m\<in>N n. c n m (choice n) (choice m)) / 2"

text \<open>What one node contributes.\<close>

definition share :: "(nat \<Rightarrow> nat set) \<Rightarrow> (nat \<Rightarrow> nat \<Rightarrow> rat) \<Rightarrow> (nat \<Rightarrow> nat \<Rightarrow> nat \<Rightarrow> nat \<Rightarrow> rat) \<Rightarrow> nat \<Rightarrow> (nat \<Rightarrow> nat) \<Rightarrow> rat" where
  "share N w c x choice = w x (choice x) + (\<Sum>m\<in>N x. c x m (choice x) (choice m))"

lemma sum_neighbours_of:
  assumes "finite V" "x \<in> V" and N: "\<And>n. n \<in> V \<Longrightarrow> finite (N n)"
    and sym: "\<And>n. n \<in> V \<Longrightarrow> x \<in> N n \<longleftrightarrow> n \<in> N x" and "N x \<subseteq> V - {x}"
    and c: "\<And>n. n \<in> N x \<Longrightarrow> f n x = f x n"
  shows "(\<Sum>n\<in>V - {x}. \<Sum>m\<in>N n. f n m) = (\<Sum>n\<in>V - {x}. \<Sum>m\<in>N n - {x}. f n m) + (\<Sum>m\<in>N x. f x m :: rat)"
proof -
  have "(\<Sum>m\<in>N n. f n m) = (\<Sum>m\<in>N n - {x}. f n m) + (if n \<in> N x then f n x else 0)" if "n \<in> V - {x}" for n
    using that sum.remove [OF N, of n x "f n"] sym [of n] by (cases "x \<in> N n") auto
  then have "(\<Sum>n\<in>V - {x}. \<Sum>m\<in>N n. f n m) =
      (\<Sum>n\<in>V - {x}. (\<Sum>m\<in>N n - {x}. f n m)) + (\<Sum>n\<in>V - {x}. if n \<in> N x then f n x else 0)"
    by (simp add: sum.distrib)
  also have "(\<Sum>n\<in>V - {x}. if n \<in> N x then f n x else 0) = (\<Sum>n\<in>N x. f n x)"
    using assms(1,5) by (simp add: sum.If_cases Int_absorb1)
  also have "\<dots> = (\<Sum>m\<in>N x. f x m)" using c by simp
  finally show ?thesis .
qed

lemma total_split:
  assumes "finite V" "x \<in> V" and "\<And>n. n \<in> V \<Longrightarrow> finite (N n)"
    and "\<And>n. n \<in> V \<Longrightarrow> x \<in> N n \<longleftrightarrow> n \<in> N x" and "N x \<subseteq> V - {x}"
    and "\<And>n. n \<in> N x \<Longrightarrow> c n x (choice n) (choice x) = c x n (choice x) (choice n)"
  shows "total_cost V N w c choice = total_cost (V - {x}) (\<lambda>n. N n - {x}) w c choice + share N w c x choice"
proof -
  have "(\<Sum>n\<in>V. \<Sum>m\<in>N n. c n m (choice n) (choice m)) =
      (\<Sum>m\<in>N x. c x m (choice x) (choice m)) + (\<Sum>n\<in>V - {x}. \<Sum>m\<in>N n. c n m (choice n) (choice m))"
    by (rule sum.remove [OF assms(1,2)])
  also have "\<dots> = (\<Sum>n\<in>V - {x}. \<Sum>m\<in>N n - {x}. c n m (choice n) (choice m)) + 2 * (\<Sum>m\<in>N x. c x m (choice x) (choice m))"
    using sum_neighbours_of [OF assms(1-5), of "\<lambda>n m. c n m (choice n) (choice m)"] assms(6) by simp
  finally have "(\<Sum>n\<in>V. \<Sum>m\<in>N n. c n m (choice n) (choice m)) / 2 =
      (\<Sum>n\<in>V - {x}. \<Sum>m\<in>N n - {x}. c n m (choice n) (choice m)) / 2 + (\<Sum>m\<in>N x. c x m (choice x) (choice m))"
    by simp
  then show ?thesis using sum.remove [OF assms(1,2), of "\<lambda>n. w n (choice n)"] by (simp add: total_cost_def share_def)
qed

lemma total_nonneg:
  assumes "\<And>n. n \<in> V \<Longrightarrow> 0 \<le> w n (choice n)" "\<And>n m. n \<in> V \<Longrightarrow> m \<in> N n \<Longrightarrow> 0 \<le> c n m (choice n) (choice m)"
  shows "0 \<le> total_cost V N w c choice"
  using assms by (simp add: total_cost_def sum_nonneg)

lemma total_cong:
  assumes "V = V'" "\<And>n. n \<in> V' \<Longrightarrow> N n = N' n" "\<And>n. n \<in> V' \<Longrightarrow> w n (choice n) = w' n (choice n)"
    and "\<And>n m. n \<in> V' \<Longrightarrow> m \<in> N' n \<Longrightarrow> c n m (choice n) (choice m) = c' n m (choice n) (choice m)"
  shows "total_cost V N w c choice = total_cost V' N' w' c' choice"
  using assms by (simp add: total_cost_def)

text \<open>The three ways in which the cheapest completions enter what is left.\<close>

lemma total_charge_node:
  assumes "finite V" "a \<in> V" "w' a (choice a) = w a (choice a) + d" "\<And>n. n \<in> V - {a} \<Longrightarrow> w' n (choice n) = w n (choice n)"
  shows "total_cost V N w' c choice = total_cost V N w c choice + d"
  using sum.remove [OF assms(1,2), of "\<lambda>n. w n (choice n)"] sum.remove [OF assms(1,2), of "\<lambda>n. w' n (choice n)"] assms(3,4)
  by (simp add: total_cost_def)

lemma sum_two:
  fixes V :: "nat set"
  assumes "finite V" "x \<in> V" "y \<in> V" "x \<noteq> y" "g x = f x + d" "g y = f y + d" "\<And>n. n \<in> V - {x, y} \<Longrightarrow> g n = f n"
  shows "(\<Sum>n\<in>V. g n) = (\<Sum>n\<in>V. f n) + 2 * (d::rat)"
proof -
  have "(\<Sum>n\<in>V. h n) = h x + h y + (\<Sum>n\<in>V - {x, y}. h n)" for h :: "nat \<Rightarrow> rat"
  proof -
    have "(\<Sum>n\<in>V. h n) = h x + (\<Sum>n\<in>V - {x}. h n)" by (rule sum.remove [OF assms(1,2)])
    also have "(\<Sum>n\<in>V - {x}. h n) = h y + (\<Sum>n\<in>V - {x} - {y}. h n)" using assms(1,3,4) by (intro sum.remove) auto
    finally show ?thesis by (simp add: Diff_insert2 [of V x "{y}"] add.assoc)
  qed
  then show ?thesis using assms(5-7) by simp
qed

lemma total_charge_edge:
  assumes "finite V" "x \<in> V" "y \<in> V" "x \<noteq> y" and N: "finite (N x)" "finite (N y)" "y \<in> N x" "x \<in> N y"
    and new: "c' x y (choice x) (choice y) = c x y (choice x) (choice y) + d"
      "c' y x (choice y) (choice x) = c y x (choice y) (choice x) + d"
    and old: "\<And>n m. n \<in> V \<Longrightarrow> m \<in> N n \<Longrightarrow> (n, m) \<notin> {(x, y), (y, x)} \<Longrightarrow>
                c' n m (choice n) (choice m) = c n m (choice n) (choice m)"
  shows "total_cost V N w c' choice = total_cost V N w c choice + d"
proof -
  let ?g = "\<lambda>n. \<Sum>m\<in>N n. c' n m (choice n) (choice m)" and ?f = "\<lambda>n. \<Sum>m\<in>N n. c n m (choice n) (choice m)"
  have "?g x = ?f x + d" unfolding sum.remove [OF N(1,3)] using new(1) old assms(2,4) by simp
  moreover have "?g y = ?f y + d" unfolding sum.remove [OF N(2,4)] using new(2) old assms(3,4) by simp
  moreover have "?g n = ?f n" if "n \<in> V - {x, y}" for n using that old by (intro sum.cong) auto
  ultimately have "(\<Sum>n\<in>V. ?g n) = (\<Sum>n\<in>V. ?f n) + 2 * d" by (rule sum_two [OF assms(1-4)])
  then show ?thesis by (simp add: total_cost_def)
qed

lemma total_new_edge:
  assumes "finite V" "x \<in> V" "y \<in> V" "x \<noteq> y" and N: "finite (N x)" "finite (N y)" "y \<notin> N x" "x \<notin> N y"
    and N': "N' x = insert y (N x)" "N' y = insert x (N y)" "\<And>n. n \<in> V - {x, y} \<Longrightarrow> N' n = N n"
    and new: "c' x y (choice x) (choice y) = d" "c' y x (choice y) (choice x) = d"
    and old: "\<And>n m. n \<in> V \<Longrightarrow> m \<in> N n \<Longrightarrow> c' n m (choice n) (choice m) = c n m (choice n) (choice m)"
  shows "total_cost V N' w c' choice = total_cost V N w c choice + d"
proof -
  let ?g = "\<lambda>n. \<Sum>m\<in>N' n. c' n m (choice n) (choice m)" and ?f = "\<lambda>n. \<Sum>m\<in>N n. c n m (choice n) (choice m)"
  have "?g x = ?f x + d" using N(1,3) N'(1) new(1) old assms(2) by simp
  moreover have "?g y = ?f y + d" using N(2,4) N'(2) new(2) old assms(3) by simp
  moreover have "?g n = ?f n" if "n \<in> V - {x, y}" for n using that N'(3) [OF that] old by simp
  ultimately have "(\<Sum>n\<in>V. ?g n) = (\<Sum>n\<in>V. ?f n) + 2 * d" by (rule sum_two [OF assms(1-4)])
  then show ?thesis by (simp add: total_cost_def)
qed

subsection \<open>Elimination\<close>

text \<open>The cheapest completion at one node, by an objective that is capped at a bound.\<close>

definition capped :: "rat \<Rightarrow> ((nat \<Rightarrow> nat) \<Rightarrow> rat) \<Rightarrow> (nat \<Rightarrow> nat) \<Rightarrow> rat" where
  "capped bound f choice = min bound (f choice)"

definition eliminate :: "nat \<Rightarrow> nat \<Rightarrow> ((nat \<Rightarrow> nat) \<Rightarrow> rat) \<Rightarrow> (nat \<Rightarrow> nat) \<Rightarrow> rat" where
  "eliminate x k f choice = Min ((\<lambda>i. f (choice(x := i))) ` {..<k})"

lemma Min_cap: "finite A \<Longrightarrow> A \<noteq> {} \<Longrightarrow> Min (min b ` A) = min b (Min A)" for b :: rat
  by (simp add: mono_Min_commute [of "min b"] min.mono monoI)

lemma Min_add: "finite A \<Longrightarrow> A \<noteq> {} \<Longrightarrow> Min ((+) b ` A) = b + Min A" for b :: rat
  by (simp add: mono_Min_commute [of "(+) b"] monoI)

text \<open>
  If what is left of the objective is not negative, replacing a node by its capped cheapest completion
  is elimination of the capped objective.
\<close>

lemma elimination:
  assumes f: "\<And>i. i < k \<Longrightarrow> f (choice(x := i)) = rest + own (choice(x := i))"
    and f': "f' choice = rest + min bound (Min ((\<lambda>i. own (choice(x := i))) ` {..<k}))"
    and "0 \<le> rest" "0 < k"
  shows "capped bound f' choice = eliminate x k (capped bound f) choice"
proof -
  let ?own = "\<lambda>i. own (choice(x := i))"
  have "(\<lambda>i. capped bound f (choice(x := i))) ` {..<k} = min bound ` ((+) rest ` (?own ` {..<k}))"
    by (force simp: capped_def f image_image)
  moreover have "Min (min bound ` ((+) rest ` (?own ` {..<k}))) = min bound (Min ((+) rest ` (?own ` {..<k})))"
    using assms(4) by (intro Min_cap) auto
  moreover have "Min ((+) rest ` (?own ` {..<k})) = rest + Min (?own ` {..<k})" using assms(4) by (intro Min_add) auto
  ultimately have "eliminate x k (capped bound f) choice = min bound (rest + Min (?own ` {..<k}))"
    by (simp only: eliminate_def)
  then show ?thesis using assms(3) by (simp add: capped_def f' min_def)
qed

subsection \<open>Optimal choices by elimination\<close>

text \<open>
  States that a step turns into states with one variable eliminated.  A choice that is optimal after
  the step and locally best at the eliminated variable is optimal before the step.
\<close>

locale elimination_steps =
  fixes objective_of :: "'s \<Rightarrow> (nat \<Rightarrow> nat) \<Rightarrow> rat" and feasible :: "'s \<Rightarrow> (nat \<Rightarrow> nat) \<Rightarrow> bool"
    and dim_of :: "'s \<Rightarrow> nat \<Rightarrow> nat" and step :: "'s \<Rightarrow> nat \<Rightarrow> 's \<Rightarrow> bool"
    and best_at :: "'s \<Rightarrow> nat \<Rightarrow> (nat \<Rightarrow> nat) \<Rightarrow> bool"
  assumes step_eliminates: "step s x s' \<Longrightarrow> feasible s c \<Longrightarrow> objective_of s' c = eliminate x (dim_of s x) (objective_of s) c"
    and step_feasible: "step s x s' \<Longrightarrow> feasible s' c \<longleftrightarrow> feasible s c"
    and step_dim: "step s x s' \<Longrightarrow> feasible s c \<Longrightarrow> c x < dim_of s x"
    and step_best: "step s x s' \<Longrightarrow> feasible s c \<Longrightarrow> best_at s x c \<Longrightarrow> k < dim_of s x \<Longrightarrow>
                      objective_of s c \<le> objective_of s (c(x := k))"
begin

definition optimal_for :: "'s \<Rightarrow> (nat \<Rightarrow> nat) \<Rightarrow> bool" where
  "optimal_for s c \<longleftrightarrow> feasible s c \<and> (\<forall>c'. feasible s c' \<longrightarrow> objective_of s c \<le> objective_of s c')"

lemma eliminate_le: "step s x s' \<Longrightarrow> feasible s c \<Longrightarrow> objective_of s' c \<le> objective_of s c"
  using step_eliminates [of s x s' c] step_dim [of s x s' c]
  by (metis eliminate_def finite_imageI finite_lessThan fun_upd_triv image_eqI lessThan_iff Min_le)

lemma eliminate_best:
  assumes "step s x s'" "feasible s c" "best_at s x c"
  shows "objective_of s' c = objective_of s c"
proof (rule antisym [OF eliminate_le [OF assms(1,2)]])
  have "Min ((\<lambda>k. objective_of s (c(x := k))) ` {..<dim_of s x}) \<in> (\<lambda>k. objective_of s (c(x := k))) ` {..<dim_of s x}"
    using step_dim [OF assms(1,2)] by (intro Min_in) auto
  then show "objective_of s c \<le> objective_of s' c"
    using step_best [OF assms] by (auto simp: step_eliminates [OF assms(1,2)] eliminate_def)
qed

lemma optimal_before:
  assumes "step s x s'" "optimal_for s' c" "best_at s x c"
  shows "optimal_for s c"
proof -
  have f: "feasible s c" using assms(2) step_feasible [OF assms(1)] by (simp add: optimal_for_def)
  have "objective_of s c \<le> objective_of s c'" if "feasible s c'" for c'
  proof -
    have "objective_of s c = objective_of s' c" using eliminate_best [OF assms(1) f assms(3)] by simp
    also have "\<dots> \<le> objective_of s' c'" using assms(2) that step_feasible [OF assms(1)] by (simp add: optimal_for_def)
    also have "\<dots> \<le> objective_of s c'" by (rule eliminate_le [OF assms(1) that])
    finally show ?thesis .
  qed
  with f show ?thesis by (simp add: optimal_for_def)
qed

end

end
