(* ===== verification/PBQP_Graph.thy ===== *)
theory PBQP_Graph
  imports PBQP_Tuner Elimination
begin

section \<open>The graph of the PBQP tuner\<close>

text \<open>
  The problem that a state of the PBQP tuner stands for, the invariant of the state, and what retiring
  a node does to both.
\<close>

subsection \<open>The problem of a state\<close>

definition live :: "pbqp \<Rightarrow> nat set" where
  "live s = (\<Union>b\<in>set (pb_buckets s). set b)"

definition nodes :: "pbqp \<Rightarrow> nat set" where
  "nodes s = live s \<union> set (pb_stack s)"

definition nbrs :: "pbqp \<Rightarrow> nat \<Rightarrow> nat set" where
  "nbrs s n = (case pb_adj s n of None \<Rightarrow> {} | Some l \<Rightarrow> set l)"

definition ncand :: "pbqp \<Rightarrow> nat \<Rightarrow> nat" where
  "ncand s n = (case pb_record_cost s n of None \<Rightarrow> 0 | Some r \<Rightarrow> length r)"

definition ncost :: "pbqp \<Rightarrow> nat \<Rightarrow> nat \<Rightarrow> rat" where
  "ncost s n i = the (pb_record_cost s n) ! i"

definition ecost :: "pbqp \<Rightarrow> nat \<Rightarrow> nat \<Rightarrow> nat \<Rightarrow> nat \<Rightarrow> rat" where
  "ecost s n m i j = pb_mats s ! the (map_of (pb_ltf s) (n, m)) ! i ! j"

definition state_total :: "pbqp \<Rightarrow> (nat \<Rightarrow> nat) \<Rightarrow> rat" where
  "state_total s = total_cost (live s) (nbrs s) (ncost s) (ecost s)"

definition valid :: "pbqp \<Rightarrow> (nat \<Rightarrow> nat) \<Rightarrow> bool" where
  "valid s choice \<longleftrightarrow> (\<forall>n\<in>nodes s. choice n < ncand s n)"

subsection \<open>The invariant\<close>

definition bucketed :: "nat list list \<Rightarrow> (nat \<rightharpoonup> nat) \<Rightarrow> bool" where
  "bucketed bs nd \<longleftrightarrow> (\<forall>d<length bs. distinct (bs ! d) \<and> (\<forall>n\<in>set (bs ! d). nd n = Some d))"

definition edge_ok :: "pbqp \<Rightarrow> nat \<Rightarrow> nat \<Rightarrow> bool" where
  "edge_ok s n m \<longleftrightarrow> (\<exists>p<length (pb_mats s). map_of (pb_ltf s) (n, m) = Some p \<and>
     length (pb_mats s ! p) = ncand s n \<and>
     (\<forall>row\<in>set (pb_mats s ! p). length row = ncand s m \<and> (\<forall>v\<in>set row. 0 \<le> v)))"

definition edges :: "pbqp \<Rightarrow> (nat \<times> nat) set" where
  "edges s = {(n, m). n \<in> nodes s \<and> m \<in> nbrs s n}"

text \<open>The neighbours of a retired node are live or retired later.\<close>

definition stack_ok :: "pbqp \<Rightarrow> bool" where
  "stack_ok s \<longleftrightarrow> live s \<inter> set (pb_stack s) = {} \<and> distinct (pb_stack s) \<and>
     (\<forall>i<length (pb_stack s). nbrs s (pb_stack s ! i) \<subseteq> live s \<union> set (drop (Suc i) (pb_stack s)))"

definition choices_ok :: "pbqp \<Rightarrow> bool" where
  "choices_ok s \<longleftrightarrow> (\<forall>(n, i)\<in>set (pb_optimal s). n \<in> nodes s \<and> i < ncand s n) \<and>
     (pb_is_optimal s \<longrightarrow> pb_optimal s = [])"

definition graph_ok :: "pbqp \<Rightarrow> bool" where
  "graph_ok s \<longleftrightarrow> bucketed (pb_buckets s) (pb_node_degree s) \<and> stack_ok s \<and> choices_ok s \<and>
     (\<forall>n\<in>nodes s. \<exists>l. pb_adj s n = Some l \<and> distinct l) \<and>
     (\<forall>n\<in>live s. nbrs s n \<subseteq> live s - {n} \<and> (\<forall>m\<in>nbrs s n. n \<in> nbrs s m)) \<and>
     (\<forall>n\<in>nodes s. \<exists>r. pb_record_cost s n = Some r \<and> r \<noteq> [] \<and> (\<forall>v\<in>set r. 0 \<le> v)) \<and>
     (\<forall>(n, m)\<in>edges s. edge_ok s n m) \<and>
     (\<forall>n\<in>live s. \<forall>m\<in>nbrs s n. \<forall>i<ncand s n. \<forall>j<ncand s m. ecost s n m i j = ecost s m n j i) \<and>
     inj_on (map_of (pb_ltf s)) (edges s)"

definition degree_ok :: "pbqp \<Rightarrow> bool" where
  "degree_ok s \<longleftrightarrow> length (pb_buckets s) = pb_max_degree s + 2 \<and>
     (\<forall>n\<in>live s. pb_node_degree s n = Some (card (nbrs s n)) \<and> card (nbrs s n) \<le> pb_max_degree s)"

definition pb_ok :: "pbqp \<Rightarrow> bool" where
  "pb_ok s \<longleftrightarrow> graph_ok s \<and> degree_ok s"

text \<open>Retired nodes keep what the backward pass reads.\<close>

definition frozen :: "pbqp \<Rightarrow> pbqp \<Rightarrow> nat \<Rightarrow> bool" where
  "frozen s s' x \<longleftrightarrow> pb_adj s' x = pb_adj s x \<and> pb_record_cost s' x = pb_record_cost s x \<and>
     (\<forall>m\<in>nbrs s x. \<exists>p<length (pb_mats s). map_of (pb_ltf s) (x, m) = Some p \<and> map_of (pb_ltf s') (x, m) = Some p \<and>
        p < length (pb_mats s') \<and> pb_mats s' ! p = pb_mats s ! p)"

subsection \<open>Buckets\<close>

lemma in_buckets: "n \<in> (\<Union>b\<in>set bs. set b) \<longleftrightarrow> (\<exists>d<length bs. n \<in> set (bs ! d))"
  by (metis UN_iff in_set_conv_nth)

lemma live_iff: "n \<in> live s \<longleftrightarrow> (\<exists>d<length (pb_buckets s). n \<in> set (pb_buckets s ! d))"
  unfolding live_def by (rule in_buckets)

lemma finite_live [simp]: "finite (live s)"
  by (simp add: live_def)

lemma bucketed_at:
  assumes "bucketed (pb_buckets s) (pb_node_degree s)" "n \<in> live s"
  obtains d where "d < length (pb_buckets s)" "n \<in> set (pb_buckets s ! d)" "pb_node_degree s n = Some d"
  using assms by (auto simp: live_iff bucketed_def)

lemma remove_from_bucket_ok:
  assumes "bucketed (pb_buckets s) (pb_node_degree s)" "n \<in> live s" "pb_node_degree s n = Some d"
  obtains bs where "remove_from_bucket d n s = Inr (s\<lparr>pb_buckets := bs\<rparr>)" "length bs = length (pb_buckets s)"
    "bucketed bs (pb_node_degree s)" "(\<Union>b\<in>set bs. set b) = live s - {n}"
    "\<And>e. e \<noteq> d \<Longrightarrow> bs ! e = pb_buckets s ! e"
proof -
  let ?bs = "(pb_buckets s)[d := remove1 n (pb_buckets s ! d)]"
  from bucketed_at [OF assms(1,2)] assms(3) have d: "d < length (pb_buckets s)" "n \<in> set (pb_buckets s ! d)" by auto
  have "set (remove1 n (pb_buckets s ! d)) = set (pb_buckets s ! d) - {n}"
    using assms(1) d(1) by (simp add: bucketed_def)
  moreover have "n \<notin> set (pb_buckets s ! e)" if "e < length (pb_buckets s)" "e \<noteq> d" for e
    using assms(1,3) that by (auto simp: bucketed_def)
  ultimately have "m \<in> (\<Union>b\<in>set ?bs. set b) \<longleftrightarrow> m \<in> live s - {n}" for m
    unfolding in_buckets Diff_iff live_iff length_list_update using d(1) by (metis Diff_iff nth_list_update singleton_iff)
  then have "(\<Union>b\<in>set ?bs. set b) = live s - {n}" by blast
  then show thesis
    using that [of ?bs] assms(1) d by (auto simp: remove_from_bucket_def bucketed_def nth_list_update)
qed

lemma reorder_adj_node_ok:
  assumes b: "bucketed (pb_buckets s) (pb_node_degree s)" "a \<in> live s"
    and l: "pb_adj s a = Some l" "length l < length (pb_buckets s)"
  obtains bs nd where "reorder_adj_node s a = Inr (s\<lparr>pb_buckets := bs, pb_node_degree := nd\<rparr>)"
    "length bs = length (pb_buckets s)" "bucketed bs nd" "(\<Union>b\<in>set bs. set b) = live s"
    "nd a = Some (length l)" "\<And>n. n \<noteq> a \<Longrightarrow> nd n = pb_node_degree s n"
proof -
  obtain d where d: "d < length (pb_buckets s)" "pb_node_degree s a = Some d" using bucketed_at [OF b] by metis
  show thesis
  proof (cases "d = length l")
    case True
    then show ?thesis
      using that [of "pb_node_degree s" "pb_buckets s"] b d l by (simp add: reorder_adj_node_def get_degree_def live_def)
  next
    case False
    obtain bs where bs: "remove_from_bucket d a s = Inr (s\<lparr>pb_buckets := bs\<rparr>)" "length bs = length (pb_buckets s)"
      "bucketed bs (pb_node_degree s)" "(\<Union>b\<in>set bs. set b) = live s - {a}"
      using remove_from_bucket_ok [OF b d(2)] by metis
    let ?bs = "bs[length l := a # bs ! length l]" and ?nd = "(pb_node_degree s)(a \<mapsto> length l)"
    have a: "a \<notin> set (bs ! e)" if "e < length bs" for e using bs(4) that in_buckets [of a bs] by blast
    have "n \<in> (\<Union>b\<in>set ?bs. set b) \<longleftrightarrow> n \<in> live s" for n
    proof -
      have "n \<in> live s \<longleftrightarrow> n = a \<or> (\<exists>e<length bs. n \<in> set (bs ! e))"
        using bs(4) b(2) in_buckets [of n bs] by blast
      then show ?thesis unfolding in_buckets using l(2) bs(2) by (auto simp: nth_list_update)
    qed
    moreover have "bucketed ?bs ?nd"
      using bs(2,3) l(2) a by (auto simp: bucketed_def nth_list_update)
    ultimately show ?thesis
      using that [of ?nd ?bs] False bs l(1,2) d by (simp add: reorder_adj_node_def get_degree_def set_eq_iff)
  qed
qed

lemma reorder_fold_ok:
  assumes "bucketed (pb_buckets s) (pb_node_degree s)" "set as \<subseteq> live s"
    and "\<And>a. a \<in> set as \<Longrightarrow> \<exists>l. pb_adj s a = Some l \<and> length l < length (pb_buckets s)"
  shows "\<exists>bs nd. foldE reorder_adj_node s as = Inr (s\<lparr>pb_buckets := bs, pb_node_degree := nd\<rparr>) \<and>
     length bs = length (pb_buckets s) \<and> bucketed bs nd \<and> (\<Union>b\<in>set bs. set b) = live s \<and>
     (\<forall>n. nd n = (if n \<in> set as then map_option length (pb_adj s n) else pb_node_degree s n))"
  using assms
proof (induction as arbitrary: s)
  case Nil
  then show ?case by (intro exI [of _ "pb_buckets s"] exI [of _ "pb_node_degree s"]) (simp add: live_def)
next
  case (Cons a as)
  obtain l where l: "pb_adj s a = Some l" "length l < length (pb_buckets s)" using Cons.prems(3) by auto
  have "a \<in> live s" using Cons.prems(2) by simp
  from reorder_adj_node_ok [OF Cons.prems(1) this l] obtain bs nd where
    1: "reorder_adj_node s a = Inr (s\<lparr>pb_buckets := bs, pb_node_degree := nd\<rparr>)"
    "length bs = length (pb_buckets s)" "bucketed bs nd" "(\<Union>b\<in>set bs. set b) = live s"
    "nd a = Some (length l)" "\<And>n. n \<noteq> a \<Longrightarrow> nd n = pb_node_degree s n" by metis
  let ?s = "s\<lparr>pb_buckets := bs, pb_node_degree := nd\<rparr>"
  have v: "live ?s = live s" using 1(4) by (simp add: live_def)
  have "\<exists>bs' nd'. foldE reorder_adj_node ?s as = Inr (?s\<lparr>pb_buckets := bs', pb_node_degree := nd'\<rparr>) \<and>
     length bs' = length (pb_buckets ?s) \<and> bucketed bs' nd' \<and> (\<Union>b\<in>set bs'. set b) = live ?s \<and>
     (\<forall>n. nd' n = (if n \<in> set as then map_option length (pb_adj ?s n) else pb_node_degree ?s n))"
    using Cons.prems v 1(2,3) by (intro Cons.IH) auto
  then obtain bs' nd' where 2: "foldE reorder_adj_node ?s as = Inr (?s\<lparr>pb_buckets := bs', pb_node_degree := nd'\<rparr>)"
    "length bs' = length bs" "bucketed bs' nd'" "(\<Union>b\<in>set bs'. set b) = live s"
    and nd': "\<forall>n. nd' n = (if n \<in> set as then map_option length (pb_adj s n) else nd n)" unfolding v by auto
  have "foldE reorder_adj_node s (a # as) = Inr (s\<lparr>pb_buckets := bs', pb_node_degree := nd'\<rparr>)" using 1(1) 2(1) by simp
  moreover have "\<forall>n. nd' n = (if n \<in> set (a # as) then map_option length (pb_adj s n) else pb_node_degree s n)"
    using nd' 1(5,6) l(1) by simp
  ultimately show ?case using 1(2) 2(2-4) by metis
qed

subsection \<open>Retiring a node\<close>

lemma unlink_fold:
  assumes "distinct as" "\<And>a. a \<in> set as \<Longrightarrow> \<exists>l. pb_adj s a = Some l \<and> x \<in> set l"
  shows "foldE (\<lambda>s adj_node. bindE (getE (pb_adj s) adj_node) (\<lambda>l. bindE (removeE x l) (\<lambda>l'.
             Inr (s\<lparr>pb_adj := (pb_adj s)(adj_node \<mapsto> l')\<rparr>)))) s as =
     Inr (s\<lparr>pb_adj := \<lambda>n. if n \<in> set as then map_option (remove1 x) (pb_adj s n) else pb_adj s n\<rparr>)"
  using assms
proof (induction as arbitrary: s)
  case (Cons a as)
  obtain l where l: "pb_adj s a = Some l" "x \<in> set l" using Cons.prems(2) by auto
  let ?s = "s\<lparr>pb_adj := (pb_adj s)(a \<mapsto> remove1 x l)\<rparr>"
  have "(\<lambda>n. if n \<in> set as then map_option (remove1 x) (pb_adj ?s n) else pb_adj ?s n) =
    (\<lambda>n. if n \<in> set (a # as) then map_option (remove1 x) (pb_adj s n) else pb_adj s n)"
    using Cons.prems(1) l(1) by auto
  moreover have "\<exists>l. pb_adj ?s b = Some l \<and> x \<in> set l" if "b \<in> set as" for b
    using that Cons.prems by auto
  ultimately show ?case using Cons.IH [of ?s] Cons.prems(1) l by (simp add: fun_upd_def)
qed simp

text \<open>What is left of the lists of neighbours.\<close>

definition unlinked :: "nat \<Rightarrow> pbqp \<Rightarrow> nat \<Rightarrow> nat list option" where
  "unlinked x s n = (if n \<in> nbrs s x then map_option (remove1 x) (pb_adj s n) else pb_adj s n)"

definition retired :: "nat \<Rightarrow> nat list list \<Rightarrow> (nat \<rightharpoonup> nat) \<Rightarrow> pbqp \<Rightarrow> pbqp" where
  "retired x bs nd s = s\<lparr>pb_adj := unlinked x s, pb_buckets := bs, pb_node_degree := nd, pb_stack := pb_stack s @ [x]\<rparr>"

lemma retired_simps [simp]:
  "pb_adj (retired x bs nd s) = unlinked x s" "pb_buckets (retired x bs nd s) = bs"
  "pb_node_degree (retired x bs nd s) = nd" "pb_stack (retired x bs nd s) = pb_stack s @ [x]"
  "pb_record_cost (retired x bs nd s) = pb_record_cost s" "pb_ltf (retired x bs nd s) = pb_ltf s"
  "pb_mats (retired x bs nd s) = pb_mats s" "pb_max_degree (retired x bs nd s) = pb_max_degree s"
  "pb_is_optimal (retired x bs nd s) = pb_is_optimal s" "pb_optimal (retired x bs nd s) = pb_optimal s"
  "ncand (retired x bs nd s) = ncand s" "ncost (retired x bs nd s) = ncost s" "ecost (retired x bs nd s) = ecost s"
  by (auto simp: retired_def ncand_def ncost_def ecost_def fun_eq_iff)

lemma graph_okD:
  assumes "graph_ok s"
  shows "bucketed (pb_buckets s) (pb_node_degree s)" "stack_ok s" "choices_ok s"
    "n \<in> nodes s \<Longrightarrow> \<exists>l. pb_adj s n = Some l \<and> distinct l"
    "n \<in> live s \<Longrightarrow> nbrs s n \<subseteq> live s - {n}" "n \<in> live s \<Longrightarrow> m \<in> nbrs s n \<Longrightarrow> n \<in> nbrs s m"
    "n \<in> nodes s \<Longrightarrow> \<exists>r. pb_record_cost s n = Some r \<and> r \<noteq> [] \<and> (\<forall>v\<in>set r. 0 \<le> v)"
    "n \<in> nodes s \<Longrightarrow> m \<in> nbrs s n \<Longrightarrow> edge_ok s n m"
    "n \<in> live s \<Longrightarrow> m \<in> nbrs s n \<Longrightarrow> i < ncand s n \<Longrightarrow> j < ncand s m \<Longrightarrow> ecost s n m i j = ecost s m n j i"
    "inj_on (map_of (pb_ltf s)) (edges s)"
  using assms by (auto simp: graph_ok_def edges_def)

lemma live_nodes: "n \<in> live s \<Longrightarrow> n \<in> nodes s"
  by (simp add: nodes_def)

lemma finite_nbrs [simp]: "finite (nbrs s n)"
  by (simp add: nbrs_def split: option.split)

lemma nbrs_retired:
  assumes "graph_ok s" "x \<in> live s" "n \<in> nodes s"
  shows "nbrs (retired x bs nd s) n = (if n \<in> live s then nbrs s n - {x} else nbrs s n)"
proof -
  obtain l where l: "pb_adj s n = Some l" "distinct l" using graph_okD(4) [OF assms(1,3)] by blast
  have "n \<in> nbrs s x \<Longrightarrow> n \<in> live s" using graph_okD(5) [OF assms(1,2)] by blast
  moreover have "n \<in> live s \<Longrightarrow> n \<notin> nbrs s x \<Longrightarrow> x \<notin> nbrs s n" using graph_okD(6) [OF assms(1)] by blast
  ultimately show ?thesis using l by (auto simp: nbrs_def unlinked_def)
qed

lemma stack_ok_retired:
  assumes "graph_ok s" "x \<in> live s" "(\<Union>b\<in>set bs. set b) = live s - {x}"
  shows "stack_ok (retired x bs nd s)"
proof -
  let ?t = "retired x bs nd s"
  have v: "live ?t = live s - {x}" using assms(3) by (simp add: live_def)
  have st: "stack_ok s" by (rule graph_okD(2) [OF assms(1)])
  have "nbrs ?t (pb_stack ?t ! i) \<subseteq> live ?t \<union> set (drop (Suc i) (pb_stack ?t))" if i: "i < length (pb_stack ?t)" for i
  proof (cases "i < length (pb_stack s)")
    case True
    then have n: "pb_stack s ! i \<in> nodes s" "pb_stack s ! i \<notin> live s" using st by (auto simp: nodes_def stack_ok_def)
    have "nbrs s (pb_stack s ! i) \<subseteq> live s \<union> set (drop (Suc i) (pb_stack s))" using st True by (simp add: stack_ok_def)
    then show ?thesis using True n nbrs_retired [OF assms(1,2) n(1), of bs nd] v by (auto simp: nth_append)
  next
    case False
    then have "pb_stack ?t ! i = x" "drop (Suc i) (pb_stack ?t) = []" using i by (auto simp: nth_append)
    then show ?thesis
      using nbrs_retired [OF assms(1,2) live_nodes [OF assms(2)], of bs nd] graph_okD(5) [OF assms(1,2)] assms(2) v by auto
  qed
  then show ?thesis using st v assms(2) by (auto simp: stack_ok_def)
qed

lemma graph_ok_retired:
  assumes g: "graph_ok s" and x: "x \<in> live s" and bs: "bucketed bs nd" "(\<Union>b\<in>set bs. set b) = live s - {x}"
  shows "graph_ok (retired x bs nd s)"
proof -
  let ?t = "retired x bs nd s"
  have v: "live ?t = live s - {x}" "nodes ?t = nodes s" using bs(2) x by (auto simp: live_def nodes_def)
  note n = nbrs_retired [OF g x, of _ bs nd]
  have sub: "nbrs ?t k \<subseteq> nbrs s k" if "k \<in> nodes s" for k using n [OF that] by auto
  have e: "edges ?t \<subseteq> edges s" using sub v by (auto simp: edges_def)
  have "choices_ok ?t" using graph_okD(3) [OF g] by (auto simp: choices_ok_def v)
  moreover have "\<exists>l. pb_adj ?t k = Some l \<and> distinct l" if "k \<in> nodes ?t" for k
    using graph_okD(4) [OF g, of k] that v by (auto simp: unlinked_def)
  moreover have "nbrs ?t k \<subseteq> live ?t - {k} \<and> (\<forall>m\<in>nbrs ?t k. k \<in> nbrs ?t m)" if "k \<in> live ?t" for k
  proof -
    have k: "k \<in> live s" "k \<noteq> x" using that v by auto
    have "m \<in> live s" "k \<in> nbrs s m" if "m \<in> nbrs s k" for m using that graph_okD(5,6) [OF g k(1)] by auto
    then show ?thesis using k graph_okD(5) [OF g k(1)] n [OF live_nodes] v(1) by auto
  qed
  moreover have "edge_ok ?t k m" if "(k, m) \<in> edges ?t" for k m
    using that e graph_okD(8) [OF g, of k m] by (auto simp: edge_ok_def edges_def)
  moreover have "ecost ?t k m i j = ecost ?t m k j i" if "k \<in> live ?t" "m \<in> nbrs ?t k" "i < ncand ?t k" "j < ncand ?t m" for k m i j
    using that graph_okD(9) [OF g, of k m i j] sub [of k] v live_nodes by auto
  moreover have "inj_on (map_of (pb_ltf ?t)) (edges ?t)"
    using inj_on_subset [OF graph_okD(10) [OF g] e] by simp
  moreover have "\<exists>r. pb_record_cost ?t k = Some r \<and> r \<noteq> [] \<and> (\<forall>v\<in>set r. 0 \<le> v)" if "k \<in> nodes ?t" for k
    using graph_okD(7) [OF g, of k] that v by simp
  ultimately show ?thesis
    using bs(1) stack_ok_retired [OF g x bs(2)] unfolding graph_ok_def retired_simps by blast
qed

lemma valid_retired:
  assumes "x \<in> live s" "(\<Union>b\<in>set bs. set b) = live s - {x}"
  shows "valid (retired x bs nd s) = valid s"
proof -
  have "nodes (retired x bs nd s) = nodes s" using assms by (auto simp: live_def nodes_def)
  then show ?thesis by (simp add: valid_def fun_eq_iff)
qed

text \<open>The part of the objective that belongs to one node.\<close>

definition own :: "pbqp \<Rightarrow> nat \<Rightarrow> (nat \<Rightarrow> nat) \<Rightarrow> rat" where
  "own s = share (nbrs s) (ncost s) (ecost s)"

lemma objective_retired:
  assumes g: "graph_ok s" and x: "x \<in> live s" and bs: "(\<Union>b\<in>set bs. set b) = live s - {x}" and c: "valid s choice"
  shows "state_total s choice = state_total (retired x bs nd s) choice + own s x choice"
proof -
  let ?t = "retired x bs nd s"
  have v: "live ?t = live s - {x}" using bs by (simp add: live_def)
  have c': "choice n < ncand s n" if "n \<in> live s" for n using c that by (simp add: valid_def nodes_def)
  have "state_total s choice = total_cost (live s - {x}) (\<lambda>n. nbrs s n - {x}) (ncost s) (ecost s) choice + own s x choice"
    unfolding state_total_def own_def
  proof (rule total_split)
    show "x \<in> nbrs s n \<longleftrightarrow> n \<in> nbrs s x" if "n \<in> live s" for n using graph_okD(6) [OF g] that x by blast
    show "ecost s n x (choice n) (choice x) = ecost s x n (choice x) (choice n)" if "n \<in> nbrs s x" for n
      using graph_okD(9) [OF g x that, of "choice x" "choice n"] graph_okD(5) [OF g x] that c' x by auto
  qed (use x graph_okD(5) [OF g x] in auto)
  also have "total_cost (live s - {x}) (\<lambda>n. nbrs s n - {x}) (ncost s) (ecost s) choice = state_total ?t choice"
    unfolding state_total_def using nbrs_retired [OF g x, of _ bs nd] live_nodes by (intro total_cong) (auto simp: v)
  finally show ?thesis .
qed

text \<open>The end of a reduction, when the neighbours of the node may have new degrees.\<close>

lemma retire_node_ok:
  assumes g: "graph_ok s" and x: "x \<in> live s" and len: "length (pb_buckets s) = pb_max_degree s + 2"
    and dx: "pb_node_degree s x = Some (card (nbrs s x))"
    and dn: "\<And>n. n \<in> live s - nbrs s x \<Longrightarrow> pb_node_degree s n = Some (card (nbrs s n))"
    and max: "\<And>n. n \<in> live s - {x} \<Longrightarrow> card (nbrs s n - {x}) \<le> pb_max_degree s"
  obtains bs nd where "retire_node x s = Inr (retired x bs nd s)" "(\<Union>b\<in>set bs. set b) = live s - {x}"
    "graph_ok (retired x bs nd s)" "degree_ok (retired x bs nd s)"
proof -
  obtain l where l: "pb_adj s x = Some l" "distinct l" using graph_okD(4) [OF g live_nodes [OF x]] by blast
  then have n: "nbrs s x = set l" "card (nbrs s x) = length l" by (simp_all add: nbrs_def distinct_card)
  have sub: "set l \<subseteq> live s - {x}" using graph_okD(5) [OF g x] n by simp
  obtain bs1 where 1: "remove_from_bucket (length l) x s = Inr (s\<lparr>pb_buckets := bs1\<rparr>)" "length bs1 = length (pb_buckets s)"
    "bucketed bs1 (pb_node_degree s)" "(\<Union>b\<in>set bs1. set b) = live s - {x}"
    using remove_from_bucket_ok [OF graph_okD(1) [OF g] x] dx n by metis
  let ?s1 = "s\<lparr>pb_buckets := bs1\<rparr>" and ?s2 = "s\<lparr>pb_buckets := bs1, pb_adj := unlinked x s\<rparr>"
  have adj: "\<exists>k. pb_adj s a = Some k \<and> distinct k \<and> x \<in> set k" if "a \<in> set l" for a
  proof -
    have "a \<in> live s" "x \<in> nbrs s a" using that sub graph_okD(6) [OF g x] n by auto
    then show ?thesis using graph_okD(4) [OF g live_nodes] by (force simp: nbrs_def)
  qed
  have "\<exists>k. pb_adj ?s1 a = Some k \<and> x \<in> set k" if "a \<in> set l" for a using adj [OF that] by force
  note unlink = unlink_fold [OF l(2) this]
  have "(\<lambda>k. if k \<in> set l then map_option (remove1 x) (pb_adj ?s1 k) else pb_adj ?s1 k) = unlinked x s"
    by (simp add: unlinked_def n(1) fun_eq_iff)
  with unlink have rm: "remove_node x s = Inr ?s2" using l(1) 1(1) by (simp add: remove_node_def)
  have x2: "pb_adj ?s2 x = Some l" using l(1) sub n by (auto simp: unlinked_def)
  have "\<exists>bs nd. foldE reorder_adj_node ?s2 l = Inr (?s2\<lparr>pb_buckets := bs, pb_node_degree := nd\<rparr>) \<and>
     length bs = length (pb_buckets ?s2) \<and> bucketed bs nd \<and> (\<Union>b\<in>set bs. set b) = live ?s2 \<and>
     (\<forall>n. nd n = (if n \<in> set l then map_option length (pb_adj ?s2 n) else pb_node_degree ?s2 n))"
  proof (rule reorder_fold_ok)
    show "\<exists>k. pb_adj ?s2 a = Some k \<and> length k < length (pb_buckets ?s2)" if a: "a \<in> set l" for a
    proof -
      obtain k where k: "pb_adj s a = Some k" "distinct k" "x \<in> set k" using adj [OF a] by blast
      have "card (nbrs s a - {x}) = length (remove1 x k)" using k by (simp add: nbrs_def distinct_card [symmetric])
      moreover have "a \<in> live s - {x}" using a sub by blast
      ultimately show ?thesis using max [of a] a k(1) n(1) len 1(2) by (simp add: unlinked_def)
    qed
  qed (use 1 sub in \<open>auto simp: live_def\<close>)
  then obtain bs nd where 2: "foldE reorder_adj_node ?s2 l = Inr (?s2\<lparr>pb_buckets := bs, pb_node_degree := nd\<rparr>)"
    "length bs = length (pb_buckets ?s2)" "bucketed bs nd" "(\<Union>b\<in>set bs. set b) = live ?s2"
    and nd: "\<forall>n. nd n = (if n \<in> set l then map_option length (pb_adj ?s2 n) else pb_node_degree ?s2 n)"
    by blast
  have r: "retire_node x s = Inr (retired x bs nd s)" using rm 2(1) x2 by (simp add: retire_node_def reorder_adj_nodes_def push_stack_def retired_def)
  have bs: "length bs = length (pb_buckets s)" "(\<Union>b\<in>set bs. set b) = live s - {x}" using 2(2,4) 1(2,4) by (simp_all add: live_def)
  let ?t = "retired x bs nd s"
  have t: "nbrs ?t k = nbrs s k - {x}" if "k \<in> live s" for k using nbrs_retired [OF g x live_nodes [OF that]] that by simp
  have "nd k = Some (card (nbrs ?t k)) \<and> card (nbrs ?t k) \<le> pb_max_degree s" if k: "k \<in> live s - {x}" for k
  proof (cases "k \<in> set l")
    case True
    then obtain a where a: "pb_adj s k = Some a" "distinct a" "x \<in> set a" using adj by blast
    then have "card (nbrs s k - {x}) = length (remove1 x a)" by (simp add: nbrs_def distinct_card [symmetric])
    then show ?thesis using True nd a(1) t [of k] max [OF k] k n(1) by (simp add: unlinked_def)
  next
    case False
    then have "x \<notin> nbrs s k" using graph_okD(6) [OF g, of k x] k n(1) by auto
    then show ?thesis using False nd t [of k] max [OF k] k n(1) dn [of k] by simp
  qed
  moreover have "live ?t = live s - {x}" using bs(2) by (simp add: live_def)
  ultimately have "degree_ok ?t" using bs(1) len by (simp add: degree_ok_def)
  with that r bs(2) graph_ok_retired [OF g x 2(3) bs(2)] show thesis by blast
qed

end
