(* ===== verification/PBQP_Charge.thy ===== *)
theory PBQP_Charge
  imports PBQP_Graph
begin

section \<open>The first stage of the reductions\<close>

text \<open>
  Before a reduction retires its node it charges the cheapest completions at that node to what is left:
  to the candidates of one neighbour, to an edge between two neighbours, or, for a choice that is final,
  to the candidates of all neighbours.  Each charge keeps the invariant and changes the objective by
  the amount charged.
\<close>

subsection \<open>Minima and loops\<close>

lemma foldl_min: "foldl min b xs = Min (insert b (set xs))" for b :: rat
proof (induction xs arbitrary: b)
  case (Cons x xs)
  then show ?case by (cases "xs = []") (simp_all add: min.assoc)
qed simp

lemma foldl_min_nonneg: "0 \<le> b \<Longrightarrow> (\<And>v. v \<in> set xs \<Longrightarrow> 0 \<le> v) \<Longrightarrow> 0 \<le> foldl min b xs" for b :: rat
  by (simp add: foldl_min)

lemma py_min_Min: "xs \<noteq> [] \<Longrightarrow> py_min xs = Inr (Min (set xs))"
  by (cases xs) (simp_all add: py_min_def foldl_min)

lemma INVALID_pos [simp]: "0 \<le> INVALID_LAYOUT_TIME"
  by (simp add: INVALID_LAYOUT_TIME_def)

text \<open>The least total over the candidates of a node, under the cap that the loops start with.\<close>

definition least :: "nat \<Rightarrow> (nat \<Rightarrow> rat) \<Rightarrow> rat" where
  "least k f = foldl min INVALID_LAYOUT_TIME (map f [0..<k])"

lemma least_eq: "0 < k \<Longrightarrow> least k f = min INVALID_LAYOUT_TIME (Min (f ` {..<k}))"
  unfolding least_def foldl_min by (subst Min_insert) (auto simp: atLeast0LessThan [symmetric])

lemma least_nonneg: "(\<And>i. i < k \<Longrightarrow> 0 \<le> f i) \<Longrightarrow> 0 \<le> least k f"
  unfolding least_def by (intro foldl_min_nonneg) auto

lemma map_enumerate_nth: "length xs = n \<Longrightarrow> map (\<lambda>(j, c). f j c) (enumerate 0 xs) = map (\<lambda>j. f j (xs ! j)) [0..<n]"
  by (rule nth_equalityI) (auto simp: nth_enumerate_eq)

subsection \<open>Charging the candidates of one neighbour\<close>

lemma charge_row:
  assumes "rc x = Some rx" "rc a = Some ra" "length row = length rx" "i < length ra"
  shows "RI_charge x a rc (i, row) = Inr (rc(a \<mapsto> ra[i := ra ! i + least (length rx) (\<lambda>j. row ! j + rx ! j)]))"
proof -
  have "mapE (\<lambda>(j, cost). bindE (getE rc x) (\<lambda>costs. bindE (nthE costs j) (\<lambda>c. Inr (cost + c)))) (enumerate 0 row) =
      Inr (map (\<lambda>(j, cost). cost + rx ! j) (enumerate 0 row))"
    using assms(1,3) by (intro mapE_map_Inr) (auto simp: in_set_enumerate_eq)
  then show ?thesis using assms by (simp add: RI_charge_def least_def map_enumerate_nth)
qed

lemma charge_fold:
  assumes "rc x = Some rx" "a \<noteq> x" "\<And>row. row \<in> set rows \<Longrightarrow> length row = length rx"
  shows "rc a = Some ra \<Longrightarrow> k + length rows \<le> length ra \<Longrightarrow>
    foldE (RI_charge x a) rc (enumerate k rows) =
      Inr (rc(a \<mapsto> map (\<lambda>i. ra ! i + (if k \<le> i \<and> i < k + length rows
                                         then least (length rx) (\<lambda>j. rows ! (i - k) ! j + rx ! j) else 0)) [0..<length ra]))"
  using assms
proof (induction rows arbitrary: k rc ra)
  case Nil
  have "map (\<lambda>i. ra ! i + (if k \<le> i \<and> i < k + length ([] :: rat list list)
      then least (length rx) (\<lambda>j. [] ! (i - k) ! j + rx ! j) else 0)) [0..<length ra] = ra"
    by (intro nth_equalityI) auto
  then show ?case using Nil.prems(1) by (simp only: enumerate_simps foldE.simps fun_upd_idem)
next
  case (Cons row rows)
  let ?ra = "ra[k := ra ! k + least (length rx) (\<lambda>j. row ! j + rx ! j)]"
  have "RI_charge x a rc (k, row) = Inr (rc(a \<mapsto> ?ra))"
    using Cons.prems by (intro charge_row) simp_all
  moreover have "foldE (RI_charge x a) (rc(a \<mapsto> ?ra)) (enumerate (Suc k) rows) =
      Inr ((rc(a \<mapsto> ?ra))(a \<mapsto> map (\<lambda>i. ?ra ! i + (if Suc k \<le> i \<and> i < Suc k + length rows
                                         then least (length rx) (\<lambda>j. rows ! (i - Suc k) ! j + rx ! j) else 0)) [0..<length ?ra]))"
    using Cons.prems by (intro Cons.IH) auto
  moreover have "map (\<lambda>i. ?ra ! i + (if Suc k \<le> i \<and> i < Suc k + length rows
                                         then least (length rx) (\<lambda>j. rows ! (i - Suc k) ! j + rx ! j) else 0)) [0..<length ?ra] =
      map (\<lambda>i. ra ! i + (if k \<le> i \<and> i < k + length (row # rows)
                                         then least (length rx) (\<lambda>j. (row # rows) ! (i - k) ! j + rx ! j) else 0)) [0..<length ra]"
    (is "map ?f _ = map ?g _")
  proof (intro nth_equalityI)
    fix i assume i: "i < length (map ?f [0..<length ?ra])"
    consider "i < k" | "i = k" | "k < i" by linarith
    then show "map ?f [0..<length ?ra] ! i = map ?g [0..<length ra] ! i" using i by cases auto
  qed simp
  ultimately show ?case by (simp only: enumerate_simps foldE.simps bindE_Inr fun_upd_upd)
qed

definition recost :: "nat \<Rightarrow> (nat \<Rightarrow> rat) \<Rightarrow> pbqp \<Rightarrow> pbqp" where
  "recost a d s = s\<lparr>pb_record_cost := (pb_record_cost s)(a \<mapsto> map (\<lambda>i. ncost s a i + d i) [0..<ncand s a])\<rparr>"

lemma recost_fields [simp]:
  "pb_adj (recost a d s) = pb_adj s" "pb_ltf (recost a d s) = pb_ltf s" "pb_mats (recost a d s) = pb_mats s"
  "pb_max_degree (recost a d s) = pb_max_degree s" "pb_node_degree (recost a d s) = pb_node_degree s"
  "pb_stack (recost a d s) = pb_stack s" "pb_buckets (recost a d s) = pb_buckets s"
  "pb_is_optimal (recost a d s) = pb_is_optimal s" "pb_optimal (recost a d s) = pb_optimal s"
  "live (recost a d s) = live s" "nodes (recost a d s) = nodes s" "nbrs (recost a d s) = nbrs s"
  "ecost (recost a d s) = ecost s" "edges (recost a d s) = edges s"
  "pb_record_cost (recost a d s) = (pb_record_cost s)(a \<mapsto> map (\<lambda>i. ncost s a i + d i) [0..<ncand s a])"
  by (auto simp: recost_def live_def nodes_def nbrs_def ecost_def edges_def fun_eq_iff)

lemma ncand_recost [simp]: "ncand (recost a d s) = ncand s"
proof
  show "ncand (recost a d s) n = ncand s n" for n by (simp add: ncand_def [of "recost a d s"]) (simp add: ncand_def)
qed

lemma ncost_recost: "i < ncand s n \<Longrightarrow> ncost (recost a d s) n i = ncost s n i + (if n = a then d i else 0)"
  by (auto simp: ncost_def [of "recost a d s"]) (simp add: ncost_def)

lemma ncost_nonneg: "graph_ok s \<Longrightarrow> n \<in> nodes s \<Longrightarrow> i < ncand s n \<Longrightarrow> 0 \<le> ncost s n i"
  using graph_okD(7) [of s n] by (auto simp: ncand_def ncost_def)

lemma ncand_pos: "graph_ok s \<Longrightarrow> n \<in> nodes s \<Longrightarrow> 0 < ncand s n"
  using graph_okD(7) [of s n] by (auto simp: ncand_def)

lemma ecost_nonneg:
  assumes "graph_ok s" "n \<in> nodes s" "m \<in> nbrs s n" "i < ncand s n" "j < ncand s m"
  shows "0 \<le> ecost s n m i j"
proof -
  obtain p where "map_of (pb_ltf s) (n, m) = Some p" "length (pb_mats s ! p) = ncand s n"
    "\<forall>row\<in>set (pb_mats s ! p). length row = ncand s m \<and> (\<forall>v\<in>set row. 0 \<le> v)"
    using graph_okD(8) [OF assms(1-3)] by (auto simp: edge_ok_def)
  moreover have "pb_mats s ! p ! i \<in> set (pb_mats s ! p)" using calculation(2) assms(4) by simp
  ultimately show ?thesis using assms(5) by (simp add: ecost_def)
qed

lemma recost_ok:
  assumes g: "graph_ok s" and a: "a \<in> nodes s" and d: "\<And>i. i < ncand s a \<Longrightarrow> 0 \<le> d i"
  shows "graph_ok (recost a d s)"
proof -
  let ?t = "recost a d s"
  have "stack_ok ?t" "choices_ok ?t" using graph_okD(2,3) [OF g] by (auto simp: stack_ok_def choices_ok_def)
  moreover have "\<exists>r. pb_record_cost ?t n = Some r \<and> r \<noteq> [] \<and> (\<forall>v\<in>set r. 0 \<le> v)" if "n \<in> nodes s" for n
    using graph_okD(7) [OF g that] ncand_pos [OF g a] ncost_nonneg [OF g a] d by auto
  moreover have "edge_ok ?t n m" if "(n, m) \<in> edges s" for n m
    using that graph_okD(8) [OF g, of n m] by (auto simp: edge_ok_def edges_def)
  ultimately show ?thesis using g unfolding graph_ok_def by auto
qed

lemma objective_recost:
  assumes "valid s choice" "a \<in> live s"
  shows "state_total (recost a d s) choice = state_total s choice + d (choice a)"
  unfolding state_total_def recost_fields
  by (rule total_charge_node) (use assms in \<open>auto simp: ncost_recost valid_def nodes_def\<close>)

lemma own_recost:
  assumes "valid s choice" "x \<in> nodes s" "a \<noteq> x"
  shows "own (recost a d s) x choice = own s x choice"
  using assms by (simp add: own_def share_def ncost_recost valid_def)

lemma frozen_recost:
  assumes "graph_ok s" "x \<in> nodes s" "a \<noteq> x"
  shows "frozen s (recost a d s) x"
  using assms graph_okD(8) [OF assms(1,2)] by (fastforce simp: frozen_def edge_ok_def)

text \<open>The matrix of an edge, as the loops read it.\<close>

lemma ltf_matrix_ok:
  assumes "graph_ok s" "n \<in> nodes s" "m \<in> nbrs s n"
  obtains M where "ltf_matrix s (n, m) = Inr M" "length M = ncand s n" "\<And>row. row \<in> set M \<Longrightarrow> length row = ncand s m"
    "\<And>i j. M ! i ! j = ecost s n m i j"
  using graph_okD(8) [OF assms] by (auto simp: edge_ok_def ltf_matrix_def ecost_def)

lemma adj_ok:
  assumes "graph_ok s" "n \<in> nodes s"
  obtains l where "pb_adj s n = Some l" "distinct l" "nbrs s n = set l"
  using graph_okD(4) [OF assms] by (auto simp: nbrs_def)

lemma costs_ok:
  assumes "graph_ok s" "n \<in> nodes s"
  obtains r where "pb_record_cost s n = Some r" "length r = ncand s n" "\<And>i. r ! i = ncost s n i"
  using graph_okD(7) [OF assms] by (auto simp: ncand_def ncost_def)

lemma valid_upd: "valid s choice \<Longrightarrow> k < ncand s x \<Longrightarrow> valid s (choice(x := k))"
  by (simp add: valid_def)

text \<open>What the cheapest completion at a node costs under the cap.\<close>

definition completion :: "pbqp \<Rightarrow> nat \<Rightarrow> (nat \<Rightarrow> nat) \<Rightarrow> rat" where
  "completion s x choice = min INVALID_LAYOUT_TIME (Min ((\<lambda>k. own s x (choice(x := k))) ` {..<ncand s x}))"

lemma completion_least:
  assumes "graph_ok s" "x \<in> nodes s" "\<And>k. k < ncand s x \<Longrightarrow> f k = own s x (choice(x := k))"
  shows "least (ncand s x) f = completion s x choice"
proof -
  have "f ` {..<ncand s x} = (\<lambda>k. own s x (choice(x := k))) ` {..<ncand s x}" using assms(3) by (intro image_cong) auto
  then show ?thesis by (simp add: least_eq [OF ncand_pos [OF assms(1,2)]] completion_def)
qed

lemma RI_charges:
  assumes g: "graph_ok s" and x: "x \<in> live s" and l: "pb_adj s x = Some [a]"
  obtains d where "RI_reduction x s = retire_node x (recost a d s)" "\<And>i. i < ncand s a \<Longrightarrow> 0 \<le> d i"
    "\<And>choice. valid s choice \<Longrightarrow> d (choice a) = completion s x choice"
proof -
  have n: "nbrs s x = {a}" using l by (simp add: nbrs_def)
  have a: "a \<in> live s" "a \<noteq> x" "x \<in> nbrs s a" using graph_okD(5,6) [OF g x] n by auto
  obtain M where M: "ltf_matrix s (a, x) = Inr M" "length M = ncand s a" "\<And>row. row \<in> set M \<Longrightarrow> length row = ncand s x"
    "\<And>i j. M ! i ! j = ecost s a x i j" using ltf_matrix_ok [OF g live_nodes [OF a(1)] a(3)] by metis
  obtain rx where rx: "pb_record_cost s x = Some rx" "length rx = ncand s x" "\<And>i. rx ! i = ncost s x i"
    using costs_ok [OF g live_nodes [OF x]] by metis
  obtain ra where ra: "pb_record_cost s a = Some ra" "length ra = ncand s a" "\<And>i. ra ! i = ncost s a i"
    using costs_ok [OF g live_nodes [OF a(1)]] by metis
  define d where "d i = least (ncand s x) (\<lambda>j. ecost s a x i j + ncost s x j)" for i
  have "foldE (RI_charge x a) (pb_record_cost s) (enumerate 0 M) =
      Inr ((pb_record_cost s)(a \<mapsto> map (\<lambda>i. ra ! i + (if 0 \<le> i \<and> i < 0 + length M
                                         then least (length rx) (\<lambda>j. M ! (i - 0) ! j + rx ! j) else 0)) [0..<length ra]))"
    using rx ra a(2) M by (intro charge_fold) auto
  moreover have "map (\<lambda>i. ra ! i + (if 0 \<le> i \<and> i < 0 + length M then least (length rx) (\<lambda>j. M ! (i - 0) ! j + rx ! j) else 0)) [0..<length ra] =
      map (\<lambda>i. ncost s a i + d i) [0..<ncand s a]"
    using M ra rx by (intro nth_equalityI) (auto simp: d_def)
  ultimately have "RI_reduction x s = retire_node x (recost a d s)"
    using l M(1) by (simp add: RI_reduction_def recost_def)
  moreover have "0 \<le> d i" if "i < ncand s a" for i
    unfolding d_def using that ecost_nonneg [OF g live_nodes [OF a(1)] a(3) that] ncost_nonneg [OF g live_nodes [OF x]]
    by (intro least_nonneg) (auto intro: add_nonneg_nonneg)
  moreover have "d (choice a) = completion s x choice" if "valid s choice" for choice
  proof -
    have "choice a < ncand s a" using that a(1) by (simp add: valid_def nodes_def)
    then show ?thesis
      unfolding d_def using graph_okD(9) [OF g a(1,3)] n a(2)
      by (intro completion_least [OF g live_nodes [OF x]]) (simp add: own_def share_def)
  qed
  ultimately show thesis by (rule that)
qed

subsection \<open>Charging an edge\<close>

text \<open>
  The state \<^term>\<open>t\<close> has the amounts \<^term>\<open>d\<close> added on the edge between \<^term>\<open>a\<close> and \<^term>\<open>b\<close>, which may be
  new, and is otherwise as \<^term>\<open>s\<close>.
\<close>

definition edge_charged :: "nat \<Rightarrow> nat \<Rightarrow> (nat \<Rightarrow> nat \<Rightarrow> rat) \<Rightarrow> pbqp \<Rightarrow> pbqp \<Rightarrow> bool" where
  "edge_charged a b d s t \<longleftrightarrow>
     t = s\<lparr>pb_adj := pb_adj t, pb_ltf := pb_ltf t, pb_mats := pb_mats t\<rparr> \<and>
     (\<forall>n. n \<notin> {a, b} \<longrightarrow> pb_adj t n = pb_adj s n) \<and>
     (\<exists>l. pb_adj t a = Some l \<and> distinct l) \<and> (\<exists>l. pb_adj t b = Some l \<and> distinct l) \<and>
     nbrs t a = insert b (nbrs s a) \<and> nbrs t b = insert a (nbrs s b) \<and>
     (\<forall>(n, m)\<in>edges s - {(a, b), (b, a)}. map_of (pb_ltf t) (n, m) = map_of (pb_ltf s) (n, m)) \<and>
     (\<forall>(n, m)\<in>edges s - {(a, b), (b, a)}. \<forall>p. map_of (pb_ltf s) (n, m) = Some p \<longrightarrow>
         p < length (pb_mats t) \<and> pb_mats t ! p = pb_mats s ! p) \<and>
     edge_ok t a b \<and> edge_ok t b a \<and>
     (\<forall>i<ncand s a. \<forall>j<ncand s b.
         ecost t a b i j = (if b \<in> nbrs s a then ecost s a b i j else 0) + d i j \<and>
         ecost t b a j i = (if b \<in> nbrs s a then ecost s b a j i else 0) + d i j) \<and>
     inj_on (map_of (pb_ltf t)) (edges t)"

lemma edge_chargedD:
  assumes "edge_charged a b d s t"
  shows "pb_record_cost t = pb_record_cost s" "pb_max_degree t = pb_max_degree s" "pb_node_degree t = pb_node_degree s"
    "pb_stack t = pb_stack s" "pb_buckets t = pb_buckets s" "pb_is_optimal t = pb_is_optimal s" "pb_optimal t = pb_optimal s"
    "live t = live s" "nodes t = nodes s" "ncand t = ncand s" "ncost t = ncost s" "valid t = valid s"
    "n \<noteq> a \<Longrightarrow> n \<noteq> b \<Longrightarrow> nbrs t n = nbrs s n"
    "nbrs t a = insert b (nbrs s a)" "nbrs t b = insert a (nbrs s b)"
proof -
  have *: "t = s\<lparr>pb_adj := pb_adj t, pb_ltf := pb_ltf t, pb_mats := pb_mats t\<rparr>" using assms by (simp add: edge_charged_def)
  show f: "pb_record_cost t = pb_record_cost s" "pb_max_degree t = pb_max_degree s" "pb_node_degree t = pb_node_degree s"
    "pb_stack t = pb_stack s" "pb_buckets t = pb_buckets s" "pb_is_optimal t = pb_is_optimal s" "pb_optimal t = pb_optimal s"
    by (subst *, simp)+
  show v: "live t = live s" "ncand t = ncand s" "ncost t = ncost s" by (simp_all add: f live_def ncand_def [abs_def] ncost_def [abs_def])
  show "nodes t = nodes s" "valid t = valid s" by (simp_all add: f v nodes_def valid_def [abs_def])
  show "n \<noteq> a \<Longrightarrow> n \<noteq> b \<Longrightarrow> nbrs t n = nbrs s n" "nbrs t a = insert b (nbrs s a)" "nbrs t b = insert a (nbrs s b)"
    using assms by (simp_all add: edge_charged_def nbrs_def)
qed

lemma edge_charged_other:
  assumes "graph_ok s" "edge_charged a b d s t" "n \<in> nodes s" "m \<in> nbrs s n" "(n, m) \<notin> {(a, b), (b, a)}"
  shows "edge_ok t n m" "ecost t n m = ecost s n m"
    "\<exists>p<length (pb_mats s). map_of (pb_ltf s) (n, m) = Some p \<and> map_of (pb_ltf t) (n, m) = Some p \<and>
       p < length (pb_mats t) \<and> pb_mats t ! p = pb_mats s ! p"
proof -
  obtain p where p: "p < length (pb_mats s)" "map_of (pb_ltf s) (n, m) = Some p" "length (pb_mats s ! p) = ncand s n"
    "\<forall>row\<in>set (pb_mats s ! p). length row = ncand s m \<and> (\<forall>v\<in>set row. 0 \<le> v)"
    using graph_okD(8) [OF assms(1,3,4)] by (auto simp: edge_ok_def)
  have e: "(n, m) \<in> edges s - {(a, b), (b, a)}" using assms(3-5) by (simp add: edges_def)
  have "\<forall>k\<in>edges s - {(a, b), (b, a)}. map_of (pb_ltf t) k = map_of (pb_ltf s) k"
    "\<forall>k\<in>edges s - {(a, b), (b, a)}. \<forall>p. map_of (pb_ltf s) k = Some p \<longrightarrow> p < length (pb_mats t) \<and> pb_mats t ! p = pb_mats s ! p"
    using assms(2) by (auto simp: edge_charged_def)
  then have q: "map_of (pb_ltf t) (n, m) = Some p" "p < length (pb_mats t)" "pb_mats t ! p = pb_mats s ! p"
    using e p(2) by auto
  with p show "edge_ok t n m" "ecost t n m = ecost s n m"
    by (auto simp: edge_ok_def ecost_def [abs_def] edge_chargedD [OF assms(2)])
  show "\<exists>p<length (pb_mats s). map_of (pb_ltf s) (n, m) = Some p \<and> map_of (pb_ltf t) (n, m) = Some p \<and>
       p < length (pb_mats t) \<and> pb_mats t ! p = pb_mats s ! p" using p q by blast
qed

lemma edge_charged_sym:
  assumes g: "graph_ok s" and ab: "a \<in> live s" "b \<in> live s" "a \<noteq> b" and c: "edge_charged a b d s t"
    and n: "n \<in> live s" "m \<in> nbrs t n" "i < ncand s n" "j < ncand s m"
  shows "ecost t n m i j = ecost t m n j i"
proof -
  have new: "ecost t a b i j = ecost t b a j i" if "i < ncand s a" "j < ncand s b" for i j
    using c that graph_okD(9) [OF g ab(1)] by (auto simp: edge_charged_def)
  consider "(n, m) = (a, b)" | "(n, m) = (b, a)" | "(n, m) \<notin> {(a, b), (b, a)}" "m \<in> nbrs s n"
    using n(2) edge_chargedD(13) [OF c, of n] edge_chargedD(14,15) [OF c] by (cases "n = a"; cases "n = b") auto
  then show ?thesis
  proof cases
    case 3
    have "m \<in> live s" "n \<in> nbrs s m" using graph_okD(5,6) [OF g n(1)] 3(2) by auto
    then show ?thesis
      using edge_charged_other(2) [OF g c live_nodes [OF n(1)] 3(2,1)] edge_charged_other(2) [OF g c live_nodes, of m n] 3(1)
        graph_okD(9) [OF g n(1) 3(2) n(3,4)] by auto
  qed (use n(3,4) new in auto)
qed

lemma edge_charged_ok:
  assumes g: "graph_ok s" and ab: "a \<in> live s" "b \<in> live s" "a \<noteq> b" and c: "edge_charged a b d s t"
  shows "graph_ok t"
proof -
  note D = edge_chargedD [OF c]
  have st: "n \<notin> {a, b}" if "n \<in> set (pb_stack s)" for n using that ab graph_okD(2) [OF g] by (auto simp: stack_ok_def)
  then have "nbrs t (pb_stack s ! i) = nbrs s (pb_stack s ! i)" if "i < length (pb_stack s)" for i
    using that D(13) [of "pb_stack s ! i"] nth_mem by blast
  then have "stack_ok t" using graph_okD(2) [OF g] by (simp add: stack_ok_def D)
  moreover have "choices_ok t" using graph_okD(3) [OF g] by (simp add: choices_ok_def D)
  moreover have "\<exists>l. pb_adj t n = Some l \<and> distinct l" if "n \<in> nodes t" for n
  proof (cases "n \<in> {a, b}")
    case False
    then have "pb_adj t n = pb_adj s n" using c by (simp add: edge_charged_def)
    then show ?thesis using that graph_okD(4) [OF g, of n] by (simp add: D)
  qed (use c in \<open>auto simp: edge_charged_def\<close>)
  moreover have "nbrs t n \<subseteq> live t - {n} \<and> (\<forall>m\<in>nbrs t n. n \<in> nbrs t m)" if "n \<in> live t" for n
  proof -
    have n: "n \<in> live s" using that by (simp add: D)
    have nb: "nbrs t k = nbrs s k \<union> (if k = a then {b} else {}) \<union> (if k = b then {a} else {})" for k
      using D(13) [of k] D(14,15) ab(3) by auto
    have "nbrs s n \<subseteq> live s - {n}" "\<forall>m\<in>nbrs s n. n \<in> nbrs s m" using graph_okD(5,6) [OF g n] by auto
    then show ?thesis unfolding nb D(8) using ab by (auto split: if_splits)
  qed
  moreover have "edge_ok t n m" if "(n, m) \<in> edges t" for n m
  proof (cases "(n, m) \<in> {(a, b), (b, a)}")
    case False
    then have "m \<in> nbrs s n" using that D(13) [of n] D(14,15) by (cases "n = a"; cases "n = b") (auto simp: edges_def)
    then show ?thesis using that False edge_charged_other(1) [OF g c] by (auto simp: edges_def D)
  qed (use c in \<open>auto simp: edge_charged_def\<close>)
  moreover have "\<forall>n\<in>live t. \<forall>m\<in>nbrs t n. \<forall>i<ncand t n. \<forall>j<ncand t m. ecost t n m i j = ecost t m n j i"
    using edge_charged_sym [OF g ab c] unfolding D by blast
  moreover have "inj_on (map_of (pb_ltf t)) (edges t)" using c by (simp add: edge_charged_def)
  ultimately show ?thesis using graph_okD(1,7) [OF g] by (auto simp: graph_ok_def D)
qed

lemma objective_edge_charged:
  assumes g: "graph_ok s" and ab: "a \<in> live s" "b \<in> live s" "a \<noteq> b" and c: "edge_charged a b d s t" and v: "valid s choice"
  shows "state_total t choice = state_total s choice + d (choice a) (choice b)"
proof -
  note D = edge_chargedD [OF c]
  have i: "choice a < ncand s a" "choice b < ncand s b" using v ab by (simp_all add: valid_def nodes_def)
  have new: "ecost t a b (choice a) (choice b) = (if b \<in> nbrs s a then ecost s a b (choice a) (choice b) else 0) + d (choice a) (choice b)"
    "ecost t b a (choice b) (choice a) = (if b \<in> nbrs s a then ecost s b a (choice b) (choice a) else 0) + d (choice a) (choice b)"
    using c i by (simp_all add: edge_charged_def)
  have old: "ecost t n m (choice n) (choice m) = ecost s n m (choice n) (choice m)"
    if "n \<in> live s" "m \<in> nbrs s n" "(n, m) \<notin> {(a, b), (b, a)}" for n m
    using edge_charged_other(2) [OF g c live_nodes [OF that(1)] that(2,3)] by simp
  show ?thesis
  proof (cases "b \<in> nbrs s a")
    case True
    have a: "a \<in> nbrs s b" using graph_okD(6) [OF g ab(1) True] .
    then have "nbrs t n = nbrs s n" for n using D(13) [of n] D(14,15) True by (cases "n = a"; cases "n = b") auto
    then have nb: "nbrs t = nbrs s" ..
    show ?thesis unfolding state_total_def D nb using new old True a ab by (intro total_charge_edge) auto
  next
    case False
    then have "a \<notin> nbrs s b" using graph_okD(6) [OF g ab(2)] by blast
    with False show ?thesis unfolding state_total_def D using new old ab D(13-15) by (intro total_new_edge) auto
  qed
qed

lemma edge_charged_third:
  assumes g: "graph_ok s" and c: "edge_charged a b d s t" and x: "x \<in> nodes s" "x \<noteq> a" "x \<noteq> b"
  shows "own t x = own s x" "pb_adj t x = pb_adj s x" "frozen s t x"
proof -
  note D = edge_chargedD [OF c]
  note other = edge_charged_other [OF g c x(1)]
  have n: "nbrs t x = nbrs s x" using D(13) x by simp
  show "own t x = own s x" using other(2) x n by (simp add: own_def share_def [abs_def] D)
  show adj: "pb_adj t x = pb_adj s x" using c x by (simp add: edge_charged_def)
  show "frozen s t x" using adj other(3) x by (simp add: frozen_def D)
qed

subsection \<open>Adding to an edge in place\<close>

definition triples :: "rat list list \<Rightarrow> (nat \<times> nat \<times> rat) list" where
  "triples dm = concat (map (\<lambda>(i, row). map (\<lambda>(j, d). (i, j, d)) (enumerate 0 row)) (enumerate 0 dm))"

definition add_both :: "nat \<Rightarrow> nat \<Rightarrow> pbqp \<Rightarrow> nat \<times> nat \<times> rat \<Rightarrow> pbqp res" where
  "add_both a b s = (\<lambda>(i, j, d). bindE (add_entry (a, b) i j d s) (add_entry (b, a) j i d))"

lemma add_delta_triples: "add_delta a b dm s = foldE (add_both a b) s (triples dm)"
proof -
  have "foldE (add_both a b) s' (map (\<lambda>(j, d). (i, j, d)) xs) =
      foldE (\<lambda>s (j, d). bindE (add_entry (a, b) i j d s) (add_entry (b, a) j i d)) s' xs" for s' i xs
    unfolding foldE_map by (intro foldE_cong) (auto simp: add_both_def)
  then show ?thesis
    unfolding add_delta_def triples_def foldE_concat foldE_map by (intro foldE_cong) (auto simp: foldE_map)
qed

lemma sum_list_concat_map: "sum_list (map f (concat xss)) = sum_list (map (\<lambda>xs. sum_list (map f xs)) xss)"
  for f :: "'a \<Rightarrow> rat"
  by (induction xss) simp_all

definition amount :: "(nat \<times> nat \<times> rat) list \<Rightarrow> nat \<Rightarrow> nat \<Rightarrow> rat" where
  "amount ts i j = sum_list (map (\<lambda>(i', j', d). if i' = i \<and> j' = j then d else 0) ts)"

lemma sum_list_enumerate: "sum_list (map g (enumerate 0 xs)) = (\<Sum>i<length xs. g (i, xs ! i))" for g :: "nat \<times> 'a \<Rightarrow> rat"
proof -
  have "map g (enumerate 0 xs) = map (\<lambda>i. g (i, xs ! i)) [0..<length xs]" by (rule nth_equalityI) (auto simp: nth_enumerate_eq)
  then show ?thesis by (simp add: interv_sum_list_conv_sum_set_nat atLeast0LessThan)
qed

lemma amount_triples:
  assumes "i < length dm" "j < length (dm ! i)"
  shows "amount (triples dm) i j = dm ! i ! j"
proof -
  let ?f = "\<lambda>(i', j', d). if i' = i \<and> j' = j then d else (0::rat)"
  have "amount (triples dm) i j = (\<Sum>i'<length dm. \<Sum>j'<length (dm ! i'). if i' = i \<and> j' = j then dm ! i' ! j' else 0)"
    by (simp add: amount_def triples_def sum_list_concat_map o_def split_beta sum_list_enumerate cong: if_cong)
  also have "\<dots> = (\<Sum>i'<length dm. if i' = i then (\<Sum>j'<length (dm ! i'). if j' = j then dm ! i' ! j' else 0) else 0)"
    by (intro sum.cong) auto
  finally show ?thesis using assms by simp
qed

definition shaped :: "rat list list \<Rightarrow> nat \<Rightarrow> nat \<Rightarrow> bool" where
  "shaped m k l \<longleftrightarrow> length m = k \<and> (\<forall>row\<in>set m. length row = l)"

lemma shaped_nth: "shaped m k l \<Longrightarrow> i < k \<Longrightarrow> length (m ! i) = l"
  by (auto simp: shaped_def)

lemma add_entry_ok:
  assumes "map_of (pb_ltf s) key = Some p" "p < length (pb_mats s)" "shaped (pb_mats s ! p) k l" "i < k" "j < l"
  obtains m where "add_entry key i j d s = Inr (s\<lparr>pb_mats := (pb_mats s)[p := m]\<rparr>)" "shaped m k l"
    "\<And>i' j'. i' < k \<Longrightarrow> j' < l \<Longrightarrow> m ! i' ! j' = pb_mats s ! p ! i' ! j' + (if i' = i \<and> j' = j then d else 0)"
proof -
  let ?M = "pb_mats s ! p"
  let ?m = "?M[i := (?M ! i)[j := ?M ! i ! j + d]]"
  have l: "length ?M = k" "length (?M ! i) = l" using assms(3) shaped_nth [OF assms(3,4)] by (auto simp: shaped_def)
  then have "add_entry key i j d s = Inr (s\<lparr>pb_mats := (pb_mats s)[p := ?m]\<rparr>)"
    using assms by (simp add: add_entry_def)
  moreover have "shaped ?m k l" using assms(3) l set_update_subset_insert [of ?M i] by (fastforce simp: shaped_def)
  moreover have "?m ! i' ! j' = ?M ! i' ! j' + (if i' = i \<and> j' = j then d else 0)" if "i' < k" "j' < l" for i' j'
    using that l by (cases "i' = i"; cases "j' = j") simp_all
  ultimately show thesis by (rule that)
qed

lemma add_both_fold:
  assumes "p \<noteq> q" "map_of (pb_ltf s) (a, b) = Some p" "map_of (pb_ltf s) (b, a) = Some q"
    and "p < length (pb_mats s)" "q < length (pb_mats s)" "shaped (pb_mats s ! p) k l" "shaped (pb_mats s ! q) l k"
    and "\<forall>(i, j, d)\<in>set ts. i < k \<and> j < l"
  shows "\<exists>ms. foldE (add_both a b) s ts = Inr (s\<lparr>pb_mats := ms\<rparr>) \<and> length ms = length (pb_mats s) \<and>
     (\<forall>r. r \<noteq> p \<and> r \<noteq> q \<longrightarrow> ms ! r = pb_mats s ! r) \<and> shaped (ms ! p) k l \<and> shaped (ms ! q) l k \<and>
     (\<forall>i<k. \<forall>j<l. ms ! p ! i ! j = pb_mats s ! p ! i ! j + amount ts i j \<and>
                     ms ! q ! j ! i = pb_mats s ! q ! j ! i + amount ts i j)"
  using assms(2-)
proof (induction ts arbitrary: s)
  case Nil
  then show ?case by (intro exI [of _ "pb_mats s"]) (simp add: amount_def)
next
  case (Cons t ts)
  obtain i j d where t: "t = (i, j, d)" by (cases t) auto
  have ij: "i < k" "j < l" using Cons.prems(7) by (auto simp: t)
  obtain m where m: "add_entry (a, b) i j d s = Inr (s\<lparr>pb_mats := (pb_mats s)[p := m]\<rparr>)" "shaped m k l"
    "\<And>i' j'. i' < k \<Longrightarrow> j' < l \<Longrightarrow> m ! i' ! j' = pb_mats s ! p ! i' ! j' + (if i' = i \<and> j' = j then d else 0)"
    using add_entry_ok [OF Cons.prems(1,3,5) ij] by metis
  let ?s = "s\<lparr>pb_mats := (pb_mats s)[p := m]\<rparr>"
  obtain n where n: "add_entry (b, a) j i d ?s = Inr (?s\<lparr>pb_mats := (pb_mats ?s)[q := n]\<rparr>)" "shaped n l k"
    "\<And>j' i'. j' < l \<Longrightarrow> i' < k \<Longrightarrow> n ! j' ! i' = pb_mats ?s ! q ! j' ! i' + (if j' = j \<and> i' = i then d else 0)"
    using add_entry_ok [of ?s "(b, a)" q l k j i d] Cons.prems(2,4,6) ij assms(1) by auto
  let ?t = "s\<lparr>pb_mats := (pb_mats s)[p := m, q := n]\<rparr>"
  have step: "add_both a b s t = Inr ?t" using m(1) n(1) by (simp add: add_both_def t)
  have pq: "pb_mats ?t ! p = m" "pb_mats ?t ! q = n" using assms(1) Cons.prems(3,4) by simp_all
  obtain ms where ms: "foldE (add_both a b) ?t ts = Inr (?t\<lparr>pb_mats := ms\<rparr>)" "length ms = length (pb_mats ?t)"
     "\<forall>r. r \<noteq> p \<and> r \<noteq> q \<longrightarrow> ms ! r = pb_mats ?t ! r" "shaped (ms ! p) k l" "shaped (ms ! q) l k"
     "\<forall>i<k. \<forall>j<l. ms ! p ! i ! j = pb_mats ?t ! p ! i ! j + amount ts i j \<and>
                     ms ! q ! j ! i = pb_mats ?t ! q ! j ! i + amount ts i j"
    using Cons.IH [of ?t] Cons.prems pq m(2) n(2) by auto
  have am: "amount (t # ts) i' j' = (if i' = i \<and> j' = j then d else 0) + amount ts i' j'" for i' j' by (simp add: amount_def t)
  have "\<forall>i'<k. \<forall>j'<l. ms ! p ! i' ! j' = pb_mats s ! p ! i' ! j' + amount (t # ts) i' j' \<and>
                     ms ! q ! j' ! i' = pb_mats s ! q ! j' ! i' + amount (t # ts) i' j'"
    using ms(6) m(3) n(3) assms(1) unfolding pq am by simp
  moreover have "foldE (add_both a b) s (t # ts) = Inr (s\<lparr>pb_mats := ms\<rparr>)" using step ms(1) by simp
  ultimately show ?case using ms(2-5) by (intro exI [of _ ms]) simp
qed

lemma set_triples: "(i, j, d) \<in> set (triples dm) \<longleftrightarrow> i < length dm \<and> j < length (dm ! i) \<and> dm ! i ! j = d"
  by (auto simp: triples_def in_set_enumerate_eq image_iff)

text \<open>The amounts of a matrix.\<close>

definition mat_entry :: "rat list list \<Rightarrow> nat \<Rightarrow> nat \<Rightarrow> rat" where
  "mat_entry m i j = m ! i ! j"

lemma edge_ok_shaped:
  assumes "map_of (pb_ltf t) (n, m) = Some p" "p < length (pb_mats t)" "shaped (pb_mats t ! p) (ncand t n) (ncand t m)"
    and "\<And>i j. i < ncand t n \<Longrightarrow> j < ncand t m \<Longrightarrow> 0 \<le> ecost t n m i j"
  shows "edge_ok t n m"
  using assms by (fastforce simp: edge_ok_def shaped_def ecost_def in_set_conv_nth)

lemma add_delta_charged:
  assumes g: "graph_ok s" and ab: "a \<in> live s" "b \<in> live s" "a \<noteq> b" "b \<in> nbrs s a"
    and dm: "shaped dm (ncand s a) (ncand s b)" "\<And>i j. i < ncand s a \<Longrightarrow> j < ncand s b \<Longrightarrow> 0 \<le> dm ! i ! j"
  obtains t where "add_delta a b dm s = Inr t" "edge_charged a b (mat_entry dm) s t"
proof -
  let ?k = "ncand s a" and ?l = "ncand s b"
  have a: "a \<in> nbrs s b" by (rule graph_okD(6) [OF g ab(1,4)])
  obtain p where p: "p < length (pb_mats s)" "map_of (pb_ltf s) (a, b) = Some p" "shaped (pb_mats s ! p) ?k ?l"
    using graph_okD(8) [OF g live_nodes [OF ab(1)] ab(4)] by (auto simp: edge_ok_def shaped_def)
  obtain q where q: "q < length (pb_mats s)" "map_of (pb_ltf s) (b, a) = Some q" "shaped (pb_mats s ! q) ?l ?k"
    using graph_okD(8) [OF g live_nodes [OF ab(2)] a] by (auto simp: edge_ok_def shaped_def)
  have e: "(a, b) \<in> edges s" "(b, a) \<in> edges s" using ab a by (auto simp: edges_def nodes_def)
  have pq: "p \<noteq> q" using inj_onD [OF graph_okD(10) [OF g], OF _ e] ab(3) p(2) q(2) by auto
  have am: "amount (triples dm) i j = mat_entry dm i j" if "i < ?k" "j < ?l" for i j
    using that dm(1) shaped_nth [OF dm(1)] by (simp add: amount_triples mat_entry_def shaped_def)
  have "\<forall>(i, j, d)\<in>set (triples dm). i < ?k \<and> j < ?l"
    using dm(1) shaped_nth [OF dm(1)] by (auto simp: set_triples shaped_def)
  from add_both_fold [OF pq p(2) q(2) p(1) q(1) p(3) q(3) this] obtain ms where
    ms: "add_delta a b dm s = Inr (s\<lparr>pb_mats := ms\<rparr>)" "length ms = length (pb_mats s)"
     "\<forall>r. r \<noteq> p \<and> r \<noteq> q \<longrightarrow> ms ! r = pb_mats s ! r" "shaped (ms ! p) ?k ?l" "shaped (ms ! q) ?l ?k"
    and en: "\<forall>i<?k. \<forall>j<?l. ms ! p ! i ! j = pb_mats s ! p ! i ! j + amount (triples dm) i j \<and>
                     ms ! q ! j ! i = pb_mats s ! q ! j ! i + amount (triples dm) i j"
    unfolding add_delta_triples by auto
  let ?t = "s\<lparr>pb_mats := ms\<rparr>"
  have f: "nbrs ?t = nbrs s" "ncand ?t = ncand s" "edges ?t = edges s"
    by (auto simp: nbrs_def ncand_def edges_def nodes_def live_def fun_eq_iff)
  have other: "r < length (pb_mats ?t) \<and> pb_mats ?t ! r = pb_mats s ! r"
    if "(n, m) \<in> edges s - {(a, b), (b, a)}" "map_of (pb_ltf s) (n, m) = Some r" for n m r
  proof -
    have "r < length (pb_mats s)" using that graph_okD(8) [OF g, of n m] by (auto simp: edges_def edge_ok_def)
    moreover have "r \<noteq> p" "r \<noteq> q"
      using that p(2) q(2) inj_onD [OF graph_okD(10) [OF g], of "(n, m)"] e by (metis DiffE insertCI)+
    ultimately show ?thesis using ms(2,3) by simp
  qed
  have new: "ecost ?t a b i j = ecost s a b i j + mat_entry dm i j" "ecost ?t b a j i = ecost s b a j i + mat_entry dm i j"
    if "i < ?k" "j < ?l" for i j
    using that en am p(2) q(2) by (simp_all add: ecost_def)
  have pos: "0 \<le> mat_entry dm i j" if "i < ?k" "j < ?l" for i j using dm(2) that by (simp add: mat_entry_def)
  have "edge_ok ?t a b" "edge_ok ?t b a"
    using edge_ok_shaped [of ?t a b p] edge_ok_shaped [of ?t b a q] p q ms(2,4,5) new pos f
      ecost_nonneg [OF g live_nodes [OF ab(1)] ab(4)] ecost_nonneg [OF g live_nodes [OF ab(2)] a] by (auto intro: add_nonneg_nonneg)
  moreover have "\<exists>l. pb_adj s n = Some l \<and> distinct l" if "n \<in> live s" for n using graph_okD(4) [OF g live_nodes [OF that]] .
  ultimately have "edge_charged a b (mat_entry dm) s ?t"
    using other new ab a f graph_okD(10) [OF g] by (auto simp: edge_charged_def insert_absorb)
  with ms(1) show thesis by (rule that)
qed

subsection \<open>Inserting an edge\<close>

lemma columns_ok:
  assumes "shaped m k l" "0 < k"
  shows "columns_of m = Inr (map (\<lambda>i. map (\<lambda>row. row ! i) m) [0..<l])"
proof -
  have "length m = k" "length (m ! 0) = l" using assms shaped_nth [OF assms] by (auto simp: shaped_def)
  moreover have "mapE (\<lambda>i. mapE (\<lambda>row. nthE row i) m) [0..<l] = Inr (map (\<lambda>i. map (\<lambda>row. row ! i) m) [0..<l])"
    using assms(1) by (intro mapE_map_Inr) (auto simp: shaped_def)
  ultimately show ?thesis using assms(2) by (simp add: columns_of_def)
qed

lemma insert_edge_charged:
  assumes g: "graph_ok s" and ab: "a \<in> live s" "b \<in> live s" "a \<noteq> b" "b \<notin> nbrs s a"
    and dm: "shaped dm (ncand s a) (ncand s b)" "\<And>i j. i < ncand s a \<Longrightarrow> j < ncand s b \<Longrightarrow> 0 \<le> dm ! i ! j"
  obtains t where "insert_edge a b dm s = Inr t" "edge_charged a b (mat_entry dm) s t"
proof -
  let ?k = "ncand s a" and ?l = "ncand s b" and ?n = "length (pb_mats s)"
  let ?cols = "map (\<lambda>i. map (\<lambda>row. row ! i) dm) [0..<?l]"
  have a: "a \<notin> nbrs s b" using graph_okD(6) [OF g ab(2)] ab(4) by blast
  obtain la where la: "pb_adj s a = Some la" "distinct la" "nbrs s a = set la" using adj_ok [OF g live_nodes [OF ab(1)]] by metis
  obtain lb where lb: "pb_adj s b = Some lb" "distinct lb" "nbrs s b = set lb" using adj_ok [OF g live_nodes [OF ab(2)]] by metis
  let ?ltf = "AList.update (b, a) (Suc ?n) (AList.update (a, b) ?n (pb_ltf s))"
  let ?t = "s\<lparr>pb_ltf := ?ltf, pb_mats := pb_mats s @ [dm, ?cols], pb_adj := (pb_adj s)(a \<mapsto> la @ [b], b \<mapsto> lb @ [a])\<rparr>"
  have t: "insert_edge a b dm s = Inr ?t"
    using columns_ok [OF dm(1) ncand_pos [OF g live_nodes [OF ab(1)]]] la(1) lb(1) ab(3)
    by (simp add: insert_edge_def put_matrix_def Let_def)
  have f: "nbrs ?t n = (if n = a then insert b (nbrs s a) else if n = b then insert a (nbrs s b) else nbrs s n)" "ncand ?t = ncand s" for n
    using la lb ab(3) by (auto simp: nbrs_def ncand_def fun_eq_iff)
  have key: "map_of ?ltf (a, b) = Some ?n" "map_of ?ltf (b, a) = Some (Suc ?n)"
    "\<And>e. e \<noteq> (a, b) \<Longrightarrow> e \<noteq> (b, a) \<Longrightarrow> map_of ?ltf e = map_of (pb_ltf s) e" using ab(3) by (simp_all add: update_conv)
  have addr: "\<exists>r<?n. map_of (pb_ltf s) e = Some r" if "e \<in> edges s" for e
    using that graph_okD(8) [OF g, of "fst e" "snd e"] by (auto simp: edges_def edge_ok_def)
  have new: "ecost ?t a b i j = mat_entry dm i j" "ecost ?t b a j i = mat_entry dm i j" if "i < ?k" "j < ?l" for i j
    using that key(1,2) dm(1) by (simp_all add: ecost_def mat_entry_def nth_append shaped_def)
  have "edge_ok ?t a b" "edge_ok ?t b a"
    using edge_ok_shaped [of ?t a b ?n] edge_ok_shaped [of ?t b a "Suc ?n"] key(1,2) dm new f(2)
    by (auto simp: nth_append shaped_def mat_entry_def)
  moreover have "inj_on (map_of ?ltf) (edges ?t)"
  proof (rule inj_onI)
    have "nodes ?t = nodes s" by (simp add: nodes_def live_def)
    then have e: "edges ?t = edges s \<union> {(a, b), (b, a)}"
      unfolding edges_def f(1) using live_nodes [OF ab(1)] live_nodes [OF ab(2)] by (auto split: if_splits)
    have no: "(a, b) \<notin> edges s" "(b, a) \<notin> edges s" using ab(4) a by (auto simp: edges_def)
    fix u v assume uv: "u \<in> edges ?t" "v \<in> edges ?t" "map_of ?ltf u = map_of ?ltf v"
    have old: "map_of ?ltf w = map_of (pb_ltf s) w" "\<exists>r<?n. map_of (pb_ltf s) w = Some r" if "w \<in> edges s" for w
      using that no key(3) [of w] addr by auto
    show "u = v"
      using uv old inj_onD [OF graph_okD(10) [OF g], of u v] key(1,2) unfolding e by fastforce
  qed
  moreover have "map_of (pb_ltf ?t) (n, m) = map_of (pb_ltf s) (n, m)" if "(n, m) \<in> edges s - {(a, b), (b, a)}" for n m
    using that key(3) [of "(n, m)"] by auto
  moreover have "r < length (pb_mats ?t) \<and> pb_mats ?t ! r = pb_mats s ! r"
    if "(n, m) \<in> edges s - {(a, b), (b, a)}" "map_of (pb_ltf s) (n, m) = Some r" for n m r
    using that addr [of "(n, m)"] by (auto simp: nth_append)
  moreover have "\<exists>l. pb_adj ?t a = Some l \<and> distinct l" "\<exists>l. pb_adj ?t b = Some l \<and> distinct l"
    "\<forall>n. n \<notin> {a, b} \<longrightarrow> pb_adj ?t n = pb_adj s n" using la lb ab a by auto
  moreover have "nbrs ?t a = insert b (nbrs s a)" "nbrs ?t b = insert a (nbrs s b)" using f(1) ab(3) by auto
  moreover have "?t = s\<lparr>pb_adj := pb_adj ?t, pb_ltf := pb_ltf ?t, pb_mats := pb_mats ?t\<rparr>" by simp
  moreover have "\<forall>i<?k. \<forall>j<?l. ecost ?t a b i j = (if b \<in> nbrs s a then ecost s a b i j else 0) + mat_entry dm i j \<and>
         ecost ?t b a j i = (if b \<in> nbrs s a then ecost s b a j i else 0) + mat_entry dm i j" using new ab(4) by simp
  moreover have "inj_on (map_of (pb_ltf ?t)) (edges ?t)" using calculation(3) by simp
  ultimately have "edge_charged a b (mat_entry dm) s ?t" unfolding edge_charged_def by blast
  with t show thesis by (rule that)
qed

subsection \<open>The reduction of degree two\<close>

lemma delta_entry_ok:
  assumes "graph_ok s" "x \<in> nodes s" "length u = ncand s x" "length v = ncand s x"
  shows "delta_entry s x u v = Inr (least (ncand s x) (\<lambda>k. u ! k + v ! k + ncost s x k))"
proof -
  obtain r where r: "pb_record_cost s x = Some r" "length r = ncand s x" "\<And>i. r ! i = ncost s x i"
    using costs_ok [OF assms(1,2)] by metis
  have "mapE (\<lambda>k. bindE (nthE u k) (\<lambda>x. bindE (nthE v k) (\<lambda>y. Inr (x + y + r ! k)))) [0..<length r] =
      Inr (map (\<lambda>k. u ! k + v ! k + ncost s x k) [0..<ncand s x])"
    unfolding r(2) using assms(3,4) r(3) by (intro mapE_map_Inr) simp
  then show ?thesis using r(1) by (simp add: delta_entry_def least_def)
qed

lemma delta_matrix_ok:
  assumes "graph_ok s" "x \<in> nodes s" "\<And>row. row \<in> set Ma \<Longrightarrow> length row = ncand s x" "\<And>row. row \<in> set Mb \<Longrightarrow> length row = ncand s x"
  shows "mapE (\<lambda>u. mapE (delta_entry s x u) Mb) Ma =
    Inr (map (\<lambda>u. map (\<lambda>v. least (ncand s x) (\<lambda>k. u ! k + v ! k + ncost s x k)) Mb) Ma)"
  using assms by (intro mapE_map_Inr) (simp add: mapE_map_Inr delta_entry_ok)

lemma RII_charges:
  assumes g: "graph_ok s" and x: "x \<in> live s" and l: "pb_adj s x = Some [a, b]"
  obtains d t where "RII_reduction x s = retire_node x t" "edge_charged a b d s t"
    "\<And>choice. valid s choice \<Longrightarrow> d (choice a) (choice b) = completion s x choice"
proof -
  have n: "nbrs s x = {a, b}" using l by (simp add: nbrs_def)
  have ab: "a \<in> live s" "a \<noteq> x" "x \<in> nbrs s a" "b \<in> live s" "b \<noteq> x" "x \<in> nbrs s b" using graph_okD(5,6) [OF g x] n by auto
  have ne: "a \<noteq> b" using graph_okD(4) [OF g live_nodes [OF x]] l by auto
  obtain Ma where Ma: "ltf_matrix s (a, x) = Inr Ma" "length Ma = ncand s a" "\<And>row. row \<in> set Ma \<Longrightarrow> length row = ncand s x"
    "\<And>i j. Ma ! i ! j = ecost s a x i j" using ltf_matrix_ok [OF g live_nodes [OF ab(1)] ab(3)] by metis
  obtain Mb where Mb: "ltf_matrix s (b, x) = Inr Mb" "length Mb = ncand s b" "\<And>row. row \<in> set Mb \<Longrightarrow> length row = ncand s x"
    "\<And>i j. Mb ! i ! j = ecost s b x i j" using ltf_matrix_ok [OF g live_nodes [OF ab(4)] ab(6)] by metis
  define dm where "dm = map (\<lambda>u. map (\<lambda>v. least (ncand s x) (\<lambda>k. u ! k + v ! k + ncost s x k)) Mb) Ma"
  have sh: "shaped dm (ncand s a) (ncand s b)" using Ma(2) Mb(2) by (auto simp: dm_def shaped_def)
  have en: "dm ! i ! j = least (ncand s x) (\<lambda>k. ecost s a x i k + ecost s b x j k + ncost s x k)"
    if "i < ncand s a" "j < ncand s b" for i j using that Ma Mb by (simp add: dm_def)
  have pos: "0 \<le> dm ! i ! j" if "i < ncand s a" "j < ncand s b" for i j
    unfolding en [OF that] using ecost_nonneg [OF g live_nodes [OF ab(1)] ab(3) that(1)] ecost_nonneg [OF g live_nodes [OF ab(4)] ab(6) that(2)]
      ncost_nonneg [OF g live_nodes [OF x]] by (intro least_nonneg add_nonneg_nonneg) auto
  obtain lb where lb: "pb_adj s b = Some lb" "nbrs s b = set lb" using adj_ok [OF g live_nodes [OF ab(4)]] by metis
  have lb': "a \<in> set lb \<longleftrightarrow> b \<in> nbrs s a" using lb graph_okD(6) [OF g ab(1)] graph_okD(6) [OF g ab(4)] by blast
  obtain t where t: "(if a \<in> set lb then add_delta a b dm s else insert_edge a b dm s) = Inr t" "edge_charged a b (mat_entry dm) s t"
    using add_delta_charged [OF g ab(1,4) ne _ sh pos] insert_edge_charged [OF g ab(1,4) ne _ sh pos] lb' by metis
  have "mapE (\<lambda>u. mapE (delta_entry s x u) Mb) Ma = Inr dm"
    unfolding dm_def by (rule delta_matrix_ok [OF g live_nodes [OF x] Ma(3) Mb(3)])
  then have "RII_reduction x s = retire_node x t"
    using l Ma(1) Mb(1) ne lb(1) t(1) by (simp add: RII_reduction_def)
  moreover have "mat_entry dm (choice a) (choice b) = completion s x choice" if "valid s choice" for choice
  proof -
    have c: "choice a < ncand s a" "choice b < ncand s b" using that ab by (simp_all add: valid_def nodes_def)
    show ?thesis unfolding mat_entry_def en [OF c]
      using graph_okD(9) [OF g ab(1,3) c(1)] graph_okD(9) [OF g ab(4,6) c(2)] n ab(2,5) ne
      by (intro completion_least [OF g live_nodes [OF x]]) (simp add: own_def share_def)
  qed
  ultimately show thesis using t(2) that by blast
qed

end
