(* ===== verification/PBQP_Forward.thy ===== *)
theory PBQP_Forward
  imports PBQP_Charge
begin

section \<open>The forward pass\<close>

text \<open>
  Every reduction retires one node and keeps the invariant, so that the forward pass ends.  The
  reductions of degree one and two eliminate the node from the objective, capped at the invalid time.
\<close>

subsection \<open>One reduction\<close>

text \<open>What a step from \<^term>\<open>s\<close> to \<^term>\<open>s'\<close> that retires \<^term>\<open>x\<close> keeps.\<close>

definition retires :: "pbqp \<Rightarrow> nat \<Rightarrow> pbqp \<Rightarrow> bool" where
  "retires s x s' \<longleftrightarrow> pb_ok s \<and> x \<in> live s \<and> pb_ok s' \<and> live s' = live s - {x} \<and> pb_stack s' = pb_stack s @ [x] \<and>
     ncand s' = ncand s \<and> (\<forall>y\<in>insert x (set (pb_stack s)). frozen s s' y) \<and> pb_max_degree s' = pb_max_degree s"

text \<open>A step that eliminates \<^term>\<open>x\<close>.\<close>

definition eliminates :: "pbqp \<Rightarrow> nat \<Rightarrow> pbqp \<Rightarrow> bool" where
  "eliminates s x s' \<longleftrightarrow> retires s x s' \<and> pb_is_optimal s' = pb_is_optimal s \<and> pb_optimal s' = pb_optimal s \<and>
     (\<forall>choice. valid s choice \<longrightarrow> state_total s' choice = state_total s choice - own s x choice + completion s x choice)"

lemma pb_okD:
  assumes "pb_ok s"
  shows "graph_ok s" "length (pb_buckets s) = pb_max_degree s + 2"
    "n \<in> live s \<Longrightarrow> pb_node_degree s n = Some (card (nbrs s n))" "n \<in> live s \<Longrightarrow> card (nbrs s n) \<le> pb_max_degree s"
  using assms by (auto simp: pb_ok_def degree_ok_def)

lemma frozen_retired:
  assumes "graph_ok s" "x \<in> live s" "y = x \<or> y \<in> set (pb_stack s)"
  shows "frozen s (retired x bs nd s) y"
proof -
  have "y \<notin> nbrs s x" using assms graph_okD(2,5) [OF assms(1)] by (fastforce simp: stack_ok_def)
  moreover have "y \<in> nodes s" using assms(2,3) by (auto simp: nodes_def)
  ultimately show ?thesis using graph_okD(8) [OF assms(1), of y] by (fastforce simp: frozen_def unlinked_def edge_ok_def)
qed

lemma frozen_trans:
  assumes "frozen s t y" "frozen t u y"
  shows "frozen s u y"
proof -
  have "nbrs t y = nbrs s y" using assms(1) by (simp add: frozen_def nbrs_def)
  with assms show ?thesis unfolding frozen_def by (metis option.inject)
qed

text \<open>The second stage after any charge.\<close>

lemma charged_retires:
  assumes s: "pb_ok s" "x \<in> live s" and t: "graph_ok t"
    and f: "pb_max_degree t = pb_max_degree s" "pb_node_degree t = pb_node_degree s" "pb_stack t = pb_stack s"
      "pb_buckets t = pb_buckets s" "live t = live s" "ncand t = ncand s"
    and fr: "\<And>y. y \<in> insert x (set (pb_stack s)) \<Longrightarrow> frozen s t y"
    and nb: "\<And>n. n \<in> live s - nbrs s x \<Longrightarrow> nbrs t n = nbrs s n"
      "\<And>n. n \<in> live s - {x} \<Longrightarrow> card (nbrs t n - {x}) \<le> card (nbrs s n)"
  obtains bs nd where "retire_node x t = Inr (retired x bs nd t)" "retires s x (retired x bs nd t)"
    "(\<Union>b\<in>set bs. set b) = live t - {x}"
proof -
  have x: "nbrs t x = nbrs s x" using fr [of x] by (simp add: frozen_def nbrs_def)
  have "pb_node_degree t x = Some (card (nbrs t x))" using pb_okD(3) [OF s] f(2) x by simp
  moreover have "pb_node_degree t n = Some (card (nbrs t n))" if "n \<in> live t - nbrs t x" for n
    using that pb_okD(3) [OF s(1), of n] nb(1) [of n] f(2,5) x by simp
  moreover have "card (nbrs t n - {x}) \<le> pb_max_degree t" if "n \<in> live t - {x}" for n
    using nb(2) [of n] that pb_okD(4) [OF s(1), of n] f(1,5) by simp
  moreover have "x \<in> live t" "length (pb_buckets t) = pb_max_degree t + 2" using s(2) f pb_okD(2) [OF s(1)] by simp_all
  ultimately obtain bs nd where r: "retire_node x t = Inr (retired x bs nd t)" "(\<Union>b\<in>set bs. set b) = live t - {x}"
    "graph_ok (retired x bs nd t)" "degree_ok (retired x bs nd t)"
    using retire_node_ok [OF t] by metis
  have "frozen s (retired x bs nd t) y" if "y \<in> insert x (set (pb_stack s))" for y
    using frozen_trans [OF fr [OF that]] frozen_retired [OF t, of x y bs nd] that s(2) f(3,5) by auto
  then have "retires s x (retired x bs nd t)" using r s f by (simp add: retires_def pb_ok_def live_def)
  with r that show thesis by blast
qed

lemma degree_list:
  assumes "pb_ok s" "x \<in> live s"
  obtains l where "pb_adj s x = Some l" "length l = card (nbrs s x)"
  using adj_ok [OF pb_okD(1) [OF assms(1)] live_nodes [OF assms(2)]] by (metis distinct_card)

lemma RI_eliminates:
  assumes s: "pb_ok s" "x \<in> live s" and d: "card (nbrs s x) = 1"
  obtains s' where "RI_reduction x s = Inr s'" "eliminates s x s'"
proof -
  note g = pb_okD(1) [OF s(1)]
  obtain a where l: "pb_adj s x = Some [a]" using degree_list [OF s] d by (metis length_0_conv length_Suc_conv One_nat_def)
  then have a: "a \<in> live s" "a \<noteq> x" using graph_okD(5) [OF g s(2)] by (auto simp: nbrs_def)
  obtain c where c: "RI_reduction x s = retire_node x (recost a c s)" "\<And>i. i < ncand s a \<Longrightarrow> 0 \<le> c i"
    "\<And>choice. valid s choice \<Longrightarrow> c (choice a) = completion s x choice" using RI_charges [OF g s(2) l] by metis
  let ?t = "recost a c s"
  have t: "graph_ok ?t" by (rule recost_ok [OF g live_nodes [OF a(1)] c(2)])
  have fr: "frozen s ?t y" if "y \<in> insert x (set (pb_stack s))" for y
    using that s(2) a graph_okD(2) [OF g] by (intro frozen_recost [OF g]) (auto simp: nodes_def stack_ok_def)
  obtain bs nd where r: "retire_node x ?t = Inr (retired x bs nd ?t)" "retires s x (retired x bs nd ?t)"
    "(\<Union>b\<in>set bs. set b) = live ?t - {x}"
    by (rule charged_retires [OF s t recost_fields(4,5,6,7,10) ncand_recost fr]) (simp_all add: card_Diff1_le)
  have "state_total (retired x bs nd ?t) choice = state_total s choice - own s x choice + completion s x choice" if v: "valid s choice" for choice
  proof -
    have "valid ?t choice" using v by (simp add: valid_def)
    with objective_retired [OF t _ r(3), of choice nd] s(2)
    have "state_total ?t choice = state_total (retired x bs nd ?t) choice + own ?t x choice" by simp
    then show ?thesis
      using objective_recost [OF v a(1), of c] own_recost [OF v live_nodes [OF s(2)] a(2), of c] c(3) [OF v] by simp
  qed
  then have "eliminates s x (retired x bs nd ?t)" using r(2) by (simp add: eliminates_def)
  with c(1) r(1) that show thesis by simp
qed

lemma RII_eliminates:
  assumes s: "pb_ok s" "x \<in> live s" and d: "card (nbrs s x) = 2"
  obtains s' where "RII_reduction x s = Inr s'" "eliminates s x s'"
proof -
  note g = pb_okD(1) [OF s(1)]
  obtain l where l: "pb_adj s x = Some l" "length l = 2" using degree_list [OF s] d by metis
  then obtain a b where ab: "pb_adj s x = Some [a, b]" by (auto simp: numeral_2_eq_2 length_Suc_conv)
  then have n: "nbrs s x = {a, b}" by (simp add: nbrs_def)
  have "a \<in> live s" "b \<in> live s" "a \<noteq> x" "b \<noteq> x" "x \<in> nbrs s a" "x \<in> nbrs s b" using graph_okD(5,6) [OF g s(2)] n by auto
  note L = this
  have ne: "a \<noteq> b" using n d by auto
  obtain c t where c: "RII_reduction x s = retire_node x t" "edge_charged a b c s t"
    "\<And>choice. valid s choice \<Longrightarrow> c (choice a) (choice b) = completion s x choice" using RII_charges [OF g s(2) ab] by metis
  note D = edge_chargedD [OF c(2)]
  have t: "graph_ok t" by (rule edge_charged_ok [OF g L(1,2) ne c(2)])
  have fr: "frozen s t y" if "y \<in> insert x (set (pb_stack s))" for y
    using that s(2) L graph_okD(2) [OF g] by (intro edge_charged_third(3) [OF g c(2)]) (auto simp: nodes_def stack_ok_def)
  have card: "card (nbrs t k - {x}) \<le> card (nbrs s k)" for k
  proof -
    have "card (insert y (nbrs s k) - {x}) \<le> card (nbrs s k)" if "x \<in> nbrs s k" for y
    proof -
      have "card (insert y (nbrs s k) - {x}) \<le> card (insert y (nbrs s k - {x}))" by (intro card_mono) auto
      also have "\<dots> \<le> Suc (card (nbrs s k - {x}))" by (simp add: card_insert_if)
      also have "\<dots> = card (nbrs s k)" by (rule card_Suc_Diff1 [OF finite_nbrs that])
      finally show ?thesis .
    qed
    then show ?thesis using D(13) [of k] D(14,15) L(5,6) by (cases "k = a"; cases "k = b") (auto intro: card_mono)
  qed
  obtain bs nd where r: "retire_node x t = Inr (retired x bs nd t)" "retires s x (retired x bs nd t)"
    "(\<Union>b\<in>set bs. set b) = live t - {x}"
    by (rule charged_retires [OF s t D(2,3,4,5,8,10) fr]) (use D(13) n card in auto)
  have "state_total (retired x bs nd t) choice = state_total s choice - own s x choice + completion s x choice" if v: "valid s choice" for choice
    using objective_retired [OF t _ r(3), of choice nd] s(2) v D(8,12) objective_edge_charged [OF g L(1,2) ne c(2) v] c(3) [OF v]
      edge_charged_third(1) [OF g c(2) live_nodes [OF s(2)]] L(3,4) by auto
  then have "eliminates s x (retired x bs nd t)" using r(2) D by (simp add: eliminates_def)
  with c(1) r(1) that show thesis by simp
qed

subsection \<open>The reduction of a higher degree\<close>

lemma add_row_ok: "length row = length acc \<Longrightarrow> add_row acc row = Inr (map (\<lambda>i. acc ! i + row ! i) [0..<length acc])"
  unfolding add_row_def by (subst update_fold) (auto intro!: nth_equalityI)

lemma RN_cost_ok:
  assumes g: "graph_ok s" and x: "x \<in> live s" and i: "i < ncand s x"
  shows "set adj \<subseteq> nbrs s x \<Longrightarrow> \<exists>v. RN_cost s x adj i c = Inr v"
proof (induction adj arbitrary: c)
  case (Cons a adj)
  have a: "a \<in> nbrs s x" "a \<in> live s" using Cons.prems graph_okD(5) [OF g x] by auto
  obtain M where M: "ltf_matrix s (x, a) = Inr M" "length M = ncand s x" "\<And>row. row \<in> set M \<Longrightarrow> length row = ncand s a"
    using ltf_matrix_ok [OF g live_nodes [OF x] a(1)] by metis
  obtain r where r: "pb_record_cost s a = Some r" "length r = ncand s a" using costs_ok [OF g live_nodes [OF a(2)]] by metis
  have "length (M ! i) = length r" using M(2) M(3) [of "M ! i"] i r(2) by simp
  moreover have "r \<noteq> []" using ncand_pos [OF g live_nodes [OF a(2)]] r(2) by auto
  ultimately show ?case
    using Cons M(1,2) r(1) i by (simp add: RN_cost_def add_row_ok py_min_Min)
qed (simp add: RN_cost_def)

lemma RN_choice_fold:
  assumes g: "graph_ok s" and x: "x \<in> live s" and adj: "set adj \<subseteq> nbrs s x"
  shows "k + length costs \<le> ncand s x \<Longrightarrow> pred_option (\<lambda>i. i < ncand s x) (snd best) \<Longrightarrow>
    \<exists>best'. foldE (RN_choice s x adj) best (enumerate k costs) = Inr best' \<and> pred_option (\<lambda>i. i < ncand s x) (snd best')"
proof (induction costs arbitrary: k best)
  case (Cons c costs)
  obtain v where v: "RN_cost s x adj k c = Inr v" using RN_cost_ok [OF g x _ adj, of k c] Cons.prems(1) by auto
  let ?best = "if v < fst best then (v, Some k) else best"
  have "RN_choice s x adj best (k, c) = Inr ?best" by (simp add: RN_choice_def v split_beta)
  moreover have "\<exists>best'. foldE (RN_choice s x adj) ?best (enumerate (Suc k) costs) = Inr best' \<and> pred_option (\<lambda>i. i < ncand s x) (snd best')"
    using Cons.prems by (intro Cons.IH) auto
  ultimately show ?case by simp
qed simp

definition RN_charge :: "nat \<Rightarrow> nat \<Rightarrow> pbqp \<Rightarrow> nat \<Rightarrow> pbqp res" where
  "RN_charge x k s a = bindE (ltf_matrix s (x, a)) (\<lambda>m. bindE (nthE m k) (\<lambda>row.
     bindE (getE (pb_record_cost s) a) (\<lambda>costs. bindE (add_row costs row) (\<lambda>costs'.
       Inr (s\<lparr>pb_record_cost := (pb_record_cost s)(a \<mapsto> costs')\<rparr>)))))"

lemma RN_charge_recost:
  assumes g: "graph_ok s" and x: "x \<in> live s" and k: "k < ncand s x" and a: "a \<in> nbrs s x"
  shows "RN_charge x k s a = Inr (recost a (ecost s x a k) s)"
proof -
  have L: "a \<in> live s" using graph_okD(5) [OF g x] a by auto
  obtain M where M: "ltf_matrix s (x, a) = Inr M" "length M = ncand s x" "\<And>row. row \<in> set M \<Longrightarrow> length row = ncand s a"
    "\<And>i j. M ! i ! j = ecost s x a i j" using ltf_matrix_ok [OF g live_nodes [OF x] a] by metis
  obtain r where r: "pb_record_cost s a = Some r" "length r = ncand s a" "\<And>i. r ! i = ncost s a i"
    using costs_ok [OF g live_nodes [OF L]] by metis
  have "length (M ! k) = length r" using M(2) M(3) [of "M ! k"] k r(2) by simp
  then show ?thesis using M(1,2,4) r k by (simp add: RN_charge_def add_row_ok recost_def)
qed

lemma RN_charge_fold:
  assumes "graph_ok s" "x \<in> live s" "k < ncand s x" "set adj \<subseteq> nbrs s x"
  shows "\<exists>rc. foldE (RN_charge x k) s adj = Inr (s\<lparr>pb_record_cost := rc\<rparr>) \<and> graph_ok (s\<lparr>pb_record_cost := rc\<rparr>) \<and>
     ncand (s\<lparr>pb_record_cost := rc\<rparr>) = ncand s \<and> (\<forall>n. n \<notin> set adj \<longrightarrow> rc n = pb_record_cost s n)"
  using assms
proof (induction adj arbitrary: s)
  case Nil
  then show ?case by (intro exI [of _ "pb_record_cost s"]) simp
next
  case (Cons a adj)
  let ?t = "recost a (ecost s x a k) s"
  have a: "a \<in> nbrs s x" "a \<in> live s" using Cons.prems(4) graph_okD(5) [OF Cons.prems(1,2)] by auto
  have "graph_ok ?t"
    by (rule recost_ok [OF Cons.prems(1) live_nodes [OF a(2)]])
      (rule ecost_nonneg [OF Cons.prems(1) live_nodes [OF Cons.prems(2)] a(1) Cons.prems(3)])
  then have "\<exists>rc. foldE (RN_charge x k) ?t adj = Inr (?t\<lparr>pb_record_cost := rc\<rparr>) \<and> graph_ok (?t\<lparr>pb_record_cost := rc\<rparr>) \<and>
     ncand (?t\<lparr>pb_record_cost := rc\<rparr>) = ncand ?t \<and> (\<forall>n. n \<notin> set adj \<longrightarrow> rc n = pb_record_cost ?t n)"
    using Cons.prems by (intro Cons.IH) auto
  moreover have "?t\<lparr>pb_record_cost := rc\<rparr> = s\<lparr>pb_record_cost := rc\<rparr>" for rc by (simp add: recost_def)
  ultimately show ?case using RN_charge_recost [OF Cons.prems(1-3) a(1)] by auto
qed

lemma set_alist_update: "set (AList.update k v d) \<subseteq> insert (k, v) (set d)"
  by (induction d) auto

lemma choices_only:
  assumes "graph_ok s" "x \<in> nodes s" "k < ncand s x"
  shows "graph_ok (s\<lparr>pb_optimal := AList.update x k (pb_optimal s), pb_is_optimal := False\<rparr>)" (is "graph_ok ?t")
proof -
  have f: "live ?t = live s" "nodes ?t = nodes s" "nbrs ?t = nbrs s" "ncand ?t = ncand s" "ecost ?t = ecost s" "edges ?t = edges s"
    by (auto simp: live_def nodes_def nbrs_def ncand_def ecost_def edges_def fun_eq_iff)
  have "stack_ok ?t" using graph_okD(2) [OF assms(1)] by (simp add: stack_ok_def f)
  moreover have "choices_ok ?t"
    using graph_okD(3) [OF assms(1)] assms(2,3) set_alist_update [of x k "pb_optimal s"] unfolding choices_ok_def f by auto
  moreover have e: "edge_ok ?t = edge_ok s" by (simp add: fun_eq_iff edge_ok_def f)
  moreover have r: "pb_buckets ?t = pb_buckets s" "pb_node_degree ?t = pb_node_degree s" "pb_adj ?t = pb_adj s"
    "pb_record_cost ?t = pb_record_cost s" "pb_ltf ?t = pb_ltf s" by simp_all
  ultimately show ?thesis using assms(1) unfolding graph_ok_def f e r by blast
qed

lemma RN_retires:
  assumes s: "pb_ok s" "x \<in> live s"
  shows "RN_reduction x s = Inl RuntimeError \<or> (\<exists>s'. RN_reduction x s = Inr s' \<and> retires s x s' \<and> \<not> pb_is_optimal s')"
proof -
  note g = pb_okD(1) [OF s(1)]
  obtain adj where adj: "pb_adj s x = Some adj" "nbrs s x = set adj" using adj_ok [OF g live_nodes [OF s(2)]] by metis
  obtain costs where costs: "pb_record_cost s x = Some costs" "length costs = ncand s x" using costs_ok [OF g live_nodes [OF s(2)]] by metis
  obtain mc best where best: "foldE (RN_choice s x adj) (INVALID_LAYOUT_TIME, None) (enumerate 0 costs) = Inr (mc, best)"
    "pred_option (\<lambda>i. i < ncand s x) best"
    using RN_choice_fold [OF g s(2), of adj 0 costs "(INVALID_LAYOUT_TIME, None)"] adj(2) costs(2) by auto
  show ?thesis
  proof (cases best)
    case None
    then show ?thesis using adj(1) costs(1) best(1) by (simp add: RN_reduction_def)
  next
    case (Some k)
    then have k: "k < ncand s x" using best(2) by simp
    let ?s1 = "s\<lparr>pb_optimal := AList.update x k (pb_optimal s), pb_is_optimal := False\<rparr>"
    have f: "live ?s1 = live s" "nbrs ?s1 = nbrs s" "ncand ?s1 = ncand s" by (auto simp: live_def nbrs_def ncand_def fun_eq_iff)
    have g1: "graph_ok ?s1" by (rule choices_only [OF g live_nodes [OF s(2)] k])
    obtain rc where rc: "foldE (RN_charge x k) ?s1 adj = Inr (?s1\<lparr>pb_record_cost := rc\<rparr>)" "graph_ok (?s1\<lparr>pb_record_cost := rc\<rparr>)"
      "ncand (?s1\<lparr>pb_record_cost := rc\<rparr>) = ncand ?s1" "\<forall>n. n \<notin> set adj \<longrightarrow> rc n = pb_record_cost ?s1 n"
      using RN_charge_fold [OF g1, of x k adj] s(2) k adj(2) f by auto
    let ?t = "?s1\<lparr>pb_record_cost := rc\<rparr>"
    have t: "live ?t = live s" "nbrs ?t = nbrs s" by (auto simp: live_def nbrs_def fun_eq_iff)
    have fr: "frozen s ?t y" if "y \<in> insert x (set (pb_stack s))" for y
    proof -
      have y: "y \<in> nodes s" "y \<notin> set adj"
        using that s(2) adj(2) graph_okD(5) [OF g s(2)] graph_okD(2) [OF g] by (auto simp: nodes_def stack_ok_def)
      then show ?thesis using rc(4) graph_okD(8) [OF g y(1)] by (fastforce simp: frozen_def edge_ok_def)
    qed
    obtain bs nd where r: "retire_node x ?t = Inr (retired x bs nd ?t)" "retires s x (retired x bs nd ?t)"
      by (rule charged_retires [OF s rc(2) _ _ _ _ t(1) _ fr]) (use rc(3) f(3) in \<open>auto simp: t(2) card_Diff1_le\<close>)
    have "RN_reduction x s = bindE (foldE (RN_charge x k) ?s1 adj) (retire_node x)"
      using adj(1) costs(1) best(1) Some by (simp add: RN_reduction_def RN_charge_def [abs_def])
    then show ?thesis using rc(1) r by auto
  qed
qed

subsection \<open>The loop\<close>

lemma in_bucket:
  assumes "pb_ok s" "d < length (pb_buckets s)" "n \<in> set (pb_buckets s ! d)"
  shows "n \<in> live s" "card (nbrs s n) = d"
proof -
  show n: "n \<in> live s" using assms(2,3) by (auto simp: live_iff)
  have "pb_node_degree s n = Some d" using graph_okD(1) [OF pb_okD(1) [OF assms(1)]] assms(2,3) by (simp add: bucketed_def)
  then show "card (nbrs s n) = d" using pb_okD(3) [OF assms(1) n] by simp
qed

lemma in_some_bucket:
  assumes "pb_ok s" "n \<in> live s"
  shows "card (nbrs s n) < length (pb_buckets s)" "n \<in> set (pb_buckets s ! card (nbrs s n))"
  using bucketed_at [OF graph_okD(1) [OF pb_okD(1) [OF assms(1)]] assms(2)] pb_okD(3) [OF assms] by auto

lemma RN_pick:
  assumes "pb_ok s" "3 \<le> pb_max_degree s"
  obtains bs where "mapE (\<lambda>i. nthE (pb_buckets s) i) (rev [3..<pb_max_degree s + 1]) = Inr bs"
    "set (concat bs) = {n \<in> live s. 3 \<le> card (nbrs s n)}"
proof -
  let ?bs = "map (\<lambda>i. pb_buckets s ! i) (rev [3..<pb_max_degree s + 1])"
  have "mapE (\<lambda>i. nthE (pb_buckets s) i) (rev [3..<pb_max_degree s + 1]) = Inr ?bs"
    using pb_okD(2) [OF assms(1)] by (intro mapE_map_Inr) auto
  moreover have "set (concat ?bs) = {n \<in> live s. 3 \<le> card (nbrs s n)}"
  proof (intro set_eqI iffI)
    fix n assume "n \<in> set (concat ?bs)"
    then obtain d where "3 \<le> d" "d \<le> pb_max_degree s" "n \<in> set (pb_buckets s ! d)" by auto
    then show "n \<in> {n \<in> live s. 3 \<le> card (nbrs s n)}" using in_bucket [OF assms(1), of d n] pb_okD(2) [OF assms(1)] by simp
  next
    fix n assume "n \<in> {n \<in> live s. 3 \<le> card (nbrs s n)}"
    then show "n \<in> set (concat ?bs)"
      using in_some_bucket(2) [OF assms(1), of n] pb_okD(4) [OF assms(1), of n] by (force simp del: upt_Suc)
  qed
  ultimately show thesis by (rule that)
qed

text \<open>What a step of the loop can do: eliminate a node, fix the choice of one, stop or raise.\<close>

lemma forward_step_ok:
  assumes s: "pb_ok s"
  shows "(forward_step s = Inr None \<and> (\<forall>n\<in>live s. nbrs s n = {})) \<or>
     (\<exists>x s'. forward_step s = Inr (Some s') \<and> (eliminates s x s' \<or> retires s x s' \<and> \<not> pb_is_optimal s')) \<or>
     forward_step s = Inl RuntimeError"
proof (cases "pb_buckets s ! 1")
  case (Cons x b)
  then have "x \<in> live s" "card (nbrs s x) = 1" using in_bucket [OF s, of 1 x] pb_okD(2) [OF s] by auto
  then obtain s' where "RI_reduction x s = Inr s'" "eliminates s x s'" using RI_eliminates [OF s] by metis
  then show ?thesis using Cons pb_okD(2) [OF s] by (auto simp: forward_step_def)
next
  case Nil
  note b1 = this
  have no1: "card (nbrs s n) \<noteq> 1" if "n \<in> live s" for n using in_some_bucket [OF s that] b1 by auto
  have zero: "nbrs s n = {}" if "card (nbrs s n) = 0" for n using that by simp
  show ?thesis
  proof (cases "2 \<le> pb_max_degree s \<and> pb_buckets s ! 2 \<noteq> []")
    case True
    then obtain x b where b2: "pb_buckets s ! 2 = x # b" by (cases "pb_buckets s ! 2") auto
    then have "x \<in> live s" "card (nbrs s x) = 2" using in_bucket [OF s, of 2 x] pb_okD(2) [OF s] True by auto
    then obtain s' where "RII_reduction x s = Inr s'" "eliminates s x s'" using RII_eliminates [OF s] by metis
    then show ?thesis using b1 b2 True pb_okD(2) [OF s] by (auto simp: forward_step_def)
  next
    case False
    have no2: "card (nbrs s n) \<noteq> 2" if "n \<in> live s" for n
      using in_some_bucket [OF s that] pb_okD(4) [OF s that] False by auto
    show ?thesis
    proof (cases "3 \<le> pb_max_degree s")
      case True
      then obtain bs where bs: "mapE (\<lambda>i. nthE (pb_buckets s) i) (rev [3..<pb_max_degree s + 1]) = Inr bs"
        "set (concat bs) = {n \<in> live s. 3 \<le> card (nbrs s n)}" using RN_pick [OF s] by metis
      have fs: "forward_step s = (case concat bs of n # _ \<Rightarrow> bindE (RN_reduction n s) (\<lambda>s'. Inr (Some s')) | [] \<Rightarrow> Inr None)"
        using b1 False True bs(1) pb_okD(2) [OF s] by (simp add: forward_step_def)
      show ?thesis
      proof (cases "concat bs")
        case Nil
        have "{n \<in> live s. 3 \<le> card (nbrs s n)} = {}" unfolding bs(2) [symmetric] by (simp only: Nil list.set)
        then have no3: "\<not> 3 \<le> card (nbrs s n)" if "n \<in> live s" for n using that by blast
        have "card (nbrs s n) = 0" if "n \<in> live s" for n using no1 [OF that] no2 [OF that] no3 [OF that] by linarith
        then show ?thesis using fs Nil zero by simp
      next
        case (Cons x b)
        then have "x \<in> live s" using bs(2) by auto
        then show ?thesis using fs Cons RN_retires [OF s, of x] by auto
      qed
    next
      case lt: False
      have "card (nbrs s n) = 0" if "n \<in> live s" for n
        using no1 [OF that] no2 [OF that] pb_okD(4) [OF s that] lt by linarith
      then show ?thesis using b1 False lt zero pb_okD(2) [OF s] by (auto simp: forward_step_def)
    qed
  qed
qed

text \<open>A run of the forward pass, as the sequence of its reductions.\<close>

inductive forward_run :: "pbqp \<Rightarrow> pbqp \<Rightarrow> bool" where
  stop: "pb_ok s \<Longrightarrow> \<forall>n\<in>live s. nbrs s n = {} \<Longrightarrow> forward_run s s"
| elim: "eliminates s x s' \<Longrightarrow> forward_run s' t \<Longrightarrow> forward_run s t"
| fix_choice: "retires s x s' \<Longrightarrow> \<not> pb_is_optimal s' \<Longrightarrow> forward_run s' t \<Longrightarrow> forward_run s t"

lemma retires_fewer: "retires s x s' \<Longrightarrow> card (live s') < card (live s)"
  by (simp only: retires_def) (metis card_Diff1_less finite_live)

lemma forward_ends:
  assumes "pb_ok s"
  shows "pbqp_forward s = Some (Inl RuntimeError) \<or> (\<exists>t. pbqp_forward s = Some (Inr t) \<and> forward_run s t)"
  using assms
proof (induction "card (live s)" arbitrary: s rule: less_induct)
  case less
  from forward_step_ok [OF less.prems] show ?case
  proof (elim disjE exE conjE)
    fix x s' assume st: "forward_step s = Inr (Some s')" and e: "eliminates s x s'"
    then have "pb_ok s'" "card (live s') < card (live s)"
      using retires_fewer by (auto simp: eliminates_def retires_def simp del: card_Diff_singleton)
    then show ?thesis using less.hyps [of s'] st forward_run.elim [OF e] by (subst (1 2) pbqp_forward.simps) auto
  next
    fix x s' assume st: "forward_step s = Inr (Some s')" and e: "retires s x s'" "\<not> pb_is_optimal s'"
    then have "pb_ok s'" "card (live s') < card (live s)" using retires_fewer [OF e(1)] by (auto simp: retires_def)
    then show ?thesis using less.hyps [of s'] st forward_run.fix_choice [OF e] by (subst (1 2) pbqp_forward.simps) auto
  qed (use less.prems in \<open>auto simp: pbqp_forward.simps [of s] intro: forward_run.stop\<close>)
qed

end
