(* ===== verification/PBQP_Optimal.thy ===== *)
theory PBQP_Optimal
  imports PBQP_Forward
begin

section \<open>The backward pass and optimality\<close>

text \<open>
  The backward pass chooses the locally best candidate of every node in the reverse order of retirement.
  When no choice was fixed in the forward pass, the result is optimal.
\<close>

subsection \<open>Reductions are eliminations\<close>

definition best_choice :: "pbqp \<Rightarrow> nat \<Rightarrow> (nat \<Rightarrow> nat) \<Rightarrow> bool" where
  "best_choice s x choice \<longleftrightarrow> (\<forall>k<ncand s x. own s x choice \<le> own s x (choice(x := k)))"

definition capped_objective :: "pbqp \<Rightarrow> (nat \<Rightarrow> nat) \<Rightarrow> rat" where
  "capped_objective s = capped INVALID_LAYOUT_TIME (state_total s)"

lemma own_at: "own s x (choice(x := k)) = ncost s x k + (\<Sum>m\<in>nbrs s x. ecost s x m k (if m = x then k else choice m))"
  by (simp add: own_def share_def)

text \<open>What is left of the objective without a node.\<close>

definition rest :: "pbqp \<Rightarrow> nat \<Rightarrow> (nat \<Rightarrow> nat) \<Rightarrow> rat" where
  "rest s x = total_cost (live s - {x}) (\<lambda>n. nbrs s n - {x}) (ncost s) (ecost s)"

lemma objective_rest:
  assumes g: "graph_ok s" and x: "x \<in> live s" and c: "valid s choice"
  shows "state_total s choice = rest s x choice + own s x choice"
proof -
  have c': "choice n < ncand s n" if "n \<in> live s" for n using c that by (simp add: valid_def nodes_def)
  show ?thesis unfolding state_total_def own_def rest_def
  proof (rule total_split)
    show "x \<in> nbrs s n \<longleftrightarrow> n \<in> nbrs s x" if "n \<in> live s" for n using graph_okD(6) [OF g] that x by blast
    show "ecost s n x (choice n) (choice x) = ecost s x n (choice x) (choice n)" if "n \<in> nbrs s x" for n
      using graph_okD(9) [OF g x that, of "choice x" "choice n"] graph_okD(5) [OF g x] that c' x by auto
  qed (use x graph_okD(5) [OF g x] in auto)
qed

lemma rest_same: "rest s x (choice(x := k)) = rest s x choice"
  unfolding rest_def total_cost_def by (intro arg_cong2 [where f = "(+)"] arg_cong2 [where f = "(/)"] sum.cong refl) auto

lemma rest_nonneg:
  assumes g: "graph_ok s" and x: "x \<in> live s" and c: "valid s choice"
  shows "0 \<le> rest s x choice"
  unfolding rest_def
proof (rule total_nonneg)
  have c': "choice n < ncand s n" if "n \<in> live s" for n using c that by (simp add: valid_def nodes_def)
  show "0 \<le> ncost s n (choice n)" if "n \<in> live s - {x}" for n using ncost_nonneg [OF g live_nodes] c' that by auto
  show "0 \<le> ecost s n m (choice n) (choice m)" if "n \<in> live s - {x}" "m \<in> nbrs s n - {x}" for n m
    using ecost_nonneg [OF g live_nodes, of n m] graph_okD(5) [OF g, of n] c' that by blast
qed

lemma retires_valid: "retires s x s' \<Longrightarrow> valid s' = valid s"
proof -
  assume r: "retires s x s'"
  then have "nodes s' = nodes s" by (auto simp: retires_def nodes_def)
  then show ?thesis using r by (simp add: retires_def valid_def fun_eq_iff)
qed

interpretation pbqp_elim: elimination_steps capped_objective valid ncand eliminates best_choice
proof
  fix s x s' c assume e: "eliminates s x s'"
  then have r: "retires s x s'" and g: "graph_ok s" and x: "x \<in> live s" by (auto simp: eliminates_def retires_def pb_ok_def)
  show "valid s' c \<longleftrightarrow> valid s c" using retires_valid [OF r] by simp
  assume v: "valid s c"
  show d: "c x < ncand s x" using v x by (simp add: valid_def nodes_def)
  have f: "state_total s (c(x := k)) = rest s x c + own s x (c(x := k))" if "k < ncand s x" for k
    using objective_rest [OF g x valid_upd [OF v that]] by (simp add: rest_same)
  show "capped_objective s' c = eliminate x (ncand s x) (capped_objective s) c"
    unfolding capped_objective_def
  proof (rule elimination [where own = "own s x" and rest = "rest s x c"])
    show "state_total s' c = rest s x c + min INVALID_LAYOUT_TIME (Min ((\<lambda>k. own s x (c(x := k))) ` {..<ncand s x}))"
      using e v objective_rest [OF g x v] by (simp add: eliminates_def completion_def)
  qed (use f rest_nonneg [OF g x v] d in auto)
  fix k assume b: "best_choice s x c" and k: "k < ncand s x"
  then have "own s x c \<le> own s x (c(x := k))" by (simp add: best_choice_def)
  then show "capped_objective s c \<le> capped_objective s (c(x := k))"
    using f [OF k] objective_rest [OF g x v] by (simp add: capped_objective_def capped_def min_def)
qed

subsection \<open>Along the forward pass\<close>

lemma frozen_own: "frozen s t x \<Longrightarrow> own t x = own s x"
proof -
  assume f: "frozen s t x"
  then have "ncost t x = ncost s x" "nbrs t x = nbrs s x" by (simp_all add: frozen_def ncost_def [abs_def] nbrs_def)
  moreover have "ecost t x m = ecost s x m" if "m \<in> nbrs s x" for m
  proof -
    obtain p where "map_of (pb_ltf s) (x, m) = Some p" "map_of (pb_ltf t) (x, m) = Some p" "pb_mats t ! p = pb_mats s ! p"
      using f \<open>m \<in> nbrs s x\<close> by (auto simp: frozen_def)
    then show ?thesis by (simp add: ecost_def [abs_def])
  qed
  ultimately show "own t x = own s x" by (simp add: own_def share_def [abs_def])
qed

lemma frozen_refl:
  assumes "graph_ok s" "x \<in> nodes s"
  shows "frozen s s x"
  using graph_okD(8) [OF assms] by (fastforce simp: frozen_def edge_ok_def)

lemma run_keeps:
  assumes "forward_run s t"
  shows "pb_ok s \<and> pb_ok t \<and> nodes t = nodes s \<and> ncand t = ncand s \<and> (\<exists>xs. pb_stack t = pb_stack s @ xs) \<and>
     (\<forall>y\<in>set (pb_stack s). frozen s t y) \<and> (pb_is_optimal t \<longrightarrow> pb_is_optimal s) \<and> (\<forall>n\<in>live t. nbrs t n = {})"
  using assms
proof induction
  case (stop s)
  then show ?case using frozen_refl [OF pb_okD(1)] by (auto simp: nodes_def)
next
  case (elim s x s' t)
  then have r: "retires s x s'" by (simp add: eliminates_def)
  then have "frozen s t y" if "y \<in> set (pb_stack s)" for y
    using that elim.IH frozen_trans [of s s' y t] by (auto simp: retires_def)
  then show ?case using elim r by (auto simp: retires_def eliminates_def nodes_def)
next
  case (fix_choice s x s' t)
  then have r: "retires s x s'" by simp
  then have "frozen s t y" if "y \<in> set (pb_stack s)" for y
    using that fix_choice.IH frozen_trans [of s s' y t] by (auto simp: retires_def)
  then show ?case using fix_choice r by (auto simp: retires_def nodes_def)
qed

lemma run_optimal:
  assumes "forward_run s t" "pb_is_optimal t" "valid s c"
    and "\<forall>n\<in>live t. \<forall>k<ncand t n. ncost t n (c n) \<le> ncost t n k"
    and "\<forall>x\<in>set (drop (length (pb_stack s)) (pb_stack t)). best_choice t x c"
  shows "pbqp_elim.optimal_for s c"
  using assms
proof induction
  case (stop s)
  have "state_total s c \<le> state_total s c'" if "valid s c'" for c'
  proof -
    have "state_total s d = (\<Sum>n\<in>live s. ncost s n (d n))" for d using stop.hyps(2) by (simp add: state_total_def total_cost_def)
    then show ?thesis using stop.prems(3) that by (simp add: valid_def nodes_def sum_mono)
  qed
  then have "capped_objective s c \<le> capped_objective s c'" if "valid s c'" for c'
    unfolding capped_objective_def capped_def using that by (intro min.mono order.refl)
  then show ?case unfolding pbqp_elim.optimal_for_def using stop.prems(2) by blast
next
  case (elim s x s' t)
  then have r: "retires s x s'" and st: "pb_stack s' = pb_stack s @ [x]" by (auto simp: eliminates_def retires_def)
  obtain xs where xs: "pb_stack t = pb_stack s @ x # xs" using run_keeps [OF elim.hyps(2)] st by auto
  have "best_choice t y c" if "y \<in> set (drop (length (pb_stack s')) (pb_stack t))" for y
    using that elim.prems(4) by (simp add: xs st)
  then have "pbqp_elim.optimal_for s' c" using elim.prems(1-3) retires_valid [OF r] by (intro elim.IH) auto
  moreover have "best_choice s x c"
  proof -
    have "frozen s' t x" "frozen s s' x" using run_keeps [OF elim.hyps(2)] r st by (auto simp: retires_def)
    then have "own t x = own s x" using frozen_own frozen_trans by blast
    moreover have "best_choice t x c" using elim.prems(4) by (simp add: xs)
    moreover have "ncand t = ncand s" using run_keeps [OF elim.hyps(2)] r by (simp add: retires_def)
    ultimately show ?thesis by (simp add: best_choice_def)
  qed
  ultimately show ?case by (rule pbqp_elim.optimal_before [OF elim.hyps(1)])
next
  case (fix_choice s x s' t)
  then show ?case using run_keeps [OF fix_choice.hyps(3)] by blast
qed

subsection \<open>The backward pass\<close>

lemma py_index_Min:
  assumes "xs \<noteq> []"
  obtains k where "py_min xs = Inr (Min (set xs))" "py_index xs (Min (set xs)) = Inr k" "k < length xs" "\<And>v. v \<in> set xs \<Longrightarrow> xs ! k \<le> v"
proof -
  have "Min (set xs) \<in> set xs" using assms by simp
  then obtain k where "py_index xs (Min (set xs)) = Inr k" using py_index_in by metis
  moreover from py_index_nth [OF this] have "k < length xs" "xs ! k = Min (set xs)" by simp_all
  ultimately show thesis using that py_min_Min [OF assms] by simp
qed

definition chosen :: "pbqp \<Rightarrow> nat \<Rightarrow> nat" where
  "chosen b n = the (map_of (pb_optimal b) n)"

lemma choose_least_ok:
  assumes "costs \<noteq> []"
  obtains k where "choose_least x costs b = Inr (b\<lparr>pb_optimal := AList.update x k (pb_optimal b)\<rparr>)" "k < length costs"
    "\<And>v. v \<in> set costs \<Longrightarrow> costs ! k \<le> v"
proof -
  obtain k where "py_min costs = Inr (Min (set costs))" "py_index costs (Min (set costs)) = Inr k" "k < length costs"
    "\<And>v. v \<in> set costs \<Longrightarrow> costs ! k \<le> v" using py_index_Min [OF assms] by blast
  then show thesis using that by (simp add: choose_least_def)
qed

text \<open>The backward pass changes the lists of neighbours and the choices only.\<close>

definition beside :: "pbqp \<Rightarrow> pbqp \<Rightarrow> bool" where
  "beside t b \<longleftrightarrow> b = t\<lparr>pb_adj := pb_adj b, pb_optimal := pb_optimal b\<rparr>"

lemma besideD:
  assumes "beside t b"
  shows "pb_record_cost b = pb_record_cost t" "pb_ltf b = pb_ltf t" "pb_mats b = pb_mats t" "pb_stack b = pb_stack t"
    "pb_buckets b = pb_buckets t" "pb_is_optimal b = pb_is_optimal t"
  by (subst assms [unfolded beside_def], simp)+

lemma beside_upd: "beside t b \<Longrightarrow> beside t (b\<lparr>pb_adj := f\<rparr>)" "beside t b \<Longrightarrow> beside t (b\<lparr>pb_optimal := d\<rparr>)" "beside t t"
  by (cases t; cases b; simp add: beside_def)+

lemma backward_insert_ok:
  assumes l: "pb_adj b x = Some adj" and adj: "\<And>m. m \<in> set adj \<Longrightarrow> pb_adj b m \<noteq> None"
  obtains f where "backward_insert_node x b = Inr (b\<lparr>pb_adj := f\<rparr>)"
    "\<And>n. n \<notin> set adj \<Longrightarrow> f n = pb_adj b n" "\<And>n. pb_adj b n \<noteq> None \<Longrightarrow> f n \<noteq> None"
proof -
  have "\<exists>f. foldE (\<lambda>s adj_node. bindE (getE (pb_adj s) adj_node) (\<lambda>l.
         Inr (s\<lparr>pb_adj := (pb_adj s)(adj_node \<mapsto> l @ [x])\<rparr>))) b adj = Inr (b\<lparr>pb_adj := f\<rparr>) \<and>
    (\<forall>n. n \<notin> set adj \<longrightarrow> f n = pb_adj b n) \<and> (\<forall>n. pb_adj b n \<noteq> None \<longrightarrow> f n \<noteq> None)"
    using adj
  proof (induction adj arbitrary: b)
    case Nil
    then show ?case by (intro exI [of _ "pb_adj b"]) simp
  next
    case (Cons a adj)
    obtain l where l: "pb_adj b a = Some l" using Cons.prems by fastforce
    let ?b = "b\<lparr>pb_adj := (pb_adj b)(a \<mapsto> l @ [x])\<rparr>"
    have "pb_adj ?b m \<noteq> None" if "m \<in> set adj" for m using Cons.prems that by simp
    from Cons.IH [of ?b, OF this] obtain f where "foldE (\<lambda>s adj_node. bindE (getE (pb_adj s) adj_node) (\<lambda>l.
         Inr (s\<lparr>pb_adj := (pb_adj s)(adj_node \<mapsto> l @ [x])\<rparr>))) ?b adj = Inr (?b\<lparr>pb_adj := f\<rparr>)"
      "\<forall>n. n \<notin> set adj \<longrightarrow> f n = pb_adj ?b n" "\<forall>n. pb_adj ?b n \<noteq> None \<longrightarrow> f n \<noteq> None" by blast
    then show ?case using l by (intro exI [of _ f]) (simp add: fun_upd_def)
  qed
  then show thesis using that l by (auto simp: backward_insert_node_def)
qed

text \<open>The costs that the backward pass compares are the shares of the node.\<close>

lemma backward_costs_ok:
  assumes g: "graph_ok t" and b: "beside t b" and x: "x \<in> nodes t" and adj: "pb_adj b x = pb_adj t x"
    and a: "\<And>m. m \<in> nbrs t x \<Longrightarrow> m \<noteq> x \<and> map_of (pb_optimal b) m = Some (c m) \<and> c m < ncand t m"
  shows "backward_costs b x = Inr (map (\<lambda>k. own t x (c(x := k))) [0..<ncand t x])"
proof -
  obtain l where l: "pb_adj t x = Some l" "distinct l" "nbrs t x = set l" using adj_ok [OF g x] by metis
  obtain r where r: "pb_record_cost t x = Some r" "length r = ncand t x" "\<And>i. r ! i = ncost t x i" using costs_ok [OF g x] by metis
  have fold: "foldE (\<lambda>costs adj_node.
           bindE (getE (map_of (pb_optimal b)) adj_node) (\<lambda>adj_optimal_idx.
             mapE (\<lambda>(i, c).
                 bindE (ltf_matrix b (x, adj_node)) (\<lambda>m. bindE (nthE m i) (\<lambda>row.
                 bindE (nthE row adj_optimal_idx) (\<lambda>v. Inr (c + v)))))
               (enumerate 0 costs))) costs ms =
      Inr (map (\<lambda>k. costs ! k + sum_list (map (\<lambda>m. ecost t x m k (c m)) ms)) [0..<ncand t x])"
    if "set ms \<subseteq> nbrs t x" "length costs = ncand t x" for ms costs
    using that
  proof (induction ms arbitrary: costs)
    case Nil
    then show ?case using map_nth [of costs] by simp
  next
    case (Cons m ms)
    obtain M where M: "ltf_matrix t (x, m) = Inr M" "length M = ncand t x" "\<And>row. row \<in> set M \<Longrightarrow> length row = ncand t m"
      "\<And>i j. M ! i ! j = ecost t x m i j" using ltf_matrix_ok [OF g x, of m] Cons.prems(1) by auto
    have m: "map_of (pb_optimal b) m = Some (c m)" "c m < ncand t m" using a [of m] Cons.prems(1) by auto
    have ltf: "ltf_matrix b (x, m) = Inr M" using M(1) by (simp add: ltf_matrix_def besideD [OF b])
    have "mapE (\<lambda>(i, v). bindE (ltf_matrix b (x, m)) (\<lambda>m'. bindE (nthE m' i) (\<lambda>row.
                 bindE (nthE row (c m)) (\<lambda>v'. Inr (v + v'))))) (enumerate 0 costs) =
        Inr (map (\<lambda>(i, v). v + ecost t x m i (c m)) (enumerate 0 costs))"
      using M(2,3,4) m(2) Cons.prems(2) by (intro mapE_map_Inr) (auto simp: ltf in_set_enumerate_eq)
    then show ?case using Cons.IH [of "map (\<lambda>(i, v). v + ecost t x m i (c m)) (enumerate 0 costs)"] Cons.prems m(1)
      by (simp add: map_enumerate_nth add.assoc cong: map_cong)
  qed
  have "own t x (c(x := k)) = r ! k + sum_list (map (\<lambda>m. ecost t x m k (c m)) l)" for k
  proof -
    have "own t x (c(x := k)) = ncost t x k + (\<Sum>m\<in>set l. ecost t x m k (c m))"
      unfolding own_at l(3) using a l(3) by (intro arg_cong2 [where f = "(+)"] sum.cong) auto
    then show ?thesis using l(2) r(3) by (simp add: sum_list_distinct_conv_sum_set)
  qed
  then show ?thesis using fold [of l r] l r adj by (simp add: backward_costs_def besideD [OF b])
qed

definition assigned :: "pbqp \<Rightarrow> pbqp \<Rightarrow> nat set \<Rightarrow> bool" where
  "assigned t b A \<longleftrightarrow> (\<forall>n\<in>A. \<exists>k. map_of (pb_optimal b) n = Some k \<and> k < ncand t n)"

lemma best_choice_cong:
  assumes "c x = d x" "\<And>m. m \<in> nbrs t x \<Longrightarrow> c m = d m" "x \<notin> nbrs t x"
  shows "best_choice t x c = best_choice t x d"
proof -
  have "own t x (c(x := k)) = own t x (d(x := k))" for k
    unfolding own_at using assms(2,3) by (intro arg_cong2 [where f = "(+)"] sum.cong) auto
  moreover have "own t x e = own t x (e(x := e x))" for e by simp
  ultimately show ?thesis unfolding best_choice_def using assms(1) by metis
qed

lemma backward_node_ok:
  assumes g: "graph_ok t" and b: "beside t b" and x: "x \<in> nodes t" "pb_adj b x = pb_adj t x" "x \<notin> nbrs t x"
    and a: "\<And>n. n \<in> nodes t \<Longrightarrow> pb_adj b n \<noteq> None" "nbrs t x \<subseteq> nodes t" "assigned t b (nbrs t x)"
    and old: "\<And>k. map_of (pb_optimal b) x = Some k \<Longrightarrow> k < ncand t x"
  obtains b' where "backward_node b x = Inr b'" "beside t b'" "\<And>n. n \<notin> nbrs t x \<Longrightarrow> pb_adj b' n = pb_adj b n"
    "\<And>n. n \<in> nodes t \<Longrightarrow> pb_adj b' n \<noteq> None" "\<And>n. n \<noteq> x \<Longrightarrow> map_of (pb_optimal b') n = map_of (pb_optimal b) n"
    "assigned t b' {x}" "map_of (pb_optimal b) x = None \<Longrightarrow> best_choice t x (chosen b')"
proof -
  obtain l where l: "pb_adj t x = Some l" "nbrs t x = set l" using adj_ok [OF g x(1)] by metis
  have "pb_adj b m \<noteq> None" if "m \<in> set l" for m using that a(1,2) l(2) by blast
  from backward_insert_ok [of b x l, OF _ this] obtain f where f: "backward_insert_node x b = Inr (b\<lparr>pb_adj := f\<rparr>)"
    "\<And>n. n \<notin> nbrs t x \<Longrightarrow> f n = pb_adj b n" "\<And>n. pb_adj b n \<noteq> None \<Longrightarrow> f n \<noteq> None"
    using l x(2) by metis
  let ?b = "b\<lparr>pb_adj := f\<rparr>"
  have b': "beside t ?b" by (rule beside_upd(1) [OF b])
  show thesis
  proof (cases "map_of (pb_optimal b) x")
    case (Some k)
    then have "x \<in> fst ` set (pb_optimal b)" by (metis domI dom_map_of_conv_image_fst)
    then have "backward_node b x = Inr ?b" using f(1) by (simp add: backward_node_def)
    then show ?thesis using that [of ?b] b' f(2,3) a(1) Some old by (simp add: assigned_def)
  next
    case None
    then have "x \<notin> fst ` set (pb_optimal b)" by (metis map_of_eq_None_iff)
    let ?cs = "map (\<lambda>k. own t x ((chosen b)(x := k))) [0..<ncand t x]"
    have "?cs \<noteq> []" using ncand_pos [OF g x(1)] by simp
    from choose_least_ok [OF this, of x ?b] obtain k where
      k0: "choose_least x ?cs ?b = Inr (?b\<lparr>pb_optimal := AList.update x k (pb_optimal ?b)\<rparr>)" "k < length ?cs"
      "\<And>v. v \<in> set ?cs \<Longrightarrow> ?cs ! k \<le> v" by blast
    have k: "own t x ((chosen b)(x := k)) \<le> own t x ((chosen b)(x := i))" if "i < ncand t x" for i
      using k0(2) k0(3) [of "?cs ! i"] that by simp
    have "backward_costs ?b x = Inr (map (\<lambda>k. own t x ((chosen b)(x := k))) [0..<ncand t x])"
      using f(2) x a(3) by (intro backward_costs_ok [OF g b']) (auto simp: assigned_def chosen_def)
    then have r: "backward_node b x = Inr (?b\<lparr>pb_optimal := AList.update x k (pb_optimal b)\<rparr>)" (is "_ = Inr ?c")
      using f(1) k0(1) \<open>x \<notin> fst ` set (pb_optimal b)\<close> by (simp add: backward_node_def)
    have c: "chosen ?c = (chosen b)(x := k)" by (auto simp: chosen_def update_conv)
    have "best_choice t x (chosen ?c)" unfolding c best_choice_def using k by simp
    moreover have "beside t ?c" by (rule beside_upd(2) [OF b'])
    ultimately show ?thesis using that [of ?c] r f(2,3) a(1) k0(2) by (simp add: assigned_def update_conv)
  qed
qed

lemma stack_nbrs:
  assumes "graph_ok t" "pb_stack t = pre @ x # post"
  shows "nbrs t x \<subseteq> live t \<union> set post" "x \<in> nodes t" "x \<notin> live t" "x \<notin> set pre" "x \<notin> set post" "set pre \<inter> (live t \<union> set post) = {}"
proof -
  have st: "stack_ok t" by (rule graph_okD(2) [OF assms(1)])
  have "nbrs t (pb_stack t ! length pre) \<subseteq> live t \<union> set (drop (Suc (length pre)) (pb_stack t))"
    using st assms(2) unfolding stack_ok_def by (metis add_Suc_right less_add_Suc1 length_Cons length_append)
  then show "nbrs t x \<subseteq> live t \<union> set post" by (simp add: assms(2))
  show "x \<in> nodes t" "x \<notin> live t" "x \<notin> set pre" "x \<notin> set post" "set pre \<inter> (live t \<union> set post) = {}"
    using st assms(2) by (auto simp: stack_ok_def nodes_def)
qed

lemma backward_fold:
  assumes "graph_ok t" "pb_stack t = pre @ post" "beside t b" "\<forall>y\<in>set pre. pb_adj b y = pb_adj t y"
    and "\<forall>n\<in>nodes t. pb_adj b n \<noteq> None" "assigned t b (live t \<union> set post)"
    and "\<forall>y\<in>set pre. \<forall>k. map_of (pb_optimal b) y = Some k \<longrightarrow> k < ncand t y"
  shows "\<exists>b'. foldE backward_node b (rev pre) = Inr b' \<and> beside t b' \<and> assigned t b' (nodes t) \<and>
     (\<forall>n\<in>live t \<union> set post. map_of (pb_optimal b') n = map_of (pb_optimal b) n) \<and>
     (\<forall>x\<in>set pre. map_of (pb_optimal b) x = None \<longrightarrow> best_choice t x (chosen b'))"
  using assms(2-)
proof (induction pre arbitrary: b post rule: rev_induct)
  case Nil
  then show ?case by (simp add: nodes_def)
next
  case (snoc x pre)
  have st: "pb_stack t = pre @ x # post" using snoc.prems(1) by simp
  note x = stack_nbrs [OF assms(1) st]
  have "nbrs t x \<subseteq> nodes t" using x(1) st by (auto simp: nodes_def)
  moreover have "assigned t b (nbrs t x)" using snoc.prems(5) x(1) by (auto simp: assigned_def)
  moreover have xx: "x \<notin> nbrs t x" using x by auto
  ultimately obtain b1 where b1: "backward_node b x = Inr b1" "beside t b1" "\<And>n. n \<notin> nbrs t x \<Longrightarrow> pb_adj b1 n = pb_adj b n"
    "\<And>n. n \<in> nodes t \<Longrightarrow> pb_adj b1 n \<noteq> None" "\<And>n. n \<noteq> x \<Longrightarrow> map_of (pb_optimal b1) n = map_of (pb_optimal b) n"
    "assigned t b1 {x}" "map_of (pb_optimal b) x = None \<Longrightarrow> best_choice t x (chosen b1)"
    using backward_node_ok [OF assms(1) snoc.prems(2) x(2)] snoc.prems(3,4,6) by auto
  have pre: "y \<notin> nbrs t x" "y \<noteq> x" if "y \<in> set pre" for y using that x by auto
  have "assigned t b1 (live t \<union> set (x # post))"
    using snoc.prems(5) b1(5,6) x(3,5) unfolding assigned_def by (metis Un_iff insert_iff list.simps(15) singletonI)
  then obtain b' where b': "foldE backward_node b1 (rev pre) = Inr b'" "beside t b'" "assigned t b' (nodes t)"
    "\<forall>n\<in>live t \<union> set (x # post). map_of (pb_optimal b') n = map_of (pb_optimal b1) n"
    "\<forall>y\<in>set pre. map_of (pb_optimal b1) y = None \<longrightarrow> best_choice t y (chosen b')"
    using snoc.IH [of "x # post" b1] st b1(2-5) snoc.prems(3,6) pre by auto
  have "best_choice t x (chosen b')" if "map_of (pb_optimal b) x = None"
  proof -
    have "chosen b' n = chosen b1 n" if "n \<in> insert x (nbrs t x)" for n using that b'(4) x(1) by (auto simp: chosen_def)
    then show ?thesis using best_choice_cong [of "chosen b'" x "chosen b1" t] b1(7) [OF that] xx by blast
  qed
  then have "\<forall>y\<in>set (pre @ [x]). map_of (pb_optimal b) y = None \<longrightarrow> best_choice t y (chosen b')"
    using b'(5) b1(5) pre by auto
  moreover have "\<forall>n\<in>live t \<union> set post. map_of (pb_optimal b') n = map_of (pb_optimal b) n"
    using b'(4) b1(5) x(3,5) by fastforce
  ultimately show ?case using b1(1) b'(1-3) by auto
qed

lemma base_fold:
  assumes g: "graph_ok t" and "set ns \<subseteq> nodes t" "beside t b"
  shows "\<exists>b'. foldE (\<lambda>s n. bindE (getE (pb_record_cost s) n) (\<lambda>costs. choose_least n costs s)) b ns = Inr b' \<and>
     beside t b' \<and> pb_adj b' = pb_adj b \<and> assigned t b' (set ns) \<and>
     (\<forall>n\<in>set ns. \<forall>k<ncand t n. ncost t n (chosen b' n) \<le> ncost t n k) \<and>
     (\<forall>n. n \<notin> set ns \<longrightarrow> map_of (pb_optimal b') n = map_of (pb_optimal b) n)"
  using assms(2-)
proof (induction ns arbitrary: b rule: rev_induct)
  case Nil
  then show ?case by (simp add: assigned_def)
next
  case (snoc n ns)
  then obtain b1 where b1: "foldE (\<lambda>s n. bindE (getE (pb_record_cost s) n) (\<lambda>costs. choose_least n costs s)) b ns = Inr b1"
     "beside t b1" "pb_adj b1 = pb_adj b" "assigned t b1 (set ns)"
     "\<forall>n\<in>set ns. \<forall>k<ncand t n. ncost t n (chosen b1 n) \<le> ncost t n k"
     "\<forall>n. n \<notin> set ns \<longrightarrow> map_of (pb_optimal b1) n = map_of (pb_optimal b) n" by force
  have n: "n \<in> nodes t" using snoc.prems(1) by simp
  obtain r where r: "pb_record_cost t n = Some r" "length r = ncand t n" "\<And>i. r ! i = ncost t n i" using costs_ok [OF g n] by metis
  have "r \<noteq> []" using ncand_pos [OF g n] r(2) by auto
  from choose_least_ok [OF this, of n b1] obtain k where k: "choose_least n r b1 = Inr (b1\<lparr>pb_optimal := AList.update n k (pb_optimal b1)\<rparr>)"
    "k < length r" "\<And>v. v \<in> set r \<Longrightarrow> r ! k \<le> v" by blast
  have least: "ncost t n k \<le> ncost t n i" if "i < ncand t n" for i using k(3) [of "r ! i"] nth_mem [of i r] that r(2,3) by simp
  let ?b = "b1\<lparr>pb_optimal := AList.update n k (pb_optimal b1)\<rparr>"
  have "chosen ?b m = (if m = n then k else chosen b1 m)" for m by (simp add: chosen_def update_conv)
  then have "\<forall>m\<in>set (ns @ [n]). \<forall>i<ncand t m. ncost t m (chosen ?b m) \<le> ncost t m i" using least b1(5) by auto
  moreover have "assigned t ?b (set (ns @ [n]))" using b1(4) k(2) r(2) by (auto simp: assigned_def update_conv)
  moreover have "\<forall>m. m \<notin> set (ns @ [n]) \<longrightarrow> map_of (pb_optimal ?b) m = map_of (pb_optimal b) m" using b1(6) by (simp add: update_conv)
  moreover have "foldE (\<lambda>s n. bindE (getE (pb_record_cost s) n) (\<lambda>costs. choose_least n costs s)) b (ns @ [n]) = Inr ?b"
    using b1(1) k(1) r(1) besideD(1) [OF b1(2)] by (simp add: foldE_append)
  ultimately show ?case using beside_upd(2) [OF b1(2)] b1(3) by (intro exI [of _ ?b]) simp
qed

lemma backward_ok:
  assumes t: "pb_ok t" and e: "\<forall>n\<in>live t. nbrs t n = {}"
  obtains b where "pbqp_backward t = Inr b" "beside t b" "assigned t b (nodes t)"
    "\<forall>n\<in>live t. \<forall>k<ncand t n. ncost t n (chosen b n) \<le> ncost t n k"
    "\<forall>x\<in>set (pb_stack t). map_of (pb_optimal t) x = None \<longrightarrow> best_choice t x (chosen b)"
proof -
  note g = pb_okD(1) [OF t]
  have len: "0 < length (pb_buckets t)" using pb_okD(2) [OF t] by simp
  have b0: "set (pb_buckets t ! 0) = live t"
  proof (intro set_eqI iffI)
    show "n \<in> live t" if "n \<in> set (pb_buckets t ! 0)" for n using in_bucket(1) [OF t len that] .
    show "n \<in> set (pb_buckets t ! 0)" if "n \<in> live t" for n using in_some_bucket(2) [OF t that] e that by simp
  qed
  obtain b1 where b1: "foldE (\<lambda>s n. bindE (getE (pb_record_cost s) n) (\<lambda>costs. choose_least n costs s)) t (pb_buckets t ! 0) = Inr b1"
    "beside t b1" "pb_adj b1 = pb_adj t" "assigned t b1 (live t)" "\<forall>n\<in>live t. \<forall>k<ncand t n. ncost t n (chosen b1 n) \<le> ncost t n k"
    "\<forall>n. n \<notin> live t \<longrightarrow> map_of (pb_optimal b1) n = map_of (pb_optimal t) n"
    using base_fold [OF g, of "pb_buckets t ! 0" t] beside_upd(3) b0 by (auto simp: nodes_def)
  have st: "set (pb_stack t) \<inter> live t = {}" using graph_okD(2) [OF g] by (auto simp: stack_ok_def)
  have old: "k < ncand t y" if "y \<in> set (pb_stack t)" "map_of (pb_optimal b1) y = Some k" for y k
    using that st b1(6) graph_okD(3) [OF g] map_of_SomeD [of "pb_optimal t" y k] by (fastforce simp: choices_ok_def)
  have ad: "\<forall>n\<in>nodes t. pb_adj b1 n \<noteq> None" using graph_okD(4) [OF g] b1(3) by fastforce
  have "\<exists>b. foldE backward_node b1 (rev (pb_stack t)) = Inr b \<and> beside t b \<and> assigned t b (nodes t) \<and>
     (\<forall>n\<in>live t \<union> set []. map_of (pb_optimal b) n = map_of (pb_optimal b1) n) \<and>
     (\<forall>x\<in>set (pb_stack t). map_of (pb_optimal b1) x = None \<longrightarrow> best_choice t x (chosen b))"
    using g b1(2,3,4) ad old by (intro backward_fold) auto
  then obtain b where b: "foldE backward_node b1 (rev (pb_stack t)) = Inr b" "beside t b" "assigned t b (nodes t)"
    "\<forall>n\<in>live t. map_of (pb_optimal b) n = map_of (pb_optimal b1) n"
    "\<forall>x\<in>set (pb_stack t). map_of (pb_optimal b1) x = None \<longrightarrow> best_choice t x (chosen b)" by auto
  have "pbqp_backward t = Inr b" using len b1(1) b(1) besideD(4) [OF b1(2)] by (simp add: pbqp_backward_def)
  moreover have "\<forall>n\<in>live t. \<forall>k<ncand t n. ncost t n (chosen b n) \<le> ncost t n k" using b1(5) b(4) by (simp add: chosen_def)
  moreover have "\<forall>x\<in>set (pb_stack t). map_of (pb_optimal t) x = None \<longrightarrow> best_choice t x (chosen b)"
    using b(5) b1(6) st by fastforce
  ultimately show thesis using that b(2,3) by blast
qed

subsection \<open>The solver\<close>

lemma solve_result:
  assumes s: "pb_ok s" "pb_stack s = []"
  shows "pbqp_solve s = Some (Inl RuntimeError) \<or>
     (\<exists>b. pbqp_solve s = Some (Inr b) \<and> assigned s b (nodes s) \<and> (pb_is_optimal b \<longrightarrow> pbqp_elim.optimal_for s (chosen b)))"
  using forward_ends [OF s(1)]
proof (elim disjE exE conjE)
  fix t assume f: "pbqp_forward s = Some (Inr t)" and r: "forward_run s t"
  note k = run_keeps [OF r]
  then have t: "pb_ok t" "\<forall>n\<in>live t. nbrs t n = {}" "nodes t = nodes s" "ncand t = ncand s" by auto
  obtain b where b: "pbqp_backward t = Inr b" "beside t b" "assigned t b (nodes t)"
    "\<forall>n\<in>live t. \<forall>k<ncand t n. ncost t n (chosen b n) \<le> ncost t n k"
    "\<forall>x\<in>set (pb_stack t). map_of (pb_optimal t) x = None \<longrightarrow> best_choice t x (chosen b)"
    using backward_ok [OF t(1,2)] by metis
  have a: "assigned s b (nodes s)" using b(3) t(3,4) by (simp add: assigned_def)
  have "pbqp_elim.optimal_for s (chosen b)" if "pb_is_optimal b"
  proof (rule run_optimal [OF r])
    show o: "pb_is_optimal t" using that besideD(6) [OF b(2)] by simp
    then have "pb_optimal t = []" using graph_okD(3) [OF pb_okD(1) [OF t(1)]] by (simp add: choices_ok_def)
    then show "\<forall>x\<in>set (drop (length (pb_stack s)) (pb_stack t)). best_choice t x (chosen b)" using b(5) s(2) by simp
    show "valid s (chosen b)" using a by (auto simp: valid_def assigned_def chosen_def)
  qed (rule b(4))
  then show ?thesis using f b(1) a by (simp add: pbqp_solve_def)
qed (simp add: pbqp_solve_def)

end
