(* ===== verification/Graph_Props.thy ===== *)
theory Graph_Props
  imports Graph_Tuner
begin

section \<open>Inputs, outputs, ancestors and candidates\<close>

text \<open>
  What the dictionaries of the graph tuner hold: the outputs are the converse of the inputs, the memoised
  search returns exactly the closest tunable ancestors, and the candidates of a node are its fastest layouts.
\<close>

subsection \<open>Outputs\<close>

definition add_out :: "nat \<Rightarrow> nat \<Rightarrow> (nat, nat list) dict \<Rightarrow> (nat, nat list) dict" where
  "add_out key item out = (case map_of out item of
       Some outs \<Rightarrow> AList.update item (outs @ [key]) out | None \<Rightarrow> out @ [(item, [key])])"

lemma get_out_nodes_add:
  "get_out_nodes ins = fold (\<lambda>(key, val). fold (add_out key) val) ins (map (\<lambda>(key, val). (key, [])) ins)"
  by (simp add: get_out_nodes_def add_out_def [abs_def])

definition outs_at :: "(nat, nat list) dict \<Rightarrow> nat \<Rightarrow> nat list" where
  "outs_at out n = (case map_of out n of None \<Rightarrow> [] | Some l \<Rightarrow> l)"

lemma outs_at_add_out: "outs_at (add_out key item out) n = outs_at out n @ (if n = item then [key] else [])"
  by (auto simp: outs_at_def add_out_def update_conv map_of_append map_add_def split: option.splits)

lemma dom_add_out: "dom (map_of (add_out key item out)) = insert item (dom (map_of out))"
  by (auto simp: add_out_def update_conv map_add_def split: option.splits)

lemma outs_at_inner: "outs_at (fold (add_out key) val out) n = outs_at out n @ replicate (count_list val n) key"
  by (induction val arbitrary: out) (auto simp: outs_at_add_out replicate_append_same [symmetric])

lemma dom_inner: "dom (map_of (fold (add_out key) val out)) = set val \<union> dom (map_of out)"
  by (induction val arbitrary: out) (simp_all add: dom_add_out)

definition consumers :: "(nat, nat list) dict \<Rightarrow> nat \<Rightarrow> nat list" where
  "consumers ins n = concat (map (\<lambda>(key, val). replicate (count_list val n) key) ins)"

lemma outs_at_outer: "outs_at (fold (\<lambda>(key, val). fold (add_out key) val) ins out) n = outs_at out n @ consumers ins n"
  by (induction ins arbitrary: out) (auto simp: outs_at_inner consumers_def)

lemma dom_outer:
  "dom (map_of (fold (\<lambda>(key, val). fold (add_out key) val) ins out)) = (\<Union>(key, val)\<in>set ins. set val) \<union> dom (map_of out)"
proof (induction ins arbitrary: out)
  case (Cons p ins)
  then show ?case by (cases p) (simp add: dom_inner Un_ac)
qed simp

lemma get_out_nodes_at:
  "map_of (get_out_nodes ins) n =
     (if n \<in> fst ` set ins \<or> (\<exists>(key, val)\<in>set ins. n \<in> set val) then Some (consumers ins n) else None)"
proof -
  let ?init = "map (\<lambda>(key, val). (key, [] :: nat list)) ins"
  have i: "map_of ?init n = (if n \<in> fst ` set ins then Some [] else None)" by (induction ins) auto
  have "outs_at (get_out_nodes ins) n = consumers ins n"
    unfolding get_out_nodes_add outs_at_outer by (simp add: outs_at_def i)
  moreover have "n \<in> dom (map_of (get_out_nodes ins)) \<longleftrightarrow> (\<exists>(key, val)\<in>set ins. n \<in> set val) \<or> n \<in> dom (map_of ?init)"
    unfolding get_out_nodes_add dom_outer by auto
  ultimately show ?thesis by (cases "map_of (get_out_nodes ins) n") (auto simp: outs_at_def i dom_def split: if_splits)
qed

subsection \<open>Ancestors\<close>

text \<open>The nodes of an expression are listed in post-order: inputs come first.\<close>

definition ordered :: "'a gnode_scheme list \<Rightarrow> bool" where
  "ordered nl \<longleftrightarrow> (\<forall>i<length nl. \<forall>(j, _)\<in>set (gn_inputs (nl ! i)). j < i)"

lemma orderedD: "ordered nl \<Longrightarrow> i < length nl \<Longrightarrow> (j, u) \<in> set (gn_inputs (nl ! i)) \<Longrightarrow> j < i"
  by (force simp: ordered_def)

text \<open>The depth of the recursion does not matter once it exceeds the index.\<close>

lemma has_multiple_inputs_total:
  assumes "ordered nl"
  shows "i < length nl \<Longrightarrow> \<exists>b. \<forall>depth>i. has_multiple_inputs depth nl i names ops = Inr b"
proof (induction i rule: less_induct)
  case (less i)
  have "\<exists>b. \<forall>depth>t. has_multiple_inputs depth nl t names ops = Inr b" if "t < i" for t
    using less that by simp
  then obtain h where h: "\<And>t depth. t < i \<Longrightarrow> t < depth \<Longrightarrow> has_multiple_inputs depth nl t names ops = Inr (h t)" by metis
  define count where "count num in_idx = (case gn_op (nl ! in_idx) of
      Some op \<Rightarrow> if op \<in> set ops then
          (if last (False # map (\<lambda>(t, _). h t) (gn_inputs (nl ! in_idx))) then num + 1 else num) else num + 1
    | None \<Rightarrow> if in_list (gn_name (nl ! in_idx)) names then num + 1 else num)" for num :: nat and in_idx
  have inner: "foldE (\<lambda>increase (t, _). has_multiple_inputs depth nl t names ops) inc xs = Inr (last (inc # map (\<lambda>(t, _). h t) xs))"
    if "\<forall>(t, _)\<in>set xs. t < i \<and> t < depth" for depth inc xs
    using that by (induction xs arbitrary: inc) (auto simp: h)
  have "has_multiple_inputs depth nl i names ops = Inr (fold (\<lambda>(j, _) num. count num j) (gn_inputs (nl ! i)) 0 > 1)" if d: "i < depth" for depth
  proof -
    obtain d' where d': "depth = Suc d'" "i \<le> d'" using d by (cases depth) auto
    have "foldE (\<lambda>num_inputs (in_idx, _).
         bindE (nthE nl in_idx) (\<lambda>in_node.
           case gn_op in_node of
             Some op \<Rightarrow>
               if op \<in> set ops then
                 bindE (foldE (\<lambda>increase (t_idx, _). has_multiple_inputs d' nl t_idx names ops) False (gn_inputs in_node))
                   (\<lambda>increase. Inr (if increase then num_inputs + 1 else num_inputs))
               else Inr (num_inputs + 1)
           | None \<Rightarrow> Inr (if in_list (gn_name in_node) names then num_inputs + 1 else num_inputs))) (n :: nat) xs =
        Inr (fold (\<lambda>(j, _) num. count num j) xs n)" if "set xs \<subseteq> set (gn_inputs (nl ! i))" for n xs
      using that
    proof (induction xs arbitrary: n)
      case (Cons x xs)
      obtain j u where x: "x = (j, u)" by (cases x)
      have j: "j < i" using orderedD [OF assms less.prems, of j u] Cons.prems x by auto
      have "\<forall>(t, _)\<in>set (gn_inputs (nl ! j)). t < i \<and> t < d'"
        using orderedD [OF assms, of j] j less.prems d'(2) by fastforce
      note in1 = inner [OF this]
      show ?case using Cons j less.prems by (auto simp: x count_def in1 split: option.splits)
    qed simp
    then show ?thesis using less.prems d'(1) by simp
  qed
  then show ?case by blast
qed

definition is_multi :: "'a gnode_scheme list \<Rightarrow> string list \<Rightarrow> nat \<Rightarrow> bool" where
  "is_multi nl names i \<longleftrightarrow> has_multiple_inputs (Suc i) nl i names OPT_OUT_OP = Inr True"

lemma has_multiple_inputs_is_multi:
  assumes "ordered nl" "i < length nl" "i < depth"
  shows "has_multiple_inputs depth nl i names OPT_OUT_OP = Inr (is_multi nl names i)"
proof -
  obtain b where "\<forall>depth>i. has_multiple_inputs depth nl i names OPT_OUT_OP = Inr b"
    using has_multiple_inputs_total [OF assms(1,2)] by blast
  then show ?thesis using assms(3) by (simp add: is_multi_def del: has_multiple_inputs.simps)
qed

text \<open>
  The closest ancestors of a node: the ends of the paths back through nodes that are neither tunable nor
  boundary nodes.
\<close>

definition is_stop :: "'a gnode_scheme list \<Rightarrow> string list \<Rightarrow> string list \<Rightarrow> nat \<Rightarrow> bool" where
  "is_stop nl target_ops names j \<longleftrightarrow> in_list (gn_op (nl ! j)) target_ops \<or> is_multi nl names j"

inductive closest :: "'a gnode_scheme list \<Rightarrow> string list \<Rightarrow> string list \<Rightarrow> nat \<Rightarrow> nat \<Rightarrow> bool"
  for nl target_ops names where
  boundary: "is_boundary_node (nl ! i) names \<Longrightarrow> closest nl target_ops names i i"
| direct: "\<not> is_boundary_node (nl ! i) names \<Longrightarrow> (j, u) \<in> set (gn_inputs (nl ! i)) \<Longrightarrow> is_stop nl target_ops names j \<Longrightarrow>
           closest nl target_ops names j i"
| through: "\<not> is_boundary_node (nl ! i) names \<Longrightarrow> (j, u) \<in> set (gn_inputs (nl ! i)) \<Longrightarrow> \<not> is_stop nl target_ops names j \<Longrightarrow>
           closest nl target_ops names a j \<Longrightarrow> closest nl target_ops names a i"

inductive_cases closestE: "closest nl target_ops names a i"

lemma closest_boundary: "is_boundary_node (nl ! i) names \<Longrightarrow> closest nl target_ops names a i \<longleftrightarrow> a = i"
  by (auto elim: closestE intro: closest.boundary)

lemma closest_inner:
  "\<not> is_boundary_node (nl ! i) names \<Longrightarrow> {a. closest nl target_ops names a i} =
     (\<Union>(j, u)\<in>set (gn_inputs (nl ! i)). if is_stop nl target_ops names j then {j} else {a. closest nl target_ops names a j})"
  (is "_ \<Longrightarrow> _ = ?R")
proof (intro set_eqI iffI)
  fix a assume b: "\<not> is_boundary_node (nl ! i) names"
  show "a \<in> ?R" if "a \<in> {a. closest nl target_ops names a i}"
    using that [simplified] by (cases rule: closest.cases) (use b in force)+
  show "a \<in> {a. closest nl target_ops names a i}" if "a \<in> ?R"
    using that b by (auto intro: closest.direct closest.through split: if_splits)
qed

definition memo_ok :: "'a gnode_scheme list \<Rightarrow> string list \<Rightarrow> string list \<Rightarrow> (nat, nat list) dict \<Rightarrow> bool" where
  "memo_ok nl target_ops names visited \<longleftrightarrow>
     (\<forall>k v. map_of visited k = Some v \<longrightarrow> set v = {a. closest nl target_ops names a k})"

definition ancestor_step :: "nat \<Rightarrow> 'a gnode_scheme list \<Rightarrow> string list \<Rightarrow> string list \<Rightarrow>
    nat list \<times> (nat, nat list) dict \<Rightarrow> nat \<times> nat \<times> nat \<Rightarrow> (nat list \<times> (nat, nat list) dict) res" where
  "ancestor_step d nl target_ops names = (\<lambda>(ancestors, vis) (item_idx, _).
     bindE (nthE nl item_idx) (\<lambda>item.
     bindE (has_multiple_inputs d nl item_idx names OPT_OUT_OP) (\<lambda>multi.
       if in_list (gn_op item) target_ops \<or> multi then Inr (ancestors @ [item_idx], vis)
       else bindE (get_direct_ancestor d nl target_ops names item_idx vis) (\<lambda>(tmp, vis'). Inr (ancestors @ tmp, vis')))))"

text \<open>What the search is to return, for one node and for the loop over its inputs.\<close>

definition finds :: "'a gnode_scheme list \<Rightarrow> string list \<Rightarrow> string list \<Rightarrow> nat set \<Rightarrow> (nat list \<times> (nat, nat list) dict) res \<Rightarrow> bool" where
  "finds nl target_ops names A r \<longleftrightarrow> (\<exists>anc vis. r = Inr (anc, vis) \<and> set anc = A \<and> memo_ok nl target_ops names vis)"

lemma ancestor_step_finds:
  assumes "ordered nl" "j < length nl" "j < d"
    and "finds nl target_ops names {a. closest nl target_ops names a j} (get_direct_ancestor d nl target_ops names j vis)"
    and "memo_ok nl target_ops names vis"
  shows "finds nl target_ops names (set anc \<union> (if is_stop nl target_ops names j then {j} else {a. closest nl target_ops names a j}))
           (ancestor_step d nl target_ops names (anc, vis) (j, u))"
  using assms(2-) has_multiple_inputs_is_multi [OF assms(1-3), of names]
  by (auto simp: finds_def ancestor_step_def is_stop_def)

lemma ancestor_fold_finds:
  assumes "ordered nl" "i < length nl" "i \<le> d" "set xs \<subseteq> set (gn_inputs (nl ! i))"
    and IH: "\<And>j vis. j < i \<Longrightarrow> memo_ok nl target_ops names vis \<Longrightarrow>
        finds nl target_ops names {a. closest nl target_ops names a j} (get_direct_ancestor d nl target_ops names j vis)"
  shows "memo_ok nl target_ops names vis \<Longrightarrow>
    finds nl target_ops names (set anc \<union> (\<Union>(j, u)\<in>set xs. if is_stop nl target_ops names j then {j} else {a. closest nl target_ops names a j}))
      (foldE (ancestor_step d nl target_ops names) (anc, vis) xs)"
  using assms(4)
proof (induction xs arbitrary: anc vis)
  case (Cons x xs)
  obtain j u where x: "x = (j, u)" by (cases x)
  have j: "j < i" using orderedD [OF assms(1,2), of j u] Cons.prems(2) x by auto
  then have "finds nl target_ops names (set anc \<union> (if is_stop nl target_ops names j then {j} else {a. closest nl target_ops names a j}))
           (ancestor_step d nl target_ops names (anc, vis) (j, u))"
    using assms(2,3) IH [OF j Cons.prems(1)] Cons.prems(1) by (intro ancestor_step_finds [OF assms(1)]) auto
  then obtain anc1 vis1 where s: "ancestor_step d nl target_ops names (anc, vis) (j, u) = Inr (anc1, vis1)" "memo_ok nl target_ops names vis1"
    "set anc1 = set anc \<union> (if is_stop nl target_ops names j then {j} else {a. closest nl target_ops names a j})"
    by (auto simp: finds_def)
  have "set xs \<subseteq> set (gn_inputs (nl ! i))" using Cons.prems(2) by simp
  from Cons.IH [OF s(2) this, of anc1] show ?case using s(1,3) by (simp add: x Un_assoc)
qed (simp add: finds_def)

lemma get_direct_ancestor_finds:
  assumes "ordered nl"
  shows "i < length nl \<Longrightarrow> i < depth \<Longrightarrow> memo_ok nl target_ops names visited \<Longrightarrow>
    finds nl target_ops names {a. closest nl target_ops names a i} (get_direct_ancestor depth nl target_ops names i visited)"
proof (induction i arbitrary: depth visited rule: less_induct)
  case (less i)
  obtain d where d: "depth = Suc d" "i \<le> d" using less.prems(2) by (cases depth) auto
  consider found where "map_of visited i = Some found" | "map_of visited i = None" "is_boundary_node (nl ! i) names"
    | "map_of visited i = None" "\<not> is_boundary_node (nl ! i) names" by fastforce
  then show ?case
  proof cases
    case 3
    have "finds nl target_ops names {a. closest nl target_ops names a i} (foldE (ancestor_step d nl target_ops names) ([], visited) (gn_inputs (nl ! i)))"
      using ancestor_fold_finds [OF assms less.prems(1) d(2) order_refl _ less.prems(3), of "[]"] less.IH less.prems(1) d(2)
      by (simp add: closest_inner [OF 3(2)])
    then obtain anc vis where r: "foldE (ancestor_step d nl target_ops names) ([], visited) (gn_inputs (nl ! i)) = Inr (anc, vis)"
      "set anc = {a. closest nl target_ops names a i}" "memo_ok nl target_ops names vis" by (auto simp: finds_def)
    then have "memo_ok nl target_ops names (AList.update i anc vis)" by (auto simp: memo_ok_def update_conv)
    then show ?thesis using r(1,2) 3 d(1) less.prems(1) by (simp add: finds_def ancestor_step_def)
  qed (use less.prems d in \<open>auto simp: finds_def memo_ok_def closest_boundary\<close>)
qed

text \<open>
  [C18] The memoised search for ancestors: for every node of a list in post-order, whatever correct
  results earlier searches left in the dictionary, \<^verbatim>\<open>get_direct_ancestor\<close> ends without an exception, returns
  exactly the closest tunable or boundary ancestors of the node, and leaves correct results.
\<close>

theorem get_direct_ancestor_closest:
  assumes "ordered nl" "i < length nl" "i < depth" "memo_ok nl target_ops names visited"
  shows "\<exists>ancestors visited'. get_direct_ancestor depth nl target_ops names i visited = Inr (ancestors, visited') \<and>
     set ancestors = {a. closest nl target_ops names a i} \<and> memo_ok nl target_ops names visited'"
  using get_direct_ancestor_finds [OF assms] by (simp add: finds_def)

definition sample_node :: "string option \<Rightarrow> string option \<Rightarrow> nat list \<Rightarrow> gnode" where
  "sample_node op name inputs = \<lparr>gn_op = op, gn_name = name, gn_tuple = False, gn_inputs = map (\<lambda>i. (i, 0, 0)) inputs\<rparr>"

definition sample_nodes :: "gnode list" where
  "sample_nodes = [sample_node None (Some ''data'') [], sample_node None (Some ''weight'') [], sample_node (Some ''conv'') None [0, 1],
     sample_node (Some ''relu'') None [2], sample_node (Some ''pool'') None [3]]"

theorem get_direct_ancestor_closest_witness:
  "\<exists>ancestors visited'. get_direct_ancestor 5 sample_nodes [''conv''] [''data''] 4 [] = Inr (ancestors, visited') \<and>
     set ancestors = {a. closest sample_nodes [''conv''] [''data''] a 4} \<and> memo_ok sample_nodes [''conv''] [''data''] visited'"
proof (rule get_direct_ancestor_closest)
  show "ordered sample_nodes" by code_simp
  show "4 < length sample_nodes" by code_simp
  show "memo_ok sample_nodes [''conv''] [''data''] []" by (simp add: memo_ok_def)
qed simp

subsection \<open>Boundary inputs\<close>

text \<open>
  The addition of the network's input and a convolution, with the input first: \<^verbatim>\<open>get_in_nodes\<close> drops the addition
  as a node and keeps it as an input of the convolution behind it.
\<close>

lemma boundary_first_dangles:
  "get_in_nodes 8 [sample_node None (Some ''data'') [], sample_node None (Some ''w0'') [], sample_node (Some ''conv'') None [0, 1],
       sample_node (Some ''add'') None [0, 2], sample_node None (Some ''c'') [], sample_node (Some ''add'') None [3, 4],
       sample_node None (Some ''w1'') [], sample_node (Some ''conv'') None [5, 6]]
     [''conv''] [''data''] = Inr [(2, [0]), (7, [3])]"
  by code_simp

subsection \<open>Schedule candidates\<close>

abbreviation first_cost :: "'c mrecord \<Rightarrow> rat" where
  "first_cost r \<equiv> mr_costs r ! 0"

definition layouts_of :: "'c infer_layout \<Rightarrow> layout_kind \<Rightarrow> 'c mrecord \<Rightarrow> layout_info list \<times> layout_info list" where
  "layouts_of infer kind r = infer kind (mr_workload r) (mr_config r)"

text \<open>The tracking dictionary holds, for the layouts of the records seen, a cheapest record each.\<close>

definition tracked :: "'c infer_layout \<Rightarrow> layout_kind \<Rightarrow> 'c mrecord set \<Rightarrow>
    (layout_info list \<times> layout_info list, 'c mrecord) dict \<Rightarrow> bool" where
  "tracked infer kind R tracking \<longleftrightarrow> distinct (map fst tracking) \<and> fst ` set tracking = layouts_of infer kind ` R \<and>
     (\<forall>(l, b)\<in>set tracking. b \<in> R \<and> layouts_of infer kind b = l \<and>
        (\<forall>r\<in>R. layouts_of infer kind r = l \<longrightarrow> first_cost b \<le> first_cost r))"

lemma trackedD:
  assumes "tracked infer kind R tracking"
  shows "distinct (map fst tracking)" "fst ` set tracking = layouts_of infer kind ` R"
    "(l, b) \<in> set tracking \<Longrightarrow> b \<in> R" "(l, b) \<in> set tracking \<Longrightarrow> layouts_of infer kind b = l"
    "(l, b) \<in> set tracking \<Longrightarrow> r \<in> R \<Longrightarrow> layouts_of infer kind r = l \<Longrightarrow> first_cost b \<le> first_cost r"
  using assms unfolding tracked_def by blast+

lemma set_update_distinct: "distinct (map fst d) \<Longrightarrow> (l, b) \<in> set (AList.update k v d) \<longleftrightarrow> (l = k \<and> b = v) \<or> (l \<noteq> k \<and> (l, b) \<in> set d)"
proof -
  assume d: "distinct (map fst d)"
  have "(l, b) \<in> set (AList.update k v d) \<longleftrightarrow> map_of (AList.update k v d) l = Some b"
    by (rule map_of_eq_Some_iff [OF distinct_update [OF d], symmetric])
  also have "\<dots> \<longleftrightarrow> (l = k \<and> b = v) \<or> (l \<noteq> k \<and> map_of d l = Some b)" by (auto simp: update_conv')
  also have "map_of d l = Some b \<longleftrightarrow> (l, b) \<in> set d" by (rule map_of_eq_Some_iff [OF d])
  finally show ?thesis .
qed

lemma tracked_update:
  assumes t: "tracked infer kind R tracking"
    and r: "\<And>r'. r' \<in> R \<Longrightarrow> layouts_of infer kind r' = layouts_of infer kind r \<Longrightarrow> first_cost r \<le> first_cost r'"
  shows "tracked infer kind (insert r R) (AList.update (layouts_of infer kind r) r tracking)"
  unfolding tracked_def
proof (intro conjI)
  show "distinct (map fst (AList.update (layouts_of infer kind r) r tracking))" using trackedD(1) [OF t] by (rule distinct_update)
  show "fst ` set (AList.update (layouts_of infer kind r) r tracking) = layouts_of infer kind ` insert r R"
    using trackedD(2) [OF t] by (simp add: dom_update)
  show "\<forall>(l, b)\<in>set (AList.update (layouts_of infer kind r) r tracking). b \<in> insert r R \<and> layouts_of infer kind b = l \<and>
      (\<forall>r'\<in>insert r R. layouts_of infer kind r' = l \<longrightarrow> first_cost b \<le> first_cost r')"
  proof (intro ballI, clarify)
    fix l b assume "(l, b) \<in> set (AList.update (layouts_of infer kind r) r tracking)"
    then consider "l = layouts_of infer kind r" "b = r" | "l \<noteq> layouts_of infer kind r" "(l, b) \<in> set tracking"
      unfolding set_update_distinct [OF trackedD(1) [OF t]] by blast
    then show "b \<in> insert r R \<and> layouts_of infer kind b = l \<and> (\<forall>r'\<in>insert r R. layouts_of infer kind r' = l \<longrightarrow> first_cost b \<le> first_cost r')"
    proof cases
      case 2
      then show ?thesis using trackedD(3,4,5) [OF t 2(2)] by blast
    qed (use r in auto)
  qed
qed

lemma tracked_keep:
  assumes t: "tracked infer kind R tracking" and b: "(layouts_of infer kind r, best) \<in> set tracking" "first_cost best \<le> first_cost r"
  shows "tracked infer kind (insert r R) tracking"
  unfolding tracked_def
proof (intro conjI)
  have "layouts_of infer kind r \<in> layouts_of infer kind ` R" using b(1) trackedD(2) [OF t] by force
  then show "fst ` set tracking = layouts_of infer kind ` insert r R" using trackedD(2) [OF t] by (simp add: insert_absorb)
  have best: "b' = best" if "(layouts_of infer kind r, b') \<in> set tracking" for b'
    using that b(1) trackedD(1) [OF t] by (metis map_of_is_SomeI option.inject)
  show "\<forall>(l, b)\<in>set tracking. b \<in> insert r R \<and> layouts_of infer kind b = l \<and>
      (\<forall>r'\<in>insert r R. layouts_of infer kind r' = l \<longrightarrow> first_cost b \<le> first_cost r')"
    using trackedD(3,4,5) [OF t] best b(2) by blast
qed (rule trackedD(1) [OF t])

lemma track_layout_tracked:
  assumes t: "tracked infer kind R tracking" and c: "mr_costs r \<noteq> []" "\<forall>r\<in>R. mr_costs r \<noteq> []"
  shows "\<exists>tracking'. track_layout infer kind tracking r = Inr tracking' \<and> tracked infer kind (insert r R) tracking'"
proof (cases "map_of tracking (layouts_of infer kind r)")
  case None
  then have "layouts_of infer kind r \<notin> layouts_of infer kind ` R" using trackedD(2) [OF t] by (simp add: map_of_eq_None_iff)
  then have "tracked infer kind (insert r R) (AList.update (layouts_of infer kind r) r tracking)" by (intro tracked_update [OF t]) (metis imageI)
  then show ?thesis using None by (simp add: track_layout_def layouts_of_def)
next
  case (Some best)
  then have b: "(layouts_of infer kind r, best) \<in> set tracking" by (rule map_of_SomeD)
  let ?u = "if first_cost r < first_cost best then AList.update (layouts_of infer kind r) r tracking else tracking"
  have "track_layout infer kind tracking r = Inr ?u"
    using Some c trackedD(3) [OF t b] by (simp add: track_layout_def layouts_of_def cost0_def nthE_def)
  moreover have "tracked infer kind (insert r R) (AList.update (layouts_of infer kind r) r tracking)" if "first_cost r < first_cost best"
    using trackedD(5) [OF t b] that by (intro tracked_update [OF t]) force
  then have "tracked infer kind (insert r R) ?u" using tracked_keep [OF t b] by simp
  ultimately show ?thesis by blast
qed

lemma track_layouts:
  "\<forall>r\<in>set records \<union> R. mr_costs r \<noteq> [] \<Longrightarrow> tracked infer kind R tracking \<Longrightarrow>
   \<exists>tracking'. foldE (track_layout infer kind) tracking records = Inr tracking' \<and> tracked infer kind (set records \<union> R) tracking'"
proof (induction records arbitrary: tracking R)
  case (Cons r records)
  obtain t1 where t1: "track_layout infer kind tracking r = Inr t1" "tracked infer kind (insert r R) t1"
    using track_layout_tracked [OF Cons.prems(2), of r] Cons.prems(1) by auto
  then show ?case using Cons.IH [OF _ t1(2)] Cons.prems(1) by simp
qed simp

text \<open>
  [C17] The candidates of a node are the fastest layouts: one record for each of them, the cheapest with these
  layouts, in the order of their costs, as many as there are layouts and \<^verbatim>\<open>max_sch_num\<close> allows, and no layout that
  is left out has a cheaper record.
\<close>

theorem candidates_fastest:
  assumes "\<forall>r\<in>set records. mr_costs r \<noteq> []"
  shows "\<exists>cands. candidates infer max_sch_num kind records = Inr cands \<and> sorted (map first_cost cands) \<and>
     distinct (map (layouts_of infer kind) cands) \<and> set cands \<subseteq> set records \<and>
     length cands = min (nat max_sch_num) (card (layouts_of infer kind ` set records)) \<and>
     (\<forall>c\<in>set cands. \<forall>r\<in>set records.
        layouts_of infer kind r = layouts_of infer kind c \<or> layouts_of infer kind r \<notin> layouts_of infer kind ` set cands \<longrightarrow>
        first_cost c \<le> first_cost r)"
proof -
  obtain t where t: "foldE (track_layout infer kind) [] records = Inr t" "tracked infer kind (set records) t"
    using track_layouts [of records "{}" infer kind "[]"] assms by (auto simp: tracked_def)
  note T = trackedD [OF t(2)]
  let ?s = "sort_key first_cost (map snd t)"
  let ?c = "take (nat max_sch_num) ?s"
  have "mapE cost0 (map snd t) = Inr (map first_cost (map snd t))"
    using T(3) assms by (intro mapE_map_Inr) (auto simp: cost0_def nthE_def)
  then have "candidates infer max_sch_num kind records = Inr ?c" using t(1) by (simp add: candidates_def)
  moreover have l: "map (layouts_of infer kind) (map snd t) = map fst t" using T(4) by auto
  have "mset (map (layouts_of infer kind) ?s) = mset (map fst t)" by (simp only: mset_map mset_sort) (simp only: mset_map [symmetric] l)
  then have "distinct (map (layouts_of infer kind) ?s)" using T(1) by (metis mset_eq_imp_distinct_iff)
  then have "distinct (map (layouts_of infer kind) ?c)" by (simp add: take_map [symmetric])
  moreover have "sorted (map first_cost ?c)" by (simp add: take_map [symmetric] sorted_wrt_take)
  moreover have sub: "b \<in> set records" "\<And>r. r \<in> set records \<Longrightarrow> layouts_of infer kind r = layouts_of infer kind b \<Longrightarrow> first_cost b \<le> first_cost r"
    if "b \<in> set ?s" for b using that T(3-5) by auto
  then have "set ?c \<subseteq> set records" using set_take_subset by fastforce
  moreover have "length t = card (layouts_of infer kind ` set records)"
    using distinct_card [OF T(1)] T(2) by simp
  then have "length ?c = min (nat max_sch_num) (card (layouts_of infer kind ` set records))" by simp
  moreover have "first_cost c \<le> first_cost r" if c: "c \<in> set ?c" and r: "r \<in> set records"
    and "layouts_of infer kind r = layouts_of infer kind c \<or> layouts_of infer kind r \<notin> layouts_of infer kind ` set ?c" for c r
    using that(3)
  proof
    assume "layouts_of infer kind r = layouts_of infer kind c"
    then show ?thesis using sub(2) [of c r] c r by (meson in_set_takeD)
  next
    assume out: "layouts_of infer kind r \<notin> layouts_of infer kind ` set ?c"
    obtain b where b: "(layouts_of infer kind r, b) \<in> set t" using T(2) r by (metis (no_types, lifting) imageE imageI prod.collapse)
    then have "b \<in> set ?s" by force
    moreover have "b \<notin> set ?c" using T(4) [OF b] out by (metis imageI)
    ultimately have "b \<in> set (drop (nat max_sch_num) ?s)" by (metis Un_iff append_take_drop_id set_append)
    moreover have "sorted (map first_cost (?c @ drop (nat max_sch_num) ?s))" by simp
    ultimately have "first_cost c \<le> first_cost b" using c by (auto simp only: map_append sorted_append set_map)
    also have "\<dots> \<le> first_cost r" using T(5) [OF b r] by simp
    finally show ?thesis .
  qed
  ultimately show ?thesis by blast
qed

definition sample_infer :: "nat infer_layout" where
  "sample_infer kind w c = ([([1, 8, 4, 4], if c < 2 then ''NCHW'' else ''NCHW8c'')], [([1, 8, 4, 4], ''NCHW'')])"

definition sample_records :: "nat mrecord list" where
  "sample_records = map (\<lambda>(c, t). \<lparr>mr_workload = \<lparr>wl_name = ''conv2d'', wl_tensor = ([1, 8, 4, 4], ''float32''), wl_rest = []\<rparr>,
     mr_config = c, mr_costs = [t]\<rparr>) [(0, 5), (1, 3), (2, 4), (3, 6)]"

theorem candidates_fastest_witness:
  "\<exists>cands. candidates sample_infer 20 Conv2d sample_records = Inr cands \<and> sorted (map first_cost cands) \<and>
     length cands = 2 \<and> set cands \<subseteq> set sample_records"
proof -
  have c: "\<forall>r\<in>set sample_records. mr_costs r \<noteq> []" by code_simp
  have "card (layouts_of sample_infer Conv2d ` set sample_records) = 2" by code_simp
  then show ?thesis using candidates_fastest [OF c, of sample_infer 20 Conv2d] by auto
qed

end
