(* ===== verification/PBQP_Problem.thy ===== *)
theory PBQP_Problem
  imports PBQP_Optimal Graph_Props
begin

section \<open>The problem of a graph tuner\<close>

text \<open>
  The construction of the PBQP tuner and the preparation of its matrices build a state that satisfies the
  invariant and whose objective is the execution time of the graph, for tuners whose pairs of nodes occur
  in one direction only and share no matrix.
\<close>

subsection \<open>Well-formed tuners\<close>

definition keys :: "'c gtuner \<Rightarrow> nat set" where
  "keys g = fst ` set (gt_in_nodes g)"

definition in_of :: "'c gtuner \<Rightarrow> nat \<Rightarrow> nat list" where
  "in_of g n = (case map_of (gt_in_nodes g) n of None \<Rightarrow> [] | Some val \<Rightarrow> val)"

definition tcosts :: "'c gtuner \<Rightarrow> nat \<Rightarrow> rat list" where
  "tcosts g n = (case node_costs g n of Inl e \<Rightarrow> [] | Inr r \<Rightarrow> r)"

definition multi_node :: "'c gtuner \<Rightarrow> nat \<Rightarrow> bool" where
  "multi_node g n \<longleftrightarrow> is_multi (gt_node_list g) (gt_input_names g) n"

text \<open>The pairs of a node and its input; a multi-input node takes over the candidate of its first input.\<close>

definition flow :: "'c gtuner \<Rightarrow> (nat \<times> nat) set" where
  "flow g = {(m, n). n \<in> keys g \<and> m \<in> set (in_of g n)}"

definition takes_over :: "'c gtuner \<Rightarrow> nat \<Rightarrow> nat \<Rightarrow> bool" where
  "takes_over g m n \<longleftrightarrow> multi_node g n \<and> m = hd (in_of g n)"

definition edge_source :: "'c gtuner \<Rightarrow> nat \<Rightarrow> nat \<Rightarrow> nat \<times> nat" where
  "edge_source g m n = (m, if multi_node g n then hd (in_of g n) else n)"

definition edge_matrix :: "'c gtuner \<Rightarrow> nat \<Rightarrow> nat \<Rightarrow> rat list list" where
  "edge_matrix g m n =
     (if takes_over g m n then keep_matrix (length (tcosts g m))
      else case map_of (gt_interlayer_cost g) (edge_source g m n) of None \<Rightarrow> [] | Some x \<Rightarrow> x)"

definition plain :: "'c gtuner \<Rightarrow> (nat \<times> nat) set" where
  "plain g = {(m, n) \<in> flow g. \<not> takes_over g m n}"

text \<open>The execution time of a choice of candidates: the candidates' times and the transformations between them.\<close>

definition graph_time :: "'c gtuner \<Rightarrow> (nat \<Rightarrow> nat) \<Rightarrow> rat" where
  "graph_time g choice = (\<Sum>n\<in>keys g. tcosts g n ! choice n) + (\<Sum>(m, n)\<in>flow g. edge_matrix g m n ! choice m ! choice n)"

definition in_range :: "'c gtuner \<Rightarrow> (nat \<Rightarrow> nat) \<Rightarrow> bool" where
  "in_range g choice \<longleftrightarrow> (\<forall>n\<in>keys g. choice n < length (tcosts g n))"

definition node_ok :: "'c gtuner \<Rightarrow> nat \<Rightarrow> bool" where
  "node_ok g n \<longleftrightarrow> n < length (gt_node_list g) \<and> \<not> is_boundary_node (gt_node_list g ! n) (gt_input_names g) \<and>
     distinct (in_of g n) \<and> (\<forall>m\<in>set (in_of g n). m \<in> keys g \<and> m < n) \<and>
     map_of (gt_out_nodes g) n = Some (consumers (gt_in_nodes g) n) \<and>
     node_costs g n = Inr (tcosts g n) \<and> tcosts g n \<noteq> [] \<and> (\<forall>v\<in>set (tcosts g n). 0 \<le> v)"

definition pairs_ok :: "'c gtuner \<Rightarrow> bool" where
  "pairs_ok g \<longleftrightarrow>
     (\<forall>(m, n)\<in>flow g. shaped (edge_matrix g m n) (length (tcosts g m)) (length (tcosts g n)) \<and>
        (\<forall>row\<in>set (edge_matrix g m n). \<forall>v\<in>set row. 0 \<le> v)) \<and>
     (\<forall>(m, n)\<in>plain g. edge_source g m n \<in> fst ` set (gt_interlayer_cost g)) \<and>
     (\<forall>(k, m)\<in>set (gt_interlayer_cost g). m \<noteq> [] \<and> shaped m (length m) (length (hd m)))"

text \<open>No pair occurs in both directions, and no two pairs of the graph read the same matrix.\<close>

definition unshared :: "'c gtuner \<Rightarrow> bool" where
  "unshared g \<longleftrightarrow> inj_on (\<lambda>(m, n). edge_source g m n) (plain g) \<and>
     (\<forall>(a, b)\<in>flow g \<union> fst ` set (gt_interlayer_cost g). (b, a) \<notin> flow g \<union> fst ` set (gt_interlayer_cost g))"

definition tuner_ok :: "'c gtuner \<Rightarrow> bool" where
  "tuner_ok g \<longleftrightarrow> ordered (gt_node_list g) \<and> distinct (map fst (gt_in_nodes g)) \<and>
     distinct (map fst (gt_interlayer_cost g)) \<and> (\<forall>n\<in>keys g. node_ok g n) \<and> pairs_ok g \<and> unshared g"

subsection \<open>Construction\<close>

definition links :: "'c gtuner \<Rightarrow> nat \<Rightarrow> nat list" where
  "links g n = in_of g n @ consumers (gt_in_nodes g) n"

lemma map_of_map_key: "map_of (map (\<lambda>(k, v). (k, f k v)) xs) k = map_option (f k) (map_of xs k)"
  by (induction xs) auto

lemma in_of_at: "distinct (map fst (gt_in_nodes g)) \<Longrightarrow> (n, val) \<in> set (gt_in_nodes g) \<Longrightarrow> in_of g n = val"
  by (simp add: in_of_def)

lemma map_of_in_nodes: "map_of (gt_in_nodes g) n = (if n \<in> keys g then Some (in_of g n) else None)"
  by (auto simp: keys_def in_of_def map_of_eq_None_iff split: option.splits)

lemma set_consumers:
  assumes "distinct (map fst (gt_in_nodes g))"
  shows "set (consumers (gt_in_nodes g) n) = {k. (n, k) \<in> flow g}"
proof -
  have "(k, val) \<in> set (gt_in_nodes g) \<and> n \<in> set val \<longleftrightarrow> k \<in> keys g \<and> val = in_of g k \<and> n \<in> set (in_of g k)" for k val
    using in_of_at [OF assms] by (force simp: keys_def)
  moreover have "set (consumers (gt_in_nodes g) n) = {k. \<exists>val. (k, val) \<in> set (gt_in_nodes g) \<and> n \<in> set val}"
    by (force simp: consumers_def set_replicate_conv_if count_list_0_iff split: if_splits)
  ultimately show ?thesis by (auto simp: flow_def)
qed

lemma distinct_consumers_list:
  "distinct (map fst ins) \<Longrightarrow> (\<And>k val. (k, val) \<in> set ins \<Longrightarrow> distinct val) \<Longrightarrow> distinct (consumers ins n)"
proof (induction ins)
  case (Cons p ins)
  obtain k val where p: "p = (k, val)" by (cases p)
  have "distinct val" using Cons.prems(2) [of k val] by (simp add: p)
  then have "count_list val n \<le> 1" by (induction val) (auto simp: count_list_0_iff)
  then have "distinct (replicate (count_list val n) k)" by (cases "count_list val n") auto
  moreover have "distinct (consumers ins n)" using Cons.prems by (intro Cons.IH) (auto simp: p)
  moreover have "k \<notin> set (consumers ins n)" using Cons.prems(1) by (force simp: p consumers_def)
  ultimately show ?case by (auto simp: p consumers_def)
qed (simp add: consumers_def)

lemma foldl_max: "x \<in> set xs \<Longrightarrow> x \<le> foldl max b xs" for x :: nat
proof (induction xs arbitrary: b)
  case (Cons y ys)
  have "b \<le> foldl max b ys" for b :: nat by (induction ys arbitrary: b) (auto intro: max.coboundedI1 order_trans [rotated])
  then have "y \<le> foldl max (max b y) ys" by (metis max.bounded_iff)
  then show ?case using Cons by auto
qed simp

lemma tuner_okD:
  assumes "tuner_ok g"
  shows "ordered (gt_node_list g)" "distinct (map fst (gt_in_nodes g))" "distinct (map fst (gt_interlayer_cost g))"
    "n \<in> keys g \<Longrightarrow> node_ok g n" "pairs_ok g" "unshared g"
  using assms by (simp_all add: tuner_ok_def)

lemma set_links: "distinct (map fst (gt_in_nodes g)) \<Longrightarrow> n \<in> keys g \<Longrightarrow> set (links g n) = {m. (m, n) \<in> flow g \<or> (n, m) \<in> flow g}"
  using set_consumers [of g n] by (auto simp: links_def flow_def)

lemma flow_less: "tuner_ok g \<Longrightarrow> (m, n) \<in> flow g \<Longrightarrow> m < n \<and> m \<in> keys g \<and> n \<in> keys g"
  using tuner_okD(4) [of g n] by (auto simp: flow_def node_ok_def)

lemma distinct_links:
  assumes "tuner_ok g" "n \<in> keys g"
  shows "distinct (links g n)"
proof -
  note d = tuner_okD(2) [OF assms(1)]
  have "distinct val" if "(k, val) \<in> set (gt_in_nodes g)" for k val
    using tuner_okD(4) [OF assms(1), of k] in_of_at [OF d that] that by (force simp: keys_def node_ok_def)
  then have "distinct (consumers (gt_in_nodes g) n)" using d by (intro distinct_consumers_list)
  moreover have "(m, n) \<in> flow g" if "m \<in> set (in_of g n)" for m using that assms(2) by (simp add: flow_def)
  then have "set (in_of g n) \<inter> set (consumers (gt_in_nodes g) n) = {}"
    using flow_less [OF assms(1)] set_consumers [OF d, of n] by (metis disjoint_iff less_asym mem_Collect_eq)
  ultimately show ?thesis using tuner_okD(4) [OF assms] by (simp add: links_def node_ok_def)
qed

definition built :: "'c gtuner \<Rightarrow> pbqp" where
  "built g =
     (let max_degree = foldl max 0 (map (\<lambda>n. length (links g n)) (map fst (gt_in_nodes g)));
          degree = (\<lambda>n. if n \<in> keys g then Some (length (links g n)) else None)
      in \<lparr>pb_adj = (\<lambda>n. if n \<in> keys g then Some (links g n) else None),
          pb_record_cost = (\<lambda>n. if n \<in> keys g then Some (tcosts g n) else None),
          pb_ltf = enumerate_keys (gt_interlayer_cost g), pb_mats = map snd (gt_interlayer_cost g),
          pb_max_degree = max_degree, pb_node_degree = degree, pb_stack = [],
          pb_buckets = map (\<lambda>d. filter (\<lambda>n. degree n = Some d) (sort (map fst (gt_in_nodes g)))) [0..<max_degree + 2],
          pb_is_optimal = True, pb_optimal = []\<rparr>)"

lemma mk_pbqp_built:
  assumes "tuner_ok g"
  shows "mk_pbqp g = Inr (built g)"
proof -
  note d = tuner_okD(2) [OF assms] and n = tuner_okD(4) [OF assms]
  let ?adj = "map (\<lambda>(k, val). (k, links g k)) (gt_in_nodes g)" and ?cost = "map (\<lambda>(k, val). (k, tcosts g k)) (gt_in_nodes g)"
  have "mapE (\<lambda>(node_idx, val). bindE (dict_get (gt_out_nodes g) node_idx) (\<lambda>outs. Inr (node_idx, val @ outs))) (gt_in_nodes g) = Inr ?adj"
  proof (intro mapE_map_Inr)
    fix p assume p: "p \<in> set (gt_in_nodes g)"
    obtain k val where kv: "p = (k, val)" by (cases p)
    have "node_ok g k" "in_of g k = val" using n [of k] in_of_at [OF d, of k val] p kv by (force simp: keys_def)+
    then show "(\<lambda>(node_idx, val). bindE (dict_get (gt_out_nodes g) node_idx) (\<lambda>outs. Inr (node_idx, val @ outs))) p = Inr ((\<lambda>(k, val). (k, links g k)) p)"
      by (simp add: kv dict_get_eq node_ok_def links_def)
  qed
  moreover have "mapE (\<lambda>(key, val). bindE (node_costs g key) (\<lambda>costs. Inr (key, costs))) (gt_in_nodes g) = Inr ?cost"
    using n by (intro mapE_map_Inr) (force simp: keys_def node_ok_def)
  moreover have "map_of ?adj = (\<lambda>n. if n \<in> keys g then Some (links g n) else None)" 
    "map_of ?cost = (\<lambda>n. if n \<in> keys g then Some (tcosts g n) else None)"
    "map_of (map (\<lambda>(node_idx, l). (node_idx, length l)) ?adj) = (\<lambda>n. if n \<in> keys g then Some (length (links g n)) else None)"
    by (simp_all add: map_of_map_key map_of_in_nodes fun_eq_iff del: map_map)
  moreover have "map (\<lambda>(node_idx, l). length l) ?adj = map (\<lambda>n. length (links g n)) (map fst (gt_in_nodes g))" by auto
  ultimately show ?thesis unfolding mk_pbqp_def built_def by (simp only: bindE_Inr Let_def)
qed

lemma built_fields [simp]:
  "pb_adj (built g) = (\<lambda>n. if n \<in> keys g then Some (links g n) else None)"
  "pb_record_cost (built g) = (\<lambda>n. if n \<in> keys g then Some (tcosts g n) else None)"
  "pb_ltf (built g) = enumerate_keys (gt_interlayer_cost g)" "pb_mats (built g) = map snd (gt_interlayer_cost g)"
  "pb_node_degree (built g) = (\<lambda>n. if n \<in> keys g then Some (length (links g n)) else None)"
  "pb_stack (built g) = []" "pb_is_optimal (built g)" "pb_optimal (built g) = []"
  "length (pb_buckets (built g)) = pb_max_degree (built g) + 2"
  by (simp_all add: built_def Let_def)

lemma built_degree: "n \<in> keys g \<Longrightarrow> length (links g n) \<le> pb_max_degree (built g)"
  unfolding built_def Let_def pbqp.select_convs by (rule foldl_max) (force simp: keys_def)

lemma built_bucket:
  "d < length (pb_buckets (built g)) \<Longrightarrow>
   pb_buckets (built g) ! d = filter (\<lambda>n. n \<in> keys g \<and> length (links g n) = d) (sort (map fst (gt_in_nodes g)))"
  unfolding built_fields(9) unfolding built_def Let_def by (auto simp del: upt_Suc simp: nth_append intro!: filter_cong)

lemma built_bucketed:
  assumes "tuner_ok g"
  shows "bucketed (pb_buckets (built g)) (pb_node_degree (built g))"
  using tuner_okD(2) [OF assms] by (simp add: bucketed_def built_bucket)

lemma built_live: "live (built g) = keys g"
proof -
  have "set (map fst (gt_in_nodes g)) = keys g" by (simp add: keys_def)
  then have "n \<in> live (built g) \<longleftrightarrow> (\<exists>d<pb_max_degree (built g) + 2. n \<in> keys g \<and> length (links g n) = d)" for n
    by (auto simp: live_iff built_bucket)
  then show ?thesis using built_degree [of _ g] by fastforce
qed

subsection \<open>Edges of multi-input nodes\<close>

text \<open>The dictionary and the matrices after the nodes of \<^term>\<open>P\<close> are done.\<close>

definition joined :: "'c gtuner \<Rightarrow> nat set \<Rightarrow> (nat \<times> nat, nat) dict \<Rightarrow> rat list list list \<Rightarrow> bool" where
  "joined g P temp mats \<longleftrightarrow> distinct (map fst temp) \<and>
     dom (map_of temp) = {(m, n) \<in> flow g. n \<in> P \<and> multi_node g n} \<and>
     (\<forall>(m, n)\<in>plain g. n \<in> P \<and> multi_node g n \<longrightarrow> map_of temp (m, n) = map_of (pb_ltf (built g)) (edge_source g m n)) \<and>
     (\<forall>(m, n)\<in>flow g. n \<in> P \<and> takes_over g m n \<longrightarrow> (\<exists>p<length mats. map_of temp (m, n) = Some p \<and>
        length (pb_mats (built g)) \<le> p \<and> mats ! p = edge_matrix g m n)) \<and>
     inj_on (map_of temp) {(m, n) \<in> flow g. n \<in> P \<and> takes_over g m n} \<and>
     (\<exists>new. mats = pb_mats (built g) @ new)"

lemma map_of_fold_update:
  "map_of (fold (\<lambda>m. AList.update (m, key) (f m)) xs temp) (a, b) = (if b = key \<and> a \<in> set xs then Some (f a) else map_of temp (a, b))"
  by (induction xs arbitrary: temp) (auto simp: update_conv')

lemma distinct_fold_update: "distinct (map fst temp) \<Longrightarrow> distinct (map fst (fold (\<lambda>m. AList.update (m, key) (f m)) xs temp))"
  by (induction xs arbitrary: temp) (auto simp: distinct_update)

lemma length_tcosts:
  assumes "node_ok g n"
  obtains cands where "tn_records (gt_node_list g ! n) = Some cands" "length cands = length (tcosts g n)"
  using assms by (auto simp: node_ok_def node_costs_def bindE_eq_Inr keyE_def mapE_length split: option.splits)

lemma target_first:
  "node_ok g t \<Longrightarrow> target_input g 0 (t # items) = Inr (Some (t, 0))"
  by (simp add: node_ok_def)

lemma keys_enumerate: "map fst (enumerate_keys d) = map fst d"
  by (simp add: enumerate_keys_def)

lemma ltf_known:
  assumes "k \<in> fst ` set (gt_interlayer_cost g)"
  obtains p where "map_of (pb_ltf (built g)) k = Some p" "p < length (pb_mats (built g))"
proof -
  have "k \<in> fst ` set (enumerate_keys (gt_interlayer_cost g))" using assms by (metis keys_enumerate image_set)
  then obtain p where p: "map_of (enumerate_keys (gt_interlayer_cost g)) k = Some p"
    by (metis domIff dom_map_of_conv_image_fst option.exhaust)
  then have "p \<in> set [0..<length (gt_interlayer_cost g)]" unfolding enumerate_keys_def by (metis map_of_SomeD set_zip_rightD)
  then show thesis using that p by simp
qed

lemma pairs_okD:
  assumes "tuner_ok g"
  shows "(m, n) \<in> flow g \<Longrightarrow> shaped (edge_matrix g m n) (length (tcosts g m)) (length (tcosts g n))"
    "(m, n) \<in> flow g \<Longrightarrow> row \<in> set (edge_matrix g m n) \<Longrightarrow> v \<in> set row \<Longrightarrow> 0 \<le> v"
    "(m, n) \<in> plain g \<Longrightarrow> edge_source g m n \<in> fst ` set (gt_interlayer_cost g)"
    "(k, x) \<in> set (gt_interlayer_cost g) \<Longrightarrow> x \<noteq> []"
    "(k, x) \<in> set (gt_interlayer_cost g) \<Longrightarrow> shaped x (length x) (length (hd x))"
  using tuner_okD(5) [OF assms] unfolding pairs_ok_def by blast+

lemma unsharedD:
  assumes "tuner_ok g"
  shows "edge_source g m n = edge_source g m' n' \<Longrightarrow> (m, n) \<in> plain g \<Longrightarrow> (m', n') \<in> plain g \<Longrightarrow> m = m' \<and> n = n'"
    "(a, b) \<in> flow g \<union> fst ` set (gt_interlayer_cost g) \<Longrightarrow> (b, a) \<notin> flow g \<union> fst ` set (gt_interlayer_cost g)"
proof -
  have u: "inj_on (\<lambda>(m, n). edge_source g m n) (plain g)" using tuner_okD(6) [OF assms] by (simp add: unshared_def)
  show "m = m' \<and> n = n'" if "edge_source g m n = edge_source g m' n'" "(m, n) \<in> plain g" "(m', n') \<in> plain g"
    using inj_onD [OF u, of "(m, n)" "(m', n')"] that by simp
  show "(b, a) \<notin> flow g \<union> fst ` set (gt_interlayer_cost g)" if "(a, b) \<in> flow g \<union> fst ` set (gt_interlayer_cost g)"
    using tuner_okD(6) [OF assms] that unfolding unshared_def by blast
qed

lemma input_ok: "tuner_ok g \<Longrightarrow> n \<in> keys g \<Longrightarrow> m \<in> set (in_of g n) \<Longrightarrow> node_ok g m"
  using flow_less [of g m n] tuner_okD(4) [of g m] by (simp add: flow_def)

lemma multi_edges_step:
  assumes g: "tuner_ok g" and k: "key \<in> keys g" and d: "length (gt_node_list g) \<le> depth"
  shows "multi_edges depth g (built g) (temp, mats) (key, in_of g key) =
     (case in_of g key of
        [] \<Rightarrow> Inr (temp, mats)
      | t # others \<Rightarrow> if \<not> multi_node g key then Inr (temp, mats)
          else Inr (fold (\<lambda>m. AList.update (m, key) (the (map_of (pb_ltf (built g)) (m, t)))) others (AList.update (t, key) (length mats) temp),
                    mats @ [edge_matrix g t key]))"
proof -
  note ok = tuner_okD(4) [OF g k]
  have m: "has_multiple_inputs depth (gt_node_list g) key (gt_input_names g) OPT_OUT_OP = Inr (multi_node g key)"
    unfolding multi_node_def using ok d by (intro has_multiple_inputs_is_multi tuner_okD(1) [OF g]) (auto simp: node_ok_def)
  show ?thesis
  proof (cases "in_of g key")
    case Nil
    then show ?thesis by (simp add: multi_edges_def m del: has_multiple_inputs.simps)
  next
    case (Cons t others)
    then have t: "node_ok g t" "t < length (gt_node_list g)" using input_ok [OF g k, of t] by (auto simp: node_ok_def)
    obtain cands where c: "tn_records (gt_node_list g ! t) = Some cands" "length cands = length (tcosts g t)" using length_tcosts [OF t(1)] .
    have "foldE (\<lambda>temp input_idx.
                   bindE (nthE (gt_node_list g) input_idx) (\<lambda>input_node.
                     if is_boundary_node input_node (gt_input_names g) then Inr temp
                     else bindE (getE (map_of (pb_ltf (built g))) (input_idx, t)) (\<lambda>p.
                            Inr (AList.update (input_idx, key) p temp)))) temp' xs =
        Inr (fold (\<lambda>m. AList.update (m, key) (the (map_of (pb_ltf (built g)) (m, t)))) xs temp')"
      if "multi_node g key" "set xs \<subseteq> set others" for temp' xs
      using that(2)
    proof (induction xs arbitrary: temp')
      case (Cons x xs)
      have x: "x \<in> set (in_of g key)" "x \<noteq> t" using Cons.prems \<open>in_of g key = t # others\<close> ok by (auto simp: node_ok_def)
      then have "(x, key) \<in> plain g" using k that(1) \<open>in_of g key = t # others\<close> by (simp add: plain_def flow_def takes_over_def)
      then have "(x, t) \<in> fst ` set (gt_interlayer_cost g)"
        using pairs_okD(3) [OF g, of x key] that(1) \<open>in_of g key = t # others\<close> by (simp add: edge_source_def)
      then obtain p where "map_of (pb_ltf (built g)) (x, t) = Some p" by (rule ltf_known)
      moreover have "node_ok g x" by (rule input_ok [OF g k x(1)])
      ultimately show ?case using Cons.IH Cons.prems by (simp add: node_ok_def getE_def)
    qed simp
    then show ?thesis using Cons t(2) c
      by (simp add: multi_edges_def m target_first [OF t(1)] keyE_def edge_matrix_def takes_over_def del: has_multiple_inputs.simps target_input.simps)
  qed
qed

lemma joinedD:
  assumes "joined g P temp mats"
  shows "distinct (map fst temp)" "dom (map_of temp) = {(m, n) \<in> flow g. n \<in> P \<and> multi_node g n}"
    "(m, n) \<in> plain g \<Longrightarrow> n \<in> P \<Longrightarrow> multi_node g n \<Longrightarrow> map_of temp (m, n) = map_of (pb_ltf (built g)) (edge_source g m n)"
    "(m, n) \<in> flow g \<Longrightarrow> n \<in> P \<Longrightarrow> takes_over g m n \<Longrightarrow> \<exists>p<length mats. map_of temp (m, n) = Some p \<and>
        length (pb_mats (built g)) \<le> p \<and> mats ! p = edge_matrix g m n"
    "inj_on (map_of temp) {(m, n) \<in> flow g. n \<in> P \<and> takes_over g m n}"
    "\<exists>new. mats = pb_mats (built g) @ new"
  using assms unfolding joined_def by blast+

lemma joined_skip:
  assumes "joined g P temp mats" "in_of g key = [] \<or> \<not> multi_node g key"
  shows "joined g (insert key P) temp mats"
proof -
  have k: "(m, key) \<notin> flow g \<or> \<not> multi_node g key" for m using assms(2) by (auto simp: flow_def)
  then have "{(m, n) \<in> flow g. n \<in> insert key P \<and> multi_node g n} = {(m, n) \<in> flow g. n \<in> P \<and> multi_node g n}"
    "{(m, n) \<in> flow g. n \<in> insert key P \<and> takes_over g m n} = {(m, n) \<in> flow g. n \<in> P \<and> takes_over g m n}"
    by (auto simp: takes_over_def)
  moreover have "(\<forall>(m, n)\<in>plain g. n \<in> insert key P \<and> multi_node g n \<longrightarrow> R m n) \<longleftrightarrow> (\<forall>(m, n)\<in>plain g. n \<in> P \<and> multi_node g n \<longrightarrow> R m n)"
    "(\<forall>(m, n)\<in>flow g. n \<in> insert key P \<and> takes_over g m n \<longrightarrow> R m n) \<longleftrightarrow> (\<forall>(m, n)\<in>flow g. n \<in> P \<and> takes_over g m n \<longrightarrow> R m n)" for R
    using k by (fastforce simp: takes_over_def plain_def)+
  ultimately show ?thesis using assms(1) by (simp only: joined_def simp_thms) blast
qed

lemma joined_multi:
  assumes g: "tuner_ok g" and j: "joined g P temp mats" and k: "key \<in> keys g" "key \<notin> P" "multi_node g key"
    and i: "in_of g key = t # others"
  defines "temp' \<equiv> fold (\<lambda>m. AList.update (m, key) (the (map_of (pb_ltf (built g)) (m, t)))) others (AList.update (t, key) (length mats) temp)"
  shows "joined g (insert key P) temp' (mats @ [edge_matrix g t key])"
proof -
  have flow: "(m, key) \<in> flow g \<longleftrightarrow> m = t \<or> m \<in> set others" for m using k i by (auto simp: flow_def)
  have t: "t \<notin> set others" using tuner_okD(4) [OF g k(1)] i by (simp add: node_ok_def)
  have over: "takes_over g m key \<longleftrightarrow> m = t" for m using k i by (simp add: takes_over_def)
  have at: "map_of temp' (a, b) = (if b = key \<and> a \<in> set others then Some (the (map_of (pb_ltf (built g)) (a, t)))
      else if (a, b) = (t, key) then Some (length mats) else map_of temp (a, b))" for a b
    unfolding temp'_def map_of_fold_update by (simp add: update_conv')
  then have other: "map_of temp' (a, b) = map_of temp (a, b)" if "b \<noteq> key" for a b using that by simp
  have new: "map_of temp' (t, key) = Some (length mats)" using at t by simp
  note J = joinedD [OF j]
  show ?thesis unfolding joined_def
  proof (intro conjI)
    show "distinct (map fst temp')" unfolding temp'_def by (intro distinct_fold_update distinct_update J(1))
    have "(a, b) \<in> dom (map_of temp') \<longleftrightarrow> (a, b) \<in> flow g \<and> (b = key \<or> b \<in> P) \<and> multi_node g b" for a b
    proof (cases "b = key")
      case True
      have "(a, key) \<notin> dom (map_of temp)" using k(2) J(2) by simp
      then show ?thesis using True k(3) at flow by (auto simp: dom_def)
    next
      case False
      then show ?thesis using J(2) by (auto simp: dom_def other [OF False])
    qed
    then show "dom (map_of temp') = {(m, n) \<in> flow g. n \<in> insert key P \<and> multi_node g n}" by auto
    show "\<forall>(m, n)\<in>plain g. n \<in> insert key P \<and> multi_node g n \<longrightarrow> map_of temp' (m, n) = map_of (pb_ltf (built g)) (edge_source g m n)"
    proof (intro ballI, clarify)
      fix m n assume p: "(m, n) \<in> plain g" "n \<in> insert key P" "multi_node g n"
      show "map_of temp' (m, n) = map_of (pb_ltf (built g)) (edge_source g m n)"
      proof (cases "n = key")
        case True
        obtain q where "map_of (pb_ltf (built g)) (edge_source g m n) = Some q" using ltf_known [OF pairs_okD(3) [OF g p(1)]] by metis
        moreover have "m \<in> set others" using p(1) True flow over by (auto simp: plain_def)
        ultimately show ?thesis using True k(3) i at by (simp add: edge_source_def)
      qed (use p J(3) other in auto)
    qed
    show "\<forall>(m, n)\<in>flow g. n \<in> insert key P \<and> takes_over g m n \<longrightarrow>
      (\<exists>p<length (mats @ [edge_matrix g t key]). map_of temp' (m, n) = Some p \<and>
        length (pb_mats (built g)) \<le> p \<and> (mats @ [edge_matrix g t key]) ! p = edge_matrix g m n)"
    proof (intro ballI, clarify)
      fix m n assume p: "(m, n) \<in> flow g" "n \<in> insert key P" "takes_over g m n"
      show "\<exists>p<length (mats @ [edge_matrix g t key]). map_of temp' (m, n) = Some p \<and>
        length (pb_mats (built g)) \<le> p \<and> (mats @ [edge_matrix g t key]) ! p = edge_matrix g m n"
      proof (cases "n = key")
        case True
        then show ?thesis using p(3) over new J(6) by auto
      next
        case False
        then obtain q where "q < length mats" "map_of temp (m, n) = Some q" "length (pb_mats (built g)) \<le> q" "mats ! q = edge_matrix g m n"
          using J(4) [OF p(1)] p by blast
        then show ?thesis using other [OF False] by (auto simp: nth_append intro!: exI [of _ q])
      qed
    qed
    have "inj_on (map_of temp') {(m, n) \<in> flow g. n \<in> P \<and> takes_over g m n}"
      using J(5) k(2) by (subst inj_on_cong [of _ _ "map_of temp"]) (auto intro!: other)
    moreover have fresh: "map_of temp' (m, n) \<noteq> Some (length mats)" if "(m, n) \<in> flow g" "n \<in> P" "takes_over g m n" for m n
    proof -
      have "n \<noteq> key" using that(2) k(2) by auto
      then show ?thesis using J(4) [OF that] other [of n m] by auto
    qed
    moreover have "{(m, n) \<in> flow g. n \<in> insert key P \<and> takes_over g m n} = insert (t, key) {(m, n) \<in> flow g. n \<in> P \<and> takes_over g m n}"
      using over flow by auto
    moreover have "Some (length mats) \<notin> map_of temp' ` ({(m, n) \<in> flow g. n \<in> P \<and> takes_over g m n} - {(t, key)})"
    proof
      assume "Some (length mats) \<in> map_of temp' ` ({(m, n) \<in> flow g. n \<in> P \<and> takes_over g m n} - {(t, key)})"
      then obtain x where x: "Some (length mats) = map_of temp' x" "x \<in> {(m, n) \<in> flow g. n \<in> P \<and> takes_over g m n}" by blast
      then show False using fresh [of "fst x" "snd x"] by (cases x) simp
    qed
    ultimately show "inj_on (map_of temp') {(m, n) \<in> flow g. n \<in> insert key P \<and> takes_over g m n}"
      by (simp only: inj_on_insert new simp_thms)
    show "\<exists>new. mats @ [edge_matrix g t key] = pb_mats (built g) @ new" using J(6) by auto
  qed
qed

lemma joined_fold:
  assumes g: "tuner_ok g" and d: "length (gt_node_list g) \<le> depth"
  shows "set xs \<subseteq> set (gt_in_nodes g) \<Longrightarrow> distinct (map fst xs) \<Longrightarrow> fst ` set xs \<inter> P = {} \<Longrightarrow> joined g P temp mats \<Longrightarrow>
    \<exists>temp' mats'. foldE (multi_edges depth g (built g)) (temp, mats) xs = Inr (temp', mats') \<and> joined g (fst ` set xs \<union> P) temp' mats'"
proof (induction xs arbitrary: P temp mats)
  case (Cons x xs)
  obtain key where x: "x = (key, in_of g key)" "key \<in> keys g"
    using Cons.prems(1) in_of_at [OF tuner_okD(2) [OF g]] by (cases x) (force simp: keys_def)
  have "\<exists>temp1 mats1. multi_edges depth g (built g) (temp, mats) (key, in_of g key) = Inr (temp1, mats1) \<and> joined g (insert key P) temp1 mats1"
  proof (cases "in_of g key = [] \<or> \<not> multi_node g key")
    case True
    then show ?thesis using joined_skip [OF Cons.prems(4) True] multi_edges_step [OF g x(2) d, of temp mats] by (auto split: list.splits)
  next
    case False
    then obtain t others where "in_of g key = t # others" "multi_node g key" by (cases "in_of g key") auto
    then show ?thesis using joined_multi [OF g Cons.prems(4) x(2)] Cons.prems(3) multi_edges_step [OF g x(2) d, of temp mats] by (simp add: x(1))
  qed
  then obtain temp1 mats1 where s: "multi_edges depth g (built g) (temp, mats) x = Inr (temp1, mats1)" "joined g (insert key P) temp1 mats1"
    by (auto simp: x(1))
  have "fst ` set xs \<inter> insert key P = {}" using Cons.prems(2,3) by (auto simp: x(1))
  then show ?case using Cons.IH [OF _ _ _ s(2)] Cons.prems(1,2) s(1) by (simp add: x(1))
qed simp

lemma joined_start: "joined g {} [] (pb_mats (built g))"
  by (simp add: joined_def)

subsection \<open>Matrices read backwards\<close>

definition flipped :: "rat list list \<Rightarrow> rat list list" where
  "flipped m = map (\<lambda>i. map (\<lambda>row. row ! i) m) [0..<length (hd m)]"

lemma reverse_rows:
  "\<forall>row\<in>set rows. length row = l \<Longrightarrow> length acc = l \<Longrightarrow>
   foldE (\<lambda>acc row. foldE (\<lambda>acc (j, c). bindE (nthE acc j) (\<lambda>col. Inr (acc[j := col @ [c]]))) acc (enumerate 0 row)) acc rows =
     Inr (map (\<lambda>i. acc ! i @ map (\<lambda>row. row ! i) rows) [0..<l])"
proof (induction rows arbitrary: acc)
  case Nil
  then show ?case by (auto intro!: nth_equalityI)
next
  case (Cons row rows)
  have "foldE (\<lambda>acc (j, c). bindE (nthE acc j) (\<lambda>col. Inr (acc[j := col @ [c]]))) acc (enumerate 0 row) = Inr (map (\<lambda>i. acc ! i @ [row ! i]) [0..<l])"
    using Cons.prems by (subst update_fold) (auto intro!: nth_equalityI)
  then show ?case using Cons by simp
qed

lemma reverse_matrix_ok:
  assumes "shaped m k l" "0 < k"
  shows "reverse_matrix m = Inr (flipped m)" "length (hd m) = l"
proof -
  obtain row rows where m: "m = row # rows" using assms by (cases m) (auto simp: shaped_def)
  then show "length (hd m) = l" using assms(1) by (simp add: shaped_def)
  have "\<forall>row\<in>set m. length row = l" using assms(1) by (simp add: shaped_def)
  from reverse_rows [OF this, of "replicate l []"] show "reverse_matrix m = Inr (flipped m)"
    using m assms(1) by (simp add: reverse_matrix_def flipped_def shaped_def)
qed

lemma flipped_ok:
  assumes "shaped m k l" "0 < k"
  shows "shaped (flipped m) l k" "j < l \<Longrightarrow> i < k \<Longrightarrow> flipped m ! j ! i = m ! i ! j"
    "row \<in> set (flipped m) \<Longrightarrow> v \<in> set row \<Longrightarrow> \<exists>r\<in>set m. v \<in> set r"
proof -
  have f: "flipped m = map (\<lambda>i. map (\<lambda>row. row ! i) m) [0..<l]" unfolding flipped_def reverse_matrix_ok(2) [OF assms] ..
  have m: "length m = k" "\<And>r. r \<in> set m \<Longrightarrow> length r = l" using assms(1) by (simp_all add: shaped_def)
  show "shaped (flipped m) l k" using m(1) by (auto simp: f shaped_def)
  show "flipped m ! j ! i = m ! i ! j" if "j < l" "i < k" using that m(1) by (simp add: f)
  show "\<exists>r\<in>set m. v \<in> set r" if "row \<in> set (flipped m)" "v \<in> set row" using that m(2) by (force simp: f)
qed

lemma put_all:
  "distinct (map fst kvs) \<Longrightarrow>
   \<exists>L. fold (\<lambda>(key, m) s. put_matrix key m s) kvs s = s\<lparr>pb_ltf := L, pb_mats := pb_mats s @ map snd kvs\<rparr> \<and>
     (\<forall>i<length kvs. map_of L (fst (kvs ! i)) = Some (length (pb_mats s) + i)) \<and>
     (\<forall>k. k \<notin> fst ` set kvs \<longrightarrow> map_of L k = map_of (pb_ltf s) k)"
proof (induction kvs rule: rev_induct)
  case Nil
  then show ?case by (intro exI [of _ "pb_ltf s"]) simp
next
  case (snoc x xs)
  then obtain L where L: "fold (\<lambda>(key, m) s. put_matrix key m s) xs s = s\<lparr>pb_ltf := L, pb_mats := pb_mats s @ map snd xs\<rparr>"
    "\<forall>i<length xs. map_of L (fst (xs ! i)) = Some (length (pb_mats s) + i)"
    "\<forall>k. k \<notin> fst ` set xs \<longrightarrow> map_of L k = map_of (pb_ltf s) k" by auto
  have x: "fst (xs ! i) \<noteq> fst x" if "i < length xs" for i using snoc.prems nth_mem [OF that] by (force simp: image_iff)
  show ?case
    using L x by (intro exI [of _ "AList.update (fst x) (length (pb_mats s) + length xs) L"])
      (auto simp: put_matrix_def update_conv' nth_append less_Suc_eq split: prod.splits)
qed

lemma reverse_edges_ok:
  assumes d: "distinct (map fst (pb_ltf s))"
    and r: "\<And>k p. (k, p) \<in> set (pb_ltf s) \<Longrightarrow> p < length (pb_mats s) \<and> (\<exists>k l. 0 < k \<and> shaped (pb_mats s ! p) k l)"
  obtains L where "reverse_edges s = Inr (s\<lparr>pb_ltf := L, pb_mats := pb_mats s @ map (\<lambda>(k, p). flipped (pb_mats s ! p)) (pb_ltf s)\<rparr>)"
    "\<And>i a b p. i < length (pb_ltf s) \<Longrightarrow> pb_ltf s ! i = ((a, b), p) \<Longrightarrow> map_of L (b, a) = Some (length (pb_mats s) + i)"
    "\<And>a b. (b, a) \<notin> fst ` set (pb_ltf s) \<Longrightarrow> map_of L (a, b) = map_of (pb_ltf s) (a, b)"
proof -
  let ?f = "\<lambda>((a, b), p). ((b, a), flipped (pb_mats s ! p))"
  let ?kvs = "map ?f (pb_ltf s)"
  have m: "mapE (\<lambda>((a, b), p). bindE (nthE (pb_mats s) p) (\<lambda>m. bindE (reverse_matrix m) (\<lambda>r. Inr ((b, a), r)))) (pb_ltf s) = Inr ?kvs"
  proof (intro mapE_map_Inr)
    fix x assume x: "x \<in> set (pb_ltf s)"
    obtain a b p where e: "x = ((a, b), p)" by (metis surj_pair)
    obtain k l where "0 < k" "shaped (pb_mats s ! p) k l" "p < length (pb_mats s)" using r x e by blast
    then show "(\<lambda>((a, b), p). bindE (nthE (pb_mats s) p) (\<lambda>m. bindE (reverse_matrix m) (\<lambda>r. Inr ((b, a), r)))) x = Inr (?f x)"
      using reverse_matrix_ok(1) by (simp add: e)
  qed
  have "map fst ?kvs = map prod.swap (map fst (pb_ltf s))" by auto
  then have "distinct (map fst ?kvs)" by (simp only: distinct_map [of prod.swap] inj_on_subset [OF inj_swap subset_UNIV] d simp_thms)
  from put_all [OF this, of s] obtain L where L: "fold (\<lambda>(key, m) s. put_matrix key m s) ?kvs s = s\<lparr>pb_ltf := L, pb_mats := pb_mats s @ map snd ?kvs\<rparr>"
    "\<forall>i<length ?kvs. map_of L (fst (?kvs ! i)) = Some (length (pb_mats s) + i)"
    "\<forall>k. k \<notin> fst ` set ?kvs \<longrightarrow> map_of L k = map_of (pb_ltf s) k" by blast
  have k: "(a, b) \<in> fst ` set ?kvs \<longleftrightarrow> (b, a) \<in> fst ` set (pb_ltf s)" for a b by force
  have "map snd ?kvs = map (\<lambda>(k, p). flipped (pb_mats s ! p)) (pb_ltf s)" by auto
  then have "reverse_edges s = Inr (s\<lparr>pb_ltf := L, pb_mats := pb_mats s @ map (\<lambda>(k, p). flipped (pb_mats s ! p)) (pb_ltf s)\<rparr>)"
    unfolding reverse_edges_def m bindE_Inr L(1) by (simp only:)
  moreover have "map_of L (b, a) = Some (length (pb_mats s) + i)" if "i < length (pb_ltf s)" "pb_ltf s ! i = ((a, b), p)" for i a b p
    using L(2) [rule_format, of i] that by simp
  ultimately show thesis using that L(3) k by blast
qed

subsection \<open>The prepared state\<close>

lemma ltf_built:
  assumes "tuner_ok g" "map_of (pb_ltf (built g)) k = Some p"
  shows "p < length (pb_mats (built g))" "map_of (gt_interlayer_cost g) k = Some (pb_mats (built g) ! p)"
    "gt_interlayer_cost g ! p = (k, pb_mats (built g) ! p)"
proof -
  have "(k, p) \<in> set (zip (map fst (gt_interlayer_cost g)) [0..<length (gt_interlayer_cost g)])"
    using map_of_SomeD [OF assms(2)] by (simp add: enumerate_keys_def)
  then have p: "p < length (gt_interlayer_cost g)" "fst (gt_interlayer_cost g ! p) = k" by (auto simp: in_set_zip)
  then show "p < length (pb_mats (built g))" "gt_interlayer_cost g ! p = (k, pb_mats (built g) ! p)" by (auto simp: prod_eq_iff)
  then show "map_of (gt_interlayer_cost g) k = Some (pb_mats (built g) ! p)"
    using tuner_okD(3) [OF assms(1)] p(1) by (metis map_of_is_SomeI nth_mem)
qed

lemma ltf_inj:
  assumes "tuner_ok g" "map_of (pb_ltf (built g)) k = Some p" "map_of (pb_ltf (built g)) l = Some p"
  shows "k = l"
  using ltf_built(3) [OF assms(1,2)] ltf_built(3) [OF assms(1,3)] by simp

text \<open>The dictionary after the update by the edges of the multi-input nodes.\<close>

definition entered :: "'c gtuner \<Rightarrow> (nat \<times> nat, nat) dict \<Rightarrow> (nat \<times> nat, nat) dict" where
  "entered g temp = AList.updates (map fst temp) (map snd temp) (pb_ltf (built g))"

lemma map_of_entered:
  assumes "distinct (map fst temp)"
  shows "map_of (entered g temp) k = (case map_of temp k of Some p \<Rightarrow> Some p | None \<Rightarrow> map_of (pb_ltf (built g)) k)"
proof -
  have "map_of (entered g temp) = map_of (pb_ltf (built g)) ++ map_of (rev temp)"
    by (simp add: entered_def updates_conv' map_upds_def zip_map_fst_snd)
  moreover have "map_of (rev temp) = map_of temp"
    using assms by (intro map_of_inject_set [THEN iffD2]) (simp_all add: rev_map [symmetric])
  ultimately show ?thesis by (simp add: map_add_def split: option.splits)
qed

lemma entered_flow:
  assumes g: "tuner_ok g" and j: "joined g (keys g) temp mats"
  shows "(m, n) \<in> plain g \<Longrightarrow> map_of (entered g temp) (m, n) = map_of (pb_ltf (built g)) (edge_source g m n)"
    and "(m, n) \<in> flow g \<Longrightarrow> takes_over g m n \<Longrightarrow> map_of (entered g temp) (m, n) = map_of temp (m, n)"
proof -
  note J = joinedD [OF j] and at = map_of_entered [OF joinedD(1) [OF j]]
  assume p: "(m, n) \<in> plain g"
  then have n: "n \<in> keys g" by (auto simp: plain_def flow_def)
  show "map_of (entered g temp) (m, n) = map_of (pb_ltf (built g)) (edge_source g m n)"
  proof (cases "multi_node g n")
    case True
    obtain q where "map_of (pb_ltf (built g)) (edge_source g m n) = Some q" using ltf_known [OF pairs_okD(3) [OF g p]] by metis
    then show ?thesis using J(3) [OF p n True] by (simp add: at)
  next
    case False
    then have "map_of temp (m, n) = None" using J(2) by (auto simp: dom_def)
    then show ?thesis using False by (simp add: at edge_source_def)
  qed
next
  assume "(m, n) \<in> flow g" "takes_over g m n"
  moreover from this have "n \<in> keys g" by (simp add: flow_def)
  ultimately show "map_of (entered g temp) (m, n) = map_of temp (m, n)"
    using joinedD(4) [OF j, of m n] by (auto simp: map_of_entered [OF joinedD(1) [OF j]])
qed

lemma entered_edge:
  assumes g: "tuner_ok g" and j: "joined g (keys g) temp mats" and f: "(m, n) \<in> flow g"
  shows "\<exists>p<length mats. map_of (entered g temp) (m, n) = Some p \<and> mats ! p = edge_matrix g m n \<and>
     (takes_over g m n \<longleftrightarrow> length (pb_mats (built g)) \<le> p)"
proof (cases "takes_over g m n")
  case True
  moreover have "n \<in> keys g" using f by (simp add: flow_def)
  ultimately show ?thesis using joinedD(4) [OF j f] entered_flow(2) [OF g j f] by auto
next
  case False
  then have p: "(m, n) \<in> plain g" using f by (simp add: plain_def)
  obtain q where q: "map_of (pb_ltf (built g)) (edge_source g m n) = Some q" using ltf_known [OF pairs_okD(3) [OF g p]] by metis
  note b = ltf_built [OF g q]
  obtain new where "mats = pb_mats (built g) @ new" using joinedD(6) [OF j] by blast
  then have "q < length mats" "mats ! q = pb_mats (built g) ! q" using b(1) by (simp_all add: nth_append)
  then show ?thesis using False b(1,2) q entered_flow(1) [OF g j p] by (auto simp: edge_matrix_def intro!: exI [of _ q])
qed

lemma entered_inj:
  assumes g: "tuner_ok g" and j: "joined g (keys g) temp mats"
  shows "inj_on (map_of (entered g temp)) (flow g)"
proof (rule inj_onI, clarify)
  fix m n m' n' assume f: "(m, n) \<in> flow g" "(m', n') \<in> flow g" and e: "map_of (entered g temp) (m, n) = map_of (entered g temp) (m', n')"
  have k: "n \<in> keys g" "n' \<in> keys g" using f by (simp_all add: flow_def)
  have o: "takes_over g m n \<longleftrightarrow> takes_over g m' n'" using entered_edge [OF g j f(1)] entered_edge [OF g j f(2)] e by auto
  show "m = m' \<and> n = n'"
  proof (cases "takes_over g m n")
    case True
    then have "map_of temp (m, n) = map_of temp (m', n')" using entered_flow(2) [OF g j f(1)] entered_flow(2) [OF g j f(2)] o e by simp
    then show ?thesis using inj_onD [OF joinedD(5) [OF j], of "(m, n)" "(m', n')"] f k True o by simp
  next
    case False
    then have p: "(m, n) \<in> plain g" "(m', n') \<in> plain g" using f o by (simp_all add: plain_def)
    obtain q where "map_of (pb_ltf (built g)) (edge_source g m n) = Some q" using ltf_known [OF pairs_okD(3) [OF g p(1)]] by metis
    moreover from this have "map_of (pb_ltf (built g)) (edge_source g m' n') = Some q"
      using e entered_flow(1) [OF g j p(1)] entered_flow(1) [OF g j p(2)] by simp
    ultimately have "edge_source g m n = edge_source g m' n'" by (rule ltf_inj [OF g])
    then show ?thesis using unsharedD(1) [OF g _ p] by blast
  qed
qed

lemma distinct_entered: "tuner_ok g \<Longrightarrow> distinct (map fst (entered g temp))"
  unfolding entered_def using keys_enumerate tuner_okD(3) by (intro distinct_updates) (simp add: keys_enumerate)

lemma entered_keys:
  assumes "joined g (keys g) temp mats"
  shows "fst ` set (entered g temp) \<subseteq> flow g \<union> fst ` set (gt_interlayer_cost g)"
proof
  fix k assume "k \<in> fst ` set (entered g temp)"
  then have "map_of (entered g temp) k \<noteq> None" by (simp add: map_of_eq_None_iff)
  then have "k \<in> dom (map_of temp) \<or> map_of (pb_ltf (built g)) k \<noteq> None"
    by (auto simp: map_of_entered [OF joinedD(1) [OF assms]] split: option.splits)
  moreover have "fst ` set (enumerate_keys (gt_interlayer_cost g)) = fst ` set (gt_interlayer_cost g)" by (metis keys_enumerate image_set)
  ultimately show "k \<in> flow g \<union> fst ` set (gt_interlayer_cost g)"
    using joinedD(2) [OF assms] by (auto simp: map_of_eq_None_iff)
qed

lemma entered_matrix:
  assumes g: "tuner_ok g" and j: "joined g (keys g) temp mats" and k: "(k, p) \<in> set (entered g temp)"
  shows "p < length mats \<and> (\<exists>r l. 0 < r \<and> shaped (mats ! p) r l)"
proof -
  have at: "map_of (entered g temp) k = Some p" using distinct_entered [OF g] k by (simp add: map_of_is_SomeI)
  show ?thesis
  proof (cases "map_of temp k")
    case None
    then have q: "map_of (pb_ltf (built g)) k = Some p" using at by (simp add: map_of_entered [OF joinedD(1) [OF j]] del: built_fields)
    note b = ltf_built [OF g q]
    obtain new where "mats = pb_mats (built g) @ new" using joinedD(6) [OF j] by blast
    then have m: "p < length mats" "mats ! p = pb_mats (built g) ! p" using b(1) by (simp_all add: nth_append)
    moreover have "(k, mats ! p) \<in> set (gt_interlayer_cost g)" using map_of_SomeD [OF b(2)] m(2) by simp
    ultimately show ?thesis using pairs_okD(4,5) [OF g] by (metis length_greater_0_conv)
  next
    case (Some q)
    then have "k \<in> flow g" using joinedD(2) [OF j] by (metis (no_types, lifting) case_prodD case_prodE domI mem_Collect_eq)
    then obtain m n where f: "(m, n) \<in> flow g" "k = (m, n)" by (cases k) auto
    have "0 < length (tcosts g m)" using flow_less [OF g f(1)] tuner_okD(4) [OF g, of m] by (simp add: node_ok_def)
    then show ?thesis using entered_edge [OF g j f(1)] pairs_okD(1) [OF g f(1)] at f(2) by auto
  qed
qed

lemma prepare_run_edges:
  assumes g: "tuner_ok g" and d: "length (gt_node_list g) \<le> depth"
  obtains L M where "prepare_run depth g (built g) = Inr ((built g)\<lparr>pb_ltf := L, pb_mats := M\<rparr>)"
    "\<And>m n. (m, n) \<in> flow g \<Longrightarrow> \<exists>p<length M. map_of L (m, n) = Some p \<and> M ! p = edge_matrix g m n"
    "\<And>m n. (m, n) \<in> flow g \<Longrightarrow> \<exists>p<length M. map_of L (n, m) = Some p \<and> M ! p = flipped (edge_matrix g m n)"
    "inj_on (map_of L) (flow g \<union> (flow g)\<inverse>)"
proof -
  obtain temp mats where t: "foldE (multi_edges depth g (built g)) ([], pb_mats (built g)) (gt_in_nodes g) = Inr (temp, mats)"
    and j: "joined g (keys g) temp mats"
    using joined_fold [OF g d order_refl tuner_okD(2) [OF g] _ joined_start] by (auto simp: keys_def)
  let ?A = "entered g temp" and ?s = "(built g)\<lparr>pb_ltf := entered g temp, pb_mats := mats\<rparr>"
  let ?M = "mats @ map (\<lambda>(k, p). flipped (mats ! p)) ?A"
  obtain L where L: "reverse_edges ?s = Inr (?s\<lparr>pb_ltf := L, pb_mats := ?M\<rparr>)"
    "\<And>i a b p. i < length ?A \<Longrightarrow> ?A ! i = ((a, b), p) \<Longrightarrow> map_of L (b, a) = Some (length mats + i)"
    "\<And>a b. (b, a) \<notin> fst ` set ?A \<Longrightarrow> map_of L (a, b) = map_of ?A (a, b)"
  proof (rule reverse_edges_ok [of ?s])
    show "distinct (map fst (pb_ltf ?s))" using distinct_entered [OF g] by simp
    show "p < length (pb_mats ?s) \<and> (\<exists>k l. 0 < k \<and> shaped (pb_mats ?s ! p) k l)" if "(k, p) \<in> set (pb_ltf ?s)" for k p
      using entered_matrix [OF g j] that by simp
  qed (use that in simp)
  have "prepare_run depth g (built g) = Inr ((built g)\<lparr>pb_ltf := L, pb_mats := ?M\<rparr>)"
    using t L(1) by (simp add: prepare_run_def entered_def)
  moreover have fwd: "map_of L (m, n) = map_of ?A (m, n)" if "(m, n) \<in> flow g" for m n
    using unsharedD(2) [OF g, of m n] entered_keys [OF j] that by (intro L(3)) blast
  then have "\<exists>p<length ?M. map_of L (m, n) = Some p \<and> ?M ! p = edge_matrix g m n" if "(m, n) \<in> flow g" for m n
    using entered_edge [OF g j that] that by (fastforce simp: nth_append)
  moreover have bwd: "\<exists>i<length ?A. \<exists>p. ?A ! i = ((m, n), p) \<and> map_of L (n, m) = Some (length mats + i) \<and> mats ! p = edge_matrix g m n"
    if f: "(m, n) \<in> flow g" for m n
  proof -
    obtain p where p: "map_of ?A (m, n) = Some p" "mats ! p = edge_matrix g m n" using entered_edge [OF g j f] by blast
    then obtain i where "i < length ?A" "?A ! i = ((m, n), p)" by (metis in_set_conv_nth map_of_SomeD)
    then show ?thesis using L(2) p(2) by blast
  qed
  then have "\<exists>p<length ?M. map_of L (n, m) = Some p \<and> ?M ! p = flipped (edge_matrix g m n)" if "(m, n) \<in> flow g" for m n
    using bwd [OF that] by (force simp: nth_append)
  moreover have "inj_on (map_of L) (flow g \<union> (flow g)\<inverse>)"
  proof (subst inj_on_Un, intro conjI)
    show "inj_on (map_of L) (flow g)" using entered_inj [OF g j] fwd by (subst inj_on_cong [of _ _ "map_of ?A"]) auto
    show "inj_on (map_of L) ((flow g)\<inverse>)"
    proof (rule inj_onI, clarify)
      fix n m n' m' assume "(m, n) \<in> flow g" "(m', n') \<in> flow g" "map_of L (n, m) = map_of L (n', m')"
      then show "n = n' \<and> m = m'" using bwd [of m n] bwd [of m' n'] by auto
    qed
    have "map_of L (m, n) \<noteq> map_of L (n', m')" if "(m, n) \<in> flow g" "(m', n') \<in> flow g" for m n m' n'
      using entered_edge [OF g j that(1)] fwd [OF that(1)] bwd [OF that(2)] by auto
    then have "map_of L x \<noteq> map_of L y" if "x \<in> flow g" "y \<in> (flow g)\<inverse>" for x y using that by (cases x, cases y) auto
    then show "map_of L ` (flow g - (flow g)\<inverse>) \<inter> map_of L ` ((flow g)\<inverse> - flow g) = {}" by blast
  qed
  ultimately show thesis using that by blast
qed

subsection \<open>Its invariant and its objective\<close>

lemma finite_flow: "finite (flow g)"
  by (rule finite_subset [of _ "(\<Union>n\<in>keys g. set (in_of g n)) \<times> keys g"]) (auto simp: flow_def keys_def)

lemma built_with:
  assumes "s = (built g)\<lparr>pb_ltf := L, pb_mats := M\<rparr>"
  shows "live s = keys g" "nodes s = keys g" "pb_stack s = []" "pb_optimal s = []" "pb_buckets s = pb_buckets (built g)"
    "pb_node_degree s = pb_node_degree (built g)" "pb_max_degree s = pb_max_degree (built g)" "pb_ltf s = L" "pb_mats s = M"
    "n \<in> keys g \<Longrightarrow> pb_adj s n = Some (links g n)" "n \<in> keys g \<Longrightarrow> pb_record_cost s n = Some (tcosts g n)"
    "n \<in> keys g \<Longrightarrow> ncand s n = length (tcosts g n)"
  using built_live [of g] by (simp_all add: assms live_def nodes_def ncand_def)

lemma built_nbrs:
  assumes "tuner_ok g" "s = (built g)\<lparr>pb_ltf := L, pb_mats := M\<rparr>" "n \<in> keys g"
  shows "nbrs s n = {m. (m, n) \<in> flow g \<or> (n, m) \<in> flow g}"
  using built_with(10) [OF assms(2,3)] set_links [OF tuner_okD(2) [OF assms(1)] assms(3)] by (simp add: nbrs_def)

lemma prepared_edges:
  assumes g: "tuner_ok g" and s: "s = (built g)\<lparr>pb_ltf := L, pb_mats := M\<rparr>"
    and fwd: "\<And>m n. (m, n) \<in> flow g \<Longrightarrow> \<exists>p<length M. map_of L (m, n) = Some p \<and> M ! p = edge_matrix g m n"
    and bwd: "\<And>m n. (m, n) \<in> flow g \<Longrightarrow> \<exists>p<length M. map_of L (n, m) = Some p \<and> M ! p = flipped (edge_matrix g m n)"
    and f: "(m, n) \<in> flow g"
  shows "edge_ok s m n" "edge_ok s n m" "ecost s m n i j = edge_matrix g m n ! i ! j"
    "i < length (tcosts g m) \<Longrightarrow> j < length (tcosts g n) \<Longrightarrow> ecost s n m j i = edge_matrix g m n ! i ! j"
proof -
  note w = built_with [OF s]
  have k: "m \<in> keys g" "n \<in> keys g" using flow_less [OF g f] by auto
  note c = w(12) [OF k(1)] w(12) [OF k(2)]
  note e = pairs_okD(1,2) [OF g f]
  have pos: "0 < length (tcosts g m)" using tuner_okD(4) [OF g k(1)] by (simp add: node_ok_def)
  note r = flipped_ok [OF e(1) pos]
  obtain p q where p: "p < length M" "map_of L (m, n) = Some p" "M ! p = edge_matrix g m n"
    and q: "q < length M" "map_of L (n, m) = Some q" "M ! q = flipped (edge_matrix g m n)" using fwd [OF f] bwd [OF f] by blast
  show "edge_ok s m n" unfolding edge_ok_def w(8,9) c using p e by (intro exI [of _ p]) (auto simp: shaped_def)
  show "edge_ok s n m" unfolding edge_ok_def w(8,9) c
  proof (intro exI [of _ q] conjI ballI)
    fix row assume row: "row \<in> set (M ! q)"
    then show "length row = length (tcosts g m)" using q(3) r(1) by (simp add: shaped_def)
    fix v assume "v \<in> set row"
    then show "0 \<le> v" using row q(3) r(3) e(2) by metis
  qed (use q r(1) in \<open>simp_all add: shaped_def\<close>)
  show "ecost s m n i j = edge_matrix g m n ! i ! j" using p by (simp add: ecost_def w)
  show "ecost s n m j i = edge_matrix g m n ! i ! j" if "i < length (tcosts g m)" "j < length (tcosts g n)"
    using q r(2) [OF that(2,1)] by (simp add: ecost_def w)
qed

lemma edges_prepared:
  assumes "tuner_ok g" "s = (built g)\<lparr>pb_ltf := L, pb_mats := M\<rparr>"
  shows "edges s = flow g \<union> (flow g)\<inverse>"
  using flow_less [OF assms(1)] built_nbrs [OF assms] by (auto simp: edges_def built_with(2) [OF assms(2)])

lemma objective_prepared:
  assumes g: "tuner_ok g" and s: "s = (built g)\<lparr>pb_ltf := L, pb_mats := M\<rparr>"
    and fwd: "\<And>m n. (m, n) \<in> flow g \<Longrightarrow> \<exists>p<length M. map_of L (m, n) = Some p \<and> M ! p = edge_matrix g m n"
    and bwd: "\<And>m n. (m, n) \<in> flow g \<Longrightarrow> \<exists>p<length M. map_of L (n, m) = Some p \<and> M ! p = flipped (edge_matrix g m n)"
    and c: "in_range g c"
  shows "state_total s c = graph_time g c"
proof -
  note w = built_with [OF s] and e = prepared_edges [OF g s fwd bwd] and edges = edges_prepared [OF g s]
  have "(\<Sum>n\<in>keys g. \<Sum>m\<in>nbrs s n. ecost s n m (c n) (c m)) = (\<Sum>(n, m)\<in>flow g \<union> (flow g)\<inverse>. ecost s n m (c n) (c m))"
  proof (subst sum.Sigma)
    show "\<forall>n\<in>keys g. finite (nbrs s n)" by (simp add: nbrs_def split: option.splits)
    show "(\<Sum>(n, m)\<in>(SIGMA n:keys g. nbrs s n). ecost s n m (c n) (c m)) = (\<Sum>(n, m)\<in>flow g \<union> (flow g)\<inverse>. ecost s n m (c n) (c m))"
      using edges by (intro sum.cong) (auto simp: edges_def w(2))
  qed (simp add: keys_def)
  also have "\<dots> = (\<Sum>(n, m)\<in>flow g. ecost s n m (c n) (c m)) + (\<Sum>(n, m)\<in>(flow g)\<inverse>. ecost s n m (c n) (c m))"
    using finite_flow [of g] by (intro sum.union_disjoint) (auto dest!: flow_less [OF g])
  also have "(\<Sum>(n, m)\<in>(flow g)\<inverse>. ecost s n m (c n) (c m)) = (\<Sum>(m, n)\<in>flow g. ecost s n m (c n) (c m))"
    by (rule sum.reindex_bij_witness [of _ prod.swap prod.swap]) auto
  also have "\<dots> = (\<Sum>(m, n)\<in>flow g. edge_matrix g m n ! c m ! c n)"
    using e(4) c flow_less [OF g] by (intro sum.cong) (auto simp: in_range_def)
  also have "(\<Sum>(n, m)\<in>flow g. ecost s n m (c n) (c m)) = (\<Sum>(m, n)\<in>flow g. edge_matrix g m n ! c m ! c n)"
    using e(3) by (intro sum.cong) auto
  finally show ?thesis by (simp add: state_total_def total_cost_def graph_time_def w(1) ncost_def w(11))
qed

lemma prepare_run_ok:
  assumes g: "tuner_ok g" and d: "length (gt_node_list g) \<le> depth"
  obtains s where "prepare_run depth g (built g) = Inr s" "pb_ok s" "pb_stack s = []" "nodes s = keys g"
    "\<And>n. n \<in> keys g \<Longrightarrow> ncand s n = length (tcosts g n)" "\<And>c. in_range g c \<Longrightarrow> state_total s c = graph_time g c"
proof -
  obtain L M where r: "prepare_run depth g (built g) = Inr ((built g)\<lparr>pb_ltf := L, pb_mats := M\<rparr>)"
    and fwd: "\<And>m n. (m, n) \<in> flow g \<Longrightarrow> \<exists>p<length M. map_of L (m, n) = Some p \<and> M ! p = edge_matrix g m n"
    and bwd: "\<And>m n. (m, n) \<in> flow g \<Longrightarrow> \<exists>p<length M. map_of L (n, m) = Some p \<and> M ! p = flipped (edge_matrix g m n)"
    and inj: "inj_on (map_of L) (flow g \<union> (flow g)\<inverse>)" using prepare_run_edges [OF g d] by metis
  define s where s: "s = (built g)\<lparr>pb_ltf := L, pb_mats := M\<rparr>"
  note w = built_with [OF s] and nb = built_nbrs [OF g s] and e = prepared_edges [OF g s fwd bwd]
  note edges = edges_prepared [OF g s]
  have "graph_ok s"
    unfolding graph_ok_def
  proof (intro conjI)
    show "bucketed (pb_buckets s) (pb_node_degree s)" unfolding w using built_bucketed [OF g] .
    show "stack_ok s" "choices_ok s" by (simp_all add: stack_ok_def choices_ok_def w)
    show "\<forall>n\<in>nodes s. \<exists>l. pb_adj s n = Some l \<and> distinct l" using distinct_links [OF g] by (simp add: w)
    show "\<forall>n\<in>live s. nbrs s n \<subseteq> live s - {n} \<and> (\<forall>m\<in>nbrs s n. n \<in> nbrs s m)"
      using flow_less [OF g] nb by (fastforce simp: w(1))
    show "\<forall>n\<in>nodes s. \<exists>r. pb_record_cost s n = Some r \<and> r \<noteq> [] \<and> (\<forall>v\<in>set r. 0 \<le> v)"
      using tuner_okD(4) [OF g] by (simp add: w node_ok_def)
    show "\<forall>(n, m)\<in>edges s. edge_ok s n m" unfolding edges using e(1,2) by blast
    show "\<forall>n\<in>live s. \<forall>m\<in>nbrs s n. \<forall>i<ncand s n. \<forall>j<ncand s m. ecost s n m i j = ecost s m n j i"
    proof (intro ballI allI impI)
      fix n m i j assume a: "n \<in> live s" "m \<in> nbrs s n" "i < ncand s n" "j < ncand s m"
      then have n: "n \<in> keys g" "(m, n) \<in> flow g \<or> (n, m) \<in> flow g" using nb by (auto simp: w(1))
      then have m: "m \<in> keys g" using flow_less [OF g] by blast
      show "ecost s n m i j = ecost s m n j i" using n(2) a(3,4) e(3,4) by (auto simp: w(12) [OF n(1)] w(12) [OF m])
    qed
    show "inj_on (map_of (pb_ltf s)) (edges s)" unfolding edges w(8) by (rule inj)
  qed
  moreover have "degree_ok s"
    using built_degree [of _ g] distinct_links [OF g] distinct_card
    by (fastforce simp: degree_ok_def w nbrs_def)
  moreover have "state_total s c = graph_time g c" if "in_range g c" for c
    by (rule objective_prepared [OF g s fwd bwd that])
  ultimately show thesis using that [of s] r s w by (simp add: pb_ok_def)
qed

end
