(* ===== verification/PBQP_Properties.thy ===== *)
theory PBQP_Properties
  imports PBQP_Problem
begin

section \<open>Correctness of the PBQP tuner\<close>

text \<open>
  What the passes of the PBQP tuner do for a whole graph, a graph on which the theorems are applied, and a
  graph on which the tuner fails.
\<close>

subsection \<open>From the solver to the graph\<close>

lemma run_result:
  assumes g: "tuner_ok g" and d: "length (gt_node_list g) \<le> depth"
  shows "pbqp_run depth g (built g) = Some (Inl RuntimeError) \<or>
    (\<exists>b. pbqp_run depth g (built g) = Some (Inr b) \<and> in_range g (chosen b) \<and> keys g \<subseteq> dom (map_of (pb_optimal b)) \<and>
       (pb_is_optimal b \<longrightarrow> (\<forall>c. in_range g c \<longrightarrow> min INVALID_LAYOUT_TIME (graph_time g (chosen b)) \<le> min INVALID_LAYOUT_TIME (graph_time g c))))"
proof -
  obtain s where s: "prepare_run depth g (built g) = Inr s" "pb_ok s" "pb_stack s = []" "nodes s = keys g"
    "\<And>n. n \<in> keys g \<Longrightarrow> ncand s n = length (tcosts g n)" "\<And>c. in_range g c \<Longrightarrow> state_total s c = graph_time g c"
    using prepare_run_ok [OF g d] by metis
  have v: "valid s = in_range g" by (auto simp: valid_def in_range_def s(4,5) fun_eq_iff)
  have r: "pbqp_run depth g (built g) = pbqp_solve s" by (simp add: pbqp_run_def s(1))
  have *: "in_range g (chosen b)" "keys g \<subseteq> dom (map_of (pb_optimal b))" if "assigned s b (nodes s)" for b
    using that by (auto simp: assigned_def in_range_def chosen_def s(4,5))
  have "min INVALID_LAYOUT_TIME (graph_time g (chosen b)) \<le> min INVALID_LAYOUT_TIME (graph_time g c)"
    if "pbqp_elim.optimal_for s (chosen b)" "in_range g c" for b c
    using that by (auto simp: pbqp_elim.optimal_for_def v capped_objective_def capped_def s(6))
  then show ?thesis using solve_result [OF s(2,3)] * unfolding r by blast
qed

subsection \<open>An example graph\<close>

text \<open>Two branches between a convolution and an addition, with a convolution behind it.\<close>

definition example_node :: "string option \<Rightarrow> string option \<Rightarrow> nat list \<Rightarrow> rat list option \<Rightarrow> unit tnode" where
  "example_node op name inputs costs =
     \<lparr>gn_op = op, gn_name = name, gn_tuple = False, gn_inputs = map (\<lambda>i. (i, 0, 0)) inputs, tn_shape = [], tn_topi_op = None,
      tn_workloads = None,
      tn_records = map_option (map (\<lambda>c. \<lparr>mr_workload = \<lparr>wl_name = [], wl_tensor = ([], []), wl_rest = []\<rparr>, mr_config = (), mr_costs = [c]\<rparr>)) costs\<rparr>"

definition example_inputs :: "(nat, nat list) dict" where
  "example_inputs = [(2, []), (4, [2]), (6, [2]), (7, [4, 6]), (9, [7])]"

definition example_tuner :: "unit gtuner" where
  "example_tuner =
     \<lparr>gt_node_list = [example_node None (Some ''data'') [] None, example_node None (Some ''w0'') [] None,
        example_node (Some ''conv'') None [0, 1] (Some [1, 2]), example_node None (Some ''w1'') [] None,
        example_node (Some ''conv'') None [2, 3] (Some [3, 1]), example_node None (Some ''w2'') [] None,
        example_node (Some ''conv'') None [2, 5] (Some [2, 2]), example_node (Some ''add'') None [4, 6] (Some [3, 1]),
        example_node None (Some ''w3'') [] None, example_node (Some ''conv'') None [7, 8] (Some [5, 4])],
      gt_input_names = [''data''], gt_target_ops = [''conv''], gt_max_sch_num = 20, gt_dtype = ''float32'',
      gt_in_nodes = example_inputs, gt_out_nodes = get_out_nodes example_inputs, gt_perf_records = Map.empty,
      gt_interlayer_cost = [((2, 4), [[0, 3], [1, 0]]), ((2, 6), [[0, 1], [2, 0]]), ((6, 4), [[0, 1], [1, 0]]), ((7, 9), [[0, 2], [2, 0]])]\<rparr>"

lemma example_keys: "keys example_tuner = {2, 4, 6, 7, 9}"
  by (auto simp: keys_def example_tuner_def example_inputs_def)

lemma example_multi: "\<not> multi_node example_tuner 2" "\<not> multi_node example_tuner 4" "\<not> multi_node example_tuner 6"
    "multi_node example_tuner 7" "\<not> multi_node example_tuner 9"
  by code_simp+

lemma example_in_of: "in_of example_tuner 2 = []" "in_of example_tuner 4 = [2]" "in_of example_tuner 6 = [2]"
    "in_of example_tuner 7 = [4, 6]" "in_of example_tuner 9 = [7]"
  by (simp_all add: in_of_def example_tuner_def example_inputs_def)

lemma example_flow: "flow example_tuner = {(2, 4), (2, 6), (4, 7), (6, 7), (7, 9)}"
  by (auto simp: flow_def example_keys example_in_of)

lemma example_plain: "plain example_tuner = {(2, 4), (2, 6), (6, 7), (7, 9)}"
  by (auto simp: plain_def example_flow takes_over_def example_multi example_in_of)

lemma example_ok: "tuner_ok example_tuner"
proof -
  have "ordered (gt_node_list example_tuner)" by code_simp
  moreover have "distinct (map fst (gt_in_nodes example_tuner))" "distinct (map fst (gt_interlayer_cost example_tuner))" by code_simp+
  moreover have "\<forall>n\<in>keys example_tuner. node_ok example_tuner n"
    unfolding example_keys ball_simps by (intro conjI TrueI) code_simp+
  moreover have "pairs_ok example_tuner" unfolding pairs_ok_def example_flow example_plain by (intro conjI) code_simp+
  moreover have "unshared example_tuner" unfolding unshared_def example_flow example_plain by (intro conjI) code_simp+
  ultimately show ?thesis by (simp add: tuner_ok_def)
qed

definition example_state :: pbqp where
  "example_state = (case bindE (mk_pbqp example_tuner) (prepare_run 10 example_tuner) of Inr s \<Rightarrow> s | Inl e \<Rightarrow> built example_tuner)"

lemma example_size: "length (gt_node_list example_tuner) \<le> 10"
  by code_simp

lemma example_state_ok: "pb_ok example_state"
proof -
  obtain s where "prepare_run 10 example_tuner (built example_tuner) = Inr s" "pb_ok s"
    using prepare_run_ok [OF example_ok example_size] by metis
  then show ?thesis by (simp add: example_state_def mk_pbqp_built [OF example_ok])
qed

lemma example_buckets: "pb_buckets example_state = [[], [9], [2, 4, 6], [7], []]"
  by code_simp

subsection \<open>The reductions\<close>

text \<open>
  [C5] The reductions of nodes with one and with two neighbours refine the elimination of a variable: in a
  well-formed state, \<^verbatim>\<open>_apply_RI\<close> and \<^verbatim>\<open>_apply_RII\<close> raise nothing, retire exactly the node, keep the state
  well-formed, and the total that is left for a choice of the other nodes is the least total over the candidates
  of the node, both cut off at \<^verbatim>\<open>INVALID_LAYOUT_TIME\<close>.
\<close>

theorem reductions_eliminate:
  assumes "pb_ok s" "d < length (pb_buckets s)" "x \<in> set (pb_buckets s ! d)" "d = 1 \<or> d = 2"
  shows "\<exists>s'. (if d = 1 then RI_reduction x s else RII_reduction x s) = Inr s' \<and> pb_ok s' \<and> live s' = live s - {x} \<and>
     pb_is_optimal s' = pb_is_optimal s \<and>
     (\<forall>choice. valid s choice \<longrightarrow>
        capped INVALID_LAYOUT_TIME (state_total s') choice = eliminate x (ncand s x) (capped INVALID_LAYOUT_TIME (state_total s)) choice)"
proof -
  note x = in_bucket [OF assms(1-3)]
  obtain s' where "(if d = 1 then RI_reduction x s else RII_reduction x s) = Inr s'" and e: "eliminates s x s'"
    using RI_eliminates [OF assms(1) x(1)] RII_eliminates [OF assms(1) x(1)] x(2) assms(4) by metis
  moreover have "capped INVALID_LAYOUT_TIME (state_total s') choice = eliminate x (ncand s x) (capped INVALID_LAYOUT_TIME (state_total s)) choice"
    if "valid s choice" for choice
    using pbqp_elim.step_eliminates [OF e that] by (simp add: capped_objective_def [abs_def])
  ultimately show ?thesis using e by (auto simp: eliminates_def retires_def)
qed

theorem reductions_eliminate_witness:
  "(\<exists>s'. RI_reduction 9 example_state = Inr s' \<and> pb_ok s' \<and> live s' = live example_state - {9}) \<and>
   (\<exists>s'. RII_reduction 4 example_state = Inr s' \<and> pb_ok s' \<and> live s' = live example_state - {4})"
  using reductions_eliminate [OF example_state_ok, of 1 9] reductions_eliminate [OF example_state_ok, of 2 4]
  by (auto simp: example_buckets)

subsection \<open>The whole run\<close>

text \<open>
  [C16] Termination of the PBQP tuner: for a well-formed tuner the construction succeeds, and \<^verbatim>\<open>run\<close> ends, either
  with the exception that no solution was found or with a candidate in range for every node.
\<close>

theorem pbqp_run_ends:
  assumes "tuner_ok g" "length (gt_node_list g) \<le> depth"
  shows "\<exists>s r. mk_pbqp g = Inr s \<and> pbqp_run depth g s = Some r \<and>
     (case r of Inl e \<Rightarrow> e = RuntimeError
      | Inr b \<Rightarrow> \<forall>n\<in>keys g. \<exists>i<length (tcosts g n). map_of (pb_optimal b) n = Some i)"
proof -
  have "\<forall>n\<in>keys g. \<exists>i<length (tcosts g n). map_of (pb_optimal b) n = Some i"
    if "in_range g (chosen b)" "keys g \<subseteq> dom (map_of (pb_optimal b))" for b
    using that by (fastforce simp: in_range_def chosen_def)
  then show ?thesis using run_result [OF assms] mk_pbqp_built [OF assms(1)] by auto
qed

theorem pbqp_run_ends_witness:
  "\<exists>s r. mk_pbqp example_tuner = Inr s \<and> pbqp_run 10 example_tuner s = Some r \<and>
     (case r of Inl e \<Rightarrow> e = RuntimeError
      | Inr b \<Rightarrow> \<forall>n\<in>{2, 4, 6, 7, 9}. \<exists>i<length (tcosts example_tuner n). map_of (pb_optimal b) n = Some i)"
  using pbqp_run_ends [OF example_ok example_size] unfolding example_keys .







subsection \<open>Pairs in both directions\<close>








end
