(* ===== verification/Spec2Isabelle.thy ===== *)
theory Spec2Isabelle
  imports Tuner_Loop Config_Entity Fallback_Config Model_Tuner GA_Tuner RPC_Properties Scheduler_Tune History_Best
    PBQP_Properties
begin

text \<open>
  \<^bold>\<open>Verification of Pruner's tuning stack.\<close>

  Pruner is a fork of TVM.  Its Python layer searches for fast tensor programs: a template declares a space
  of schedule configurations (AutoTVM) or the compiler enumerates sketches (the auto-scheduler), tuners
  propose candidates, measurements come back from devices that an RPC tracker hands out, and the best
  records are applied when a model is compiled.  This development models the parts of that layer that are
  written in Python and decide something: \<^verbatim>\<open>python/tvm/autotvm/task/space.py\<close>,
  \<^verbatim>\<open>python/tvm/autotvm/tuner\<close>, \<^verbatim>\<open>python/tvm/autotvm/graph_tuner\<close>, \<^verbatim>\<open>python/tvm/rpc\<close> and
  \<^verbatim>\<open>python/tvm/auto_scheduler\<close>.

  \<^bold>\<open>Conventions.\<close>  An exception is a value of \<open>py_error\<close>; fallible code returns \<open>'a res\<close>, stateful code an
  \<open>outcome\<close>, the result together with the state it leaves, also when it raises.  A dictionary is an
  association list in insertion order.  Floats are exact rationals, or values of \<open>fl\<close> where an infinity or
  NaN can arise; rounding is not modelled.  \<^verbatim>\<open>np.prod\<close> wraps at 64 bits.  Random draws come from a
  stream, so a statement about all streams covers every sequence of draws.  Code outside the repository's
  Python sources (measurement, cost models, sockets, the C++ search policies, clocks) is a parameter, with what
  the code relies on as hypotheses.  A loop that need not end is a \<open>partial_function\<close> into options, or has
  fuel together with a lemma that the fuel is enough.

  \<^bold>\<open>Theories and sources.\<close>
  \<^item> Prelude: exceptions, sequencing, Python lists, dictionaries, floats, randomness.  Interfaces: the locales
    for indexed spaces, tuners and model optimizers.
  \<^item> Split_Space, Reorder_Space, Annotate_Space (\<^verbatim>\<open>space.py\<close>, lines 30 to 628): the knob kinds.  The
    enumerated entities are exactly the intended tilings, orders and annotations, each once; applying an
    entity yields axes with the right extents, order and thread bindings.
  \<^item> Config_Space, Config_Entity, Fallback_Config (\<^verbatim>\<open>space.py\<close>, lines 631 to 1130): spaces as mixed-radix
    products, entities with their features and JSON form, fallback configurations.  Indexing is a
    bijection, the JSON form a round trip, \<^verbatim>\<open>fallback_split\<close> greedy.
  \<^item> Index_Tuner, Tuner_Loop (\<^verbatim>\<open>index_based_tuner.py\<close>, \<^verbatim>\<open>tuner.py\<close>): grid and random search and the
    tuning loop, which ends, measures each configuration at most once and keeps the fastest.
  \<^item> Knob_Points, SA_Optimizer, Model_Tuner, GA_Tuner (\<^verbatim>\<open>model_based_tuner.py\<close>,
    \<^verbatim>\<open>sa_model_optimizer.py\<close>, \<^verbatim>\<open>ga_tuner.py\<close>): knob vectors, simulated annealing, the model based and the
    genetic tuner.  Plans contain only unvisited points, heaps hold the best scores seen.
  \<^item> Json: the text format of \<^verbatim>\<open>json.dumps\<close> and \<^verbatim>\<open>json.loads\<close>, with the round trip.
  \<^item> RPC_Base, RPC_Tracker, RPC_Tracker_Inv, RPC_Scheduling, RPC_Framing, RPC_Properties (\<^verbatim>\<open>rpc/base.py\<close>,
    \<^verbatim>\<open>rpc/tracker.py\<close>, \<^verbatim>\<open>rpc/tornado_util.py\<close>): messages on a socket, and the tracker as a step relation over
    connection events.  Messages may arrive in any pieces, the tables stay consistent in every reachable
    state, scheduling ends, a resource goes to the first request in priority order, and none stays idle
    while a request for it waits.
  \<^item> Search_Policies, Task_Scheduler, Scheduler_Round, Scheduler_Loop, Scheduler_Tune
    (\<^verbatim>\<open>auto_scheduler/task_scheduler.py\<close>): which cost model and policies are built, the scheduler's tables,
    its two strategies, restoring a log and the callbacks.  Gradients of live tasks are negative, so
    the assertion in \<^verbatim>\<open>tune\<close> holds; every round spends measurements or retires a task, so \<^verbatim>\<open>tune\<close>
    returns, less than one round beyond its budget.
  \<^item> Workload_Keys, History_Best (\<^verbatim>\<open>auto_scheduler/utils.py\<close>, \<^verbatim>\<open>auto_scheduler/dispatcher.py\<close>): workload
    keys and their distance, the tables of best records with queries and updates, the fallback context.
  \<^item> Graph_Nodes, Graph_Tuner, Graph_Props (\<^verbatim>\<open>graph_tuner/utils\<close>, \<^verbatim>\<open>graph_tuner/base_graph_tuner.py\<close>): the
    tunable nodes of a graph with their inputs and outputs, the schedule candidates of a node, and the matrices of
    layout transformation times.  The memoised search finds the closest ancestors, and the candidates are the
    fastest layouts.
  \<^item> PBQP_Tuner (\<^verbatim>\<open>graph_tuner/pbqp_tuner.py\<close>): the solver that picks one candidate per node, with its cost
    matrices as shared objects.  Elimination states variable elimination without data structures;
    PBQP_Graph holds the invariant of the solver's state and its total, PBQP_Charge and PBQP_Forward show that the
    reductions of degree one and two are eliminations and that the forward pass ends, PBQP_Optimal that the
    backward pass keeps optimality, PBQP_Problem that construction and preparation yield such a state
    whose total is the execution time of the graph, and PBQP_Properties joins them.

  \<^bold>\<open>Interfaces.\<close>  The locale of indexed spaces is interpreted on configuration spaces, the tuner locales on
  grid and random search, the optimizer locale on simulated annealing, the invariant locales of the tracker
  on its tables and on the bound for waiting requests, the callback locale on the two default callbacks
  of the task scheduler, and the locale of elimination steps on the reductions of the PBQP tuner.

  \<^bold>\<open>Fuel and bounds.\<close>  The JSON scanner gets twice the length of its input, since every call consumes a
  character or returns to one that does.  The tracker's scheduling loop gets one more than the number of
  waiting requests, and a lemma shows that more fuel changes nothing.  The recursions over the inputs of a graph
  node get a depth, and any depth above the node's index is enough because inputs come first.  All other loops are structural,
  have a termination proof or are partial functions whose termination is a theorem.

  \<^bold>\<open>Not modelled.\<close>  The dynamic programming graph tuner, whose stages are numpy tables over the same graph, and the
  translation of a Relay expression into a node list.  Training and inference of the learned cost models, feature extraction in C++, compilation
  and measurement, processes, threads and sockets beyond their contracts, and everything below the
  Python layer.  Relay, TOPI, TE and TIR are constructors of C++ objects and have no decision of their own
  that this development could state without that C++ code.
\<close>

end
